theory Spec2Isabelle
  imports Main "HOL-Library.Word"
begin

unbundle bit_operations_syntax

section \<open>The read interface of the capture driver (read\_interface.c)\<close>

text \<open>
  A shallow embedding of \<^verbatim>\<open>src/KLogProcessHacker/read_interface.c\<close>: the control
  dispatcher \<^verbatim>\<open>DispatchDeviceControl\<close>, the filter replacement \<^verbatim>\<open>SetIdList\<close> and the
  read path \<^verbatim>\<open>DispatchRead\<close>. C structs are records, \<^verbatim>\<open>UINT32\<close> is \<open>32 word\<close> (its
  arithmetic wraps), a nullable pointer is an \<open>option\<close>, mutation is state passing, and
  a read or write through a bad pointer is a value of the type \<open>FAULT\<close>.
\<close>

subsection \<open>Machine types and byte encoding\<close>

type_synonym u8 = "8 word"
type_synonym u32 = "32 word"
type_synonym u64 = "64 word"

text \<open>The driver runs on little-endian Windows targets: a \<^verbatim>\<open>UINT32\<close> in memory is four
  bytes, least significant first.\<close>

definition le32 :: "u32 \<Rightarrow> u8 list" where
  "le32 w = [ucast w, ucast (drop_bit 8 w), ucast (drop_bit 16 w), ucast (drop_bit 24 w)]"

definition de32 :: "u8 list \<Rightarrow> u32" where
  "de32 bs = (ucast (bs ! 0)) OR push_bit 8 (ucast (bs ! 1)) OR
             push_bit 16 (ucast (bs ! 2)) OR push_bit 24 (ucast (bs ! 3))"

definition le64 :: "u64 \<Rightarrow> u8 list" where
  "le64 w = map (\<lambda>i. ucast (drop_bit (8 * i) w)) [0..<8]"

definition de64 :: "u8 list \<Rightarrow> u64" where
  "de64 bs = foldr (\<lambda>b acc. ucast b OR push_bit 8 acc) (take 8 bs) 0"

text \<open>\<^verbatim>\<open>RtlCopyMemory(dst, src + off, n)\<close>, source side: the \<open>n\<close> bytes of \<open>src\<close> from
  \<open>off\<close>, or nothing when the range leaves the source.\<close>

definition read_bytes :: "u8 list \<Rightarrow> nat \<Rightarrow> nat \<Rightarrow> u8 list option" where
  "read_bytes src off n =
     (if off + n \<le> length src then Some (take n (drop off src)) else None)"

text \<open>Reading a \<^verbatim>\<open>UINT32\<close> field at a byte offset, and storing one.\<close>

definition rd32 :: "u8 list \<Rightarrow> nat \<Rightarrow> u32 option" where
  "rd32 bs off = map_option de32 (read_bytes bs off 4)"

definition wr32 :: "u8 list \<Rightarrow> nat \<Rightarrow> u32 \<Rightarrow> u8 list" where
  "wr32 bs off v = take off bs @ le32 v @ drop (off + 4) bs"

definition wr_bytes :: "u8 list \<Rightarrow> u8 list \<Rightarrow> u8 list" where
  "wr_bytes bs new = new @ drop (length new) bs"

datatype FAULT =
    TableReadOverrun      \<comment> \<open>\<^verbatim>\<open>gIoctlParams[function]\<close> read past the last entry\<close>
  | NullDereference       \<comment> \<open>a read or write through a NULL pointer\<close>
  | BufferOverrun         \<comment> \<open>a read past the end of a buffer\<close>

datatype NTSTATUS =
    STATUS_SUCCESS
  | STATUS_INVALID_PARAMETER
  | STATUS_INVALID_DEVICE_REQUEST
  | STATUS_BUFFER_TOO_SMALL
  | STATUS_OTHER u32

subsection \<open>Capture blocks and the reader context\<close>

datatype BLOCK_TYPE = PacketBlock | OtherBlock u32

record BLOCK_NODE =
  BlockType :: BLOCK_TYPE
  BlockLength :: u32
  ProcessId :: u32
  ConnectionId :: u32
  Buffer :: "u8 list option"
  Data :: "u8 list"

text \<open>\<^verbatim>\<open>blockNode->Buffer ? blockNode->Buffer : blockNode->Data\<close>\<close>

definition blockData :: "BLOCK_NODE \<Rightarrow> u8 list" where
  "blockData b = (case Buffer b of Some bs \<Rightarrow> bs | None \<Rightarrow> Data b)"

datatype RESTART_STATE = RestartStateInit | RestartStateNormal | RestartStateSendEof

text \<open>The fields of \<^verbatim>\<open>READER_CONTEXT\<close> that the three functions use. A filter list is
  the array as \<^verbatim>\<open>SetIdList\<close> allocates it: element 0 is the count, the ids follow.
  \<^verbatim>\<open>ModifiedHeader\<close> and \<^verbatim>\<open>ModifiedFooter\<close> are the bytes of the two scratch structs.\<close>

record READER_CONTEXT =
  SnapLength :: u32
  SnapLengthPad :: u32
  RestartState :: RESTART_STATE
  RestartRequested :: u32
  CurrentBlock :: "BLOCK_NODE option"
  CurrentBlockOffset :: u32
  FilteredProcessIds :: "u32 list option"
  FilteredConnectionIds :: "u32 list option"
  ModifiedHeader :: "u8 list"
  ModifiedFooter :: "u8 list"
  DataEndOffset :: u32
  ModifiedFooterOffset :: u32
  OriginalFooterOffset :: u32

subsection \<open>Declarations outside the source file\<close>

text \<open>
  \<^verbatim>\<open>read_interface_priv.h\<close> and the headers it includes are not part of the source
  under study. What the code takes from them is a parameter of the model:
  the sizes of the two PCAP-NG structs and the byte offsets of the fields the code
  names, the macro \<^verbatim>\<open>PCAP_NG_PADDING\<close>, \<^verbatim>\<open>sizeof(STATISTICS)\<close>, the control codes
  \<^verbatim>\<open>IOCTL_KPH_*\<close>, and whether \<^verbatim>\<open>_X86_\<close> is defined.
\<close>

record LAYOUT =
  HeaderSize :: u32                 \<comment> \<open>\<^verbatim>\<open>sizeof(PCAP_NG_PACKET_HEADER)\<close>\<close>
  HdrBlockType :: nat               \<comment> \<open>offset of \<^verbatim>\<open>BlockType\<close> in the header\<close>
  HdrBlockLength :: nat             \<comment> \<open>offset of \<^verbatim>\<open>BlockLength\<close> in the header\<close>
  HdrCapturedLength :: nat          \<comment> \<open>offset of \<^verbatim>\<open>CapturedLength\<close> in the header\<close>
  FooterSize :: u32                 \<comment> \<open>\<^verbatim>\<open>sizeof(PCAP_NG_PACKET_FOOTER)\<close>\<close>
  FtrBlockLength :: nat             \<comment> \<open>offset of \<^verbatim>\<open>BlockLength\<close> in the footer\<close>

record IOCTL_CODES =
  IOCTL_KPH_MARK_RESTART :: u32
  IOCTL_KPH_FILTER_CONNECTIONS :: u32
  IOCTL_KPH_FILTER_PROCESSES :: u32
  IOCTL_KPH_SET_SNAP_LENGTH :: u32
  IOCTL_KPH_GET_SNAP_LENGTH :: u32
  IOCTL_KPH_SET_DATA_EVENT_32 :: u32
  IOCTL_KPH_SET_DATA_EVENT_64 :: u32
  IOCTL_KPH_SET_OPEN_CONNECTIONS :: u32
  IOCTL_KPH_GET_STATISTICS :: u32

record ENV =
  Layout :: LAYOUT
  Codes :: IOCTL_CODES
  PCAP_NG_PADDING :: "u32 \<Rightarrow> u32"
  SizeofStatistics :: u32
  X86 :: bool
  PoolAllocates :: bool             \<comment> \<open>does \<^verbatim>\<open>ExAllocatePoolWithTag\<close> return memory\<close>
  InitialBlocks :: "BLOCK_NODE list \<Rightarrow> BLOCK_NODE list"
                                    \<comment> \<open>what \<^verbatim>\<open>QmGetInitialBlocks\<close> does to the reader's queue\<close>
  DataEventStatus :: "u64 \<Rightarrow> NTSTATUS" \<comment> \<open>what \<^verbatim>\<open>QmSetReaderDataEvent\<close> returns\<close>
  StatisticsBytes :: "u8 list"      \<comment> \<open>what \<^verbatim>\<open>QmGetStatistics\<close> stores\<close>

subsection \<open>The queue manager, as the read interface sees it\<close>

datatype QM_CALL =
    CallSetReaderSnapLength u32
  | CallSetReaderDataEvent u64
  | CallSetOpenConnections "u8 list"
  | CallGetStatistics
  | CallGetInitialBlocks bool

record QM =
  Queue :: "BLOCK_NODE list"        \<comment> \<open>blocks waiting for this reader, next first\<close>
  Released :: "BLOCK_NODE list"     \<comment> \<open>blocks given to \<^verbatim>\<open>QmCleanupBlock\<close>, oldest first\<close>
  Calls :: "QM_CALL list"           \<comment> \<open>the other calls made, oldest first\<close>

definition QmCleanupBlock :: "BLOCK_NODE \<Rightarrow> QM \<Rightarrow> QM" where
  "QmCleanupBlock b q = q\<lparr>Released := Released q @ [b]\<rparr>"

definition QmDequeueBlock :: "QM \<Rightarrow> BLOCK_NODE option \<times> QM" where
  "QmDequeueBlock q =
     (case Queue q of [] \<Rightarrow> (None, q) | b # bs \<Rightarrow> (Some b, q\<lparr>Queue := bs\<rparr>))"

definition QmGetInitialBlocks :: "ENV \<Rightarrow> bool \<Rightarrow> QM \<Rightarrow> QM" where
  "QmGetInitialBlocks env destructive q =
     q\<lparr>Queue := InitialBlocks env (Queue q), Calls := Calls q @ [CallGetInitialBlocks destructive]\<rparr>"

definition QmCall :: "QM_CALL \<Rightarrow> QM \<Rightarrow> QM" where
  "QmCall c q = q\<lparr>Calls := Calls q @ [c]\<rparr>"

subsection \<open>The table of required buffer lengths\<close>

record IOCTL_PARAMS =
  InputLength :: u32
  OutputLength :: u32
  InputLength64 :: u32
  OutputLength64 :: u32

definition ioctl_params :: "u32 \<Rightarrow> u32 \<Rightarrow> u32 \<Rightarrow> u32 \<Rightarrow> IOCTL_PARAMS" where
  "ioctl_params i oo i64 o64 =
     \<lparr>InputLength = i, OutputLength = oo, InputLength64 = i64, OutputLength64 = o64\<rparr>"

definition gIoctlParams :: "ENV \<Rightarrow> IOCTL_PARAMS list" where
  "gIoctlParams env =
     [ ioctl_params 0 0 0 0,
       ioctl_params 0 0 0 0,
       ioctl_params 0 0 0 0,
       ioctl_params 4 0 4 0,
       ioctl_params 0 4 0 4,
       ioctl_params 4 0 8 0,
       ioctl_params 4 0 4 0,
       ioctl_params 0 (SizeofStatistics env) 0 (SizeofStatistics env) ]"

text \<open>\<^verbatim>\<open>ARRAY_SIZEOF(gIoctlParams)\<close>: the number of entries.\<close>

definition ARRAY_SIZEOF_gIoctlParams :: "ENV \<Rightarrow> u32" where
  "ARRAY_SIZEOF_gIoctlParams env = of_nat (length (gIoctlParams env))"

text \<open>\<^verbatim>\<open>gIoctlParams[function]\<close>: C reads whatever follows the array when the index is
  not below the number of entries; the model says so.\<close>

definition gIoctlParams_at :: "ENV \<Rightarrow> u32 \<Rightarrow> FAULT + IOCTL_PARAMS" where
  "gIoctlParams_at env function =
     (if unat function < length (gIoctlParams env)
      then Inr (gIoctlParams env ! unat function) else Inl TableReadOverrun)"

definition ioctl_function :: "u32 \<Rightarrow> u32" where
  "ioctl_function ioctl = drop_bit 2 (ioctl AND 0x0ffc)"

definition ioctl_is64Bit :: "u32 \<Rightarrow> bool" where
  "ioctl_is64Bit ioctl = (ioctl AND 0x1000 \<noteq> 0)"

subsection \<open>SetIdList\<close>

datatype ID_LIST_TYPE = ConnectionIdList | ProcessIdList

text \<open>The loop of \<^verbatim>\<open>SetIdList\<close> copies \<^verbatim>\<open>newIds[0 .. numIds)\<close> from the request buffer
  into \<^verbatim>\<open>ids[1 .. numIds]\<close>.\<close>

fun copy_ids :: "u8 list \<Rightarrow> nat \<Rightarrow> nat \<Rightarrow> FAULT + u32 list" where
  "copy_ids buffer index 0 = Inr []"
| "copy_ids buffer index (Suc n) =
     (case rd32 buffer (4 * index) of
        None \<Rightarrow> Inl BufferOverrun
      | Some ident \<Rightarrow>
          (case copy_ids buffer (Suc index) n of
             Inl f \<Rightarrow> Inl f
           | Inr rest \<Rightarrow> Inr (ident # rest)))"

text \<open>The result of \<^verbatim>\<open>SetIdList\<close>: the context after the exchange, and the array given
  to \<^verbatim>\<open>ExFreePool\<close> (the one that was installed before), if any. The function has no
  check of the pointer \<^verbatim>\<open>ExAllocatePoolWithTag\<close> returns: \<^verbatim>\<open>ids[0] = numIds\<close> is the next
  statement.\<close>

definition SetIdList ::
  "ENV \<Rightarrow> READER_CONTEXT \<Rightarrow> ID_LIST_TYPE \<Rightarrow> u8 list option \<Rightarrow> u32
    \<Rightarrow> FAULT + (READER_CONTEXT \<times> u32 list option)" where
  "SetIdList env context idListType buffer bufferLen =
     (let numIds = bufferLen div 4;
          built =
            (if numIds \<noteq> 0 then
               (if \<not> PoolAllocates env then Inl NullDereference
                else case buffer of
                  None \<Rightarrow> Inl NullDereference
                | Some bs \<Rightarrow>
                    (case copy_ids bs 0 (unat numIds) of
                       Inl f \<Rightarrow> Inl f
                     | Inr new \<Rightarrow> Inr (Some (numIds # new))))
             else Inr None)
      in case built of
           Inl f \<Rightarrow> Inl f
         | Inr ids \<Rightarrow>
             (case idListType of
                ConnectionIdList \<Rightarrow>
                  Inr (context\<lparr>FilteredConnectionIds := ids\<rparr>, FilteredConnectionIds context)
              | ProcessIdList \<Rightarrow>
                  Inr (context\<lparr>FilteredProcessIds := ids\<rparr>, FilteredProcessIds context)))"

subsection \<open>DispatchDeviceControl\<close>

record IOCTL_IRP =
  FsContext2 :: "READER_CONTEXT option"
  SystemBuffer :: "u8 list option"
  InputBufferLength :: u32
  OutputBufferLength :: u32
  IoControlCode :: u32

text \<open>What a completed control request leaves behind: the status and the byte count of
  \<^verbatim>\<open>CompleteIrp\<close>, the request buffer, the context, the queue manager, and the arrays
  given to \<^verbatim>\<open>ExFreePool\<close>.\<close>

record IOCTL_DONE =
  Status :: NTSTATUS
  Information :: u32
  OutBuffer :: "u8 list option"
  ContextAfter :: "READER_CONTEXT option"
  QmAfter :: QM
  Freed :: "u32 list list"

definition CompleteIoctl ::
  "NTSTATUS \<Rightarrow> u32 \<Rightarrow> u8 list option \<Rightarrow> READER_CONTEXT option \<Rightarrow> QM \<Rightarrow> IOCTL_DONE" where
  "CompleteIoctl status information buffer context q =
     \<lparr>Status = status, Information = information, OutBuffer = buffer,
      ContextAfter = context, QmAfter = q, Freed = []\<rparr>"

text \<open>The \<^verbatim>\<open>switch\<close> of \<^verbatim>\<open>DispatchDeviceControl\<close>, entered once the length checks have
  passed. \<open>outBufLenReq\<close> is the output length the table gave.\<close>

definition IoctlSwitch ::
  "ENV \<Rightarrow> QM \<Rightarrow> READER_CONTEXT \<Rightarrow> u8 list option \<Rightarrow> u32 \<Rightarrow> u32 \<Rightarrow> u32
    \<Rightarrow> FAULT + IOCTL_DONE" where
  "IoctlSwitch env q context buffer inBufLen outBufLenReq code =
    (let c = Codes env in
     if code = IOCTL_KPH_FILTER_CONNECTIONS c then
       (case SetIdList env context ConnectionIdList buffer inBufLen of
          Inl f \<Rightarrow> Inl f
        | Inr (context', old) \<Rightarrow>
            Inr ((CompleteIoctl STATUS_SUCCESS 0 buffer (Some context') q)
                   \<lparr>Freed := (case old of None \<Rightarrow> [] | Some a \<Rightarrow> [a])\<rparr>))
     else if code = IOCTL_KPH_FILTER_PROCESSES c then
       (case SetIdList env context ProcessIdList buffer inBufLen of
          Inl f \<Rightarrow> Inl f
        | Inr (context', old) \<Rightarrow>
            Inr ((CompleteIoctl STATUS_SUCCESS 0 buffer (Some context') q)
                   \<lparr>Freed := (case old of None \<Rightarrow> [] | Some a \<Rightarrow> [a])\<rparr>))
     else if code = IOCTL_KPH_MARK_RESTART c then
       Inr (CompleteIoctl STATUS_SUCCESS 0 buffer (Some (context\<lparr>RestartRequested := 1\<rparr>)) q)
     else if code = IOCTL_KPH_SET_SNAP_LENGTH c then
       (case buffer of
          None \<Rightarrow> Inl NullDereference
        | Some bs \<Rightarrow>
           (case rd32 bs 0 of
              None \<Rightarrow> Inl BufferOverrun
            | Some snapLength \<Rightarrow>
                if SnapLength context \<noteq> snapLength then
                  Inr (CompleteIoctl STATUS_SUCCESS 0 buffer
                         (Some (context\<lparr>SnapLength := snapLength,
                                  SnapLengthPad := PCAP_NG_PADDING env snapLength - snapLength\<rparr>))
                         (QmCall (CallSetReaderSnapLength snapLength) q))
                else Inr (CompleteIoctl STATUS_SUCCESS 0 buffer (Some context) q)))
     else if code = IOCTL_KPH_GET_SNAP_LENGTH c then
       (case buffer of
          None \<Rightarrow> Inl NullDereference
        | Some bs \<Rightarrow>
            if length bs < 4 then Inl BufferOverrun
            else Inr (CompleteIoctl STATUS_SUCCESS outBufLenReq
                        (Some (wr_bytes bs (le32 (SnapLength context)))) (Some context) q))
     else if code = IOCTL_KPH_SET_DATA_EVENT_32 c then
       (case buffer of
          None \<Rightarrow> Inl NullDereference
        | Some bs \<Rightarrow>
           (case rd32 bs 0 of
              None \<Rightarrow> Inl BufferOverrun
            | Some event \<Rightarrow>
                Inr (CompleteIoctl (DataEventStatus env (ucast event)) 0 buffer (Some context)
                       (QmCall (CallSetReaderDataEvent (ucast event)) q))))
     else if code = IOCTL_KPH_SET_DATA_EVENT_64 c then
       (if X86 env then
          Inr (CompleteIoctl STATUS_INVALID_DEVICE_REQUEST 0 buffer (Some context) q)
        else
          (case buffer of
             None \<Rightarrow> Inl NullDereference
           | Some bs \<Rightarrow>
              (case read_bytes bs 0 8 of
                 None \<Rightarrow> Inl BufferOverrun
               | Some ev \<Rightarrow>
                   Inr (CompleteIoctl (DataEventStatus env (de64 ev)) 0 buffer (Some context)
                          (QmCall (CallSetReaderDataEvent (de64 ev)) q)))))
     else if code = IOCTL_KPH_SET_OPEN_CONNECTIONS c then
       (case buffer of
          None \<Rightarrow> Inl NullDereference
        | Some bs \<Rightarrow>
            Inr (CompleteIoctl STATUS_SUCCESS 0 buffer (Some context)
                   (QmCall (CallSetOpenConnections bs) q)))
     else if code = IOCTL_KPH_GET_STATISTICS c then
       (case buffer of
          None \<Rightarrow> Inl NullDereference
        | Some bs \<Rightarrow>
            if length bs < length (StatisticsBytes env) then Inl BufferOverrun
            else Inr (CompleteIoctl STATUS_SUCCESS outBufLenReq
                        (Some (wr_bytes bs (StatisticsBytes env))) (Some context)
                        (QmCall CallGetStatistics q)))
     else Inr (CompleteIoctl STATUS_INVALID_DEVICE_REQUEST 0 buffer (Some context) q))"

definition DispatchDeviceControl :: "ENV \<Rightarrow> QM \<Rightarrow> IOCTL_IRP \<Rightarrow> FAULT + IOCTL_DONE" where
  "DispatchDeviceControl env q irp =
    (let buffer = SystemBuffer irp;
         inBufLen = InputBufferLength irp;
         outBufLen = OutputBufferLength irp;
         ioctl = IoControlCode irp;
         function = ioctl_function ioctl;
         is64Bit = ioctl_is64Bit ioctl
     in case FsContext2 irp of
          None \<Rightarrow> Inr (CompleteIoctl STATUS_INVALID_PARAMETER 0 buffer None q)
        | Some context \<Rightarrow>
            if function > ARRAY_SIZEOF_gIoctlParams env then
              Inr (CompleteIoctl STATUS_INVALID_DEVICE_REQUEST 0 buffer (Some context) q)
            else
              (case gIoctlParams_at env function of
                 Inl f \<Rightarrow> Inl f
               | Inr p \<Rightarrow>
                  (let inBufLenReq = (if is64Bit then InputLength64 p else InputLength p);
                       outBufLenReq = (if is64Bit then OutputLength64 p else OutputLength p)
                   in if inBufLen < inBufLenReq \<or> outBufLen < outBufLenReq then
                        Inr (CompleteIoctl STATUS_BUFFER_TOO_SMALL 0 buffer (Some context) q)
                      else if (inBufLenReq \<noteq> 0 \<or> outBufLenReq \<noteq> 0) \<and> buffer = None then
                        Inr (CompleteIoctl STATUS_INVALID_PARAMETER 0 buffer (Some context) q)
                      else IoctlSwitch env q context buffer inBufLen outBufLenReq ioctl)))"

subsection \<open>DispatchRead\<close>

text \<open>The scan of a filter list,
  \<^verbatim>\<open>for (index = 1; index <= ids[0]; index++) if (ids[index] == id) { filter = true; break; }\<close>.
  \<open>n\<close> counts the iterations left. (A count of \<open>2^32 - 1\<close>, which would make the C
  condition always true, needs a request buffer longer than a \<^verbatim>\<open>UINT32\<close> length can
  declare: \<^verbatim>\<open>SetIdList\<close> stores \<open>bufferLen / 4\<close>.)\<close>

fun id_scan :: "u32 list \<Rightarrow> u32 \<Rightarrow> nat \<Rightarrow> nat \<Rightarrow> FAULT + bool" where
  "id_scan ids v index 0 = Inr False"
| "id_scan ids v index (Suc n) =
     (if index < length ids then
        (if ids ! index = v then Inr True else id_scan ids v (Suc index) n)
      else Inl BufferOverrun)"

definition id_listed :: "u32 list \<Rightarrow> u32 \<Rightarrow> FAULT + bool" where
  "id_listed ids v =
     (case ids of [] \<Rightarrow> Inl BufferOverrun | count # _ \<Rightarrow> id_scan ids v 1 (unat count))"

text \<open>Lines 328 to 353: the process ids first, the connection ids only when no process id
  matched; a NULL list is not scanned.\<close>

definition block_filtered :: "READER_CONTEXT \<Rightarrow> BLOCK_NODE \<Rightarrow> FAULT + bool" where
  "block_filtered c b =
     (case (case FilteredProcessIds c of
              None \<Rightarrow> Inr False
            | Some ids \<Rightarrow> id_listed ids (ProcessId b)) of
        Inl f \<Rightarrow> Inl f
      | Inr filtered \<Rightarrow>
          if \<not> filtered then
            (case FilteredConnectionIds c of
               None \<Rightarrow> Inr False
             | Some ids \<Rightarrow> id_listed ids (ConnectionId b))
          else Inr True)"

text \<open>Lines 362 to 375: the header and footer of a packet block longer than the snap
  length are copied to the context and fixed up there. The test is
  \<^verbatim>\<open>context->SnapLength && (header->CapturedLength > context->SnapLength)\<close>: the captured
  length is read only when the snap length is not zero.\<close>

definition TrimBlock :: "LAYOUT \<Rightarrow> READER_CONTEXT \<Rightarrow> BLOCK_NODE \<Rightarrow> FAULT + READER_CONTEXT" where
  "TrimBlock lay c b =
     (if SnapLength c \<noteq> 0 then
        (case rd32 (blockData b) (HdrCapturedLength lay) of
           None \<Rightarrow> Inl BufferOverrun
         | Some capturedLength \<Rightarrow>
             if capturedLength > SnapLength c then
               (case rd32 (blockData b) (HdrBlockLength lay) of
                  None \<Rightarrow> Inl BufferOverrun
                | Some headerBlockLength \<Rightarrow>
                   (let dataEnd = HeaderSize lay + SnapLength c;
                        modifiedFooter = dataEnd + SnapLengthPad c;
                        originalFooter = headerBlockLength - FooterSize lay;
                        newLength = modifiedFooter + FooterSize lay
                    in case read_bytes (blockData b) 0 (unat (HeaderSize lay)) of
                         None \<Rightarrow> Inl BufferOverrun
                       | Some hdr \<Rightarrow>
                          (case read_bytes (blockData b) (unat originalFooter)
                                  (unat (FooterSize lay)) of
                             None \<Rightarrow> Inl BufferOverrun
                           | Some ftr \<Rightarrow>
                               Inr (c\<lparr>DataEndOffset := dataEnd,
                                      ModifiedFooterOffset := modifiedFooter,
                                      OriginalFooterOffset := originalFooter,
                                      ModifiedHeader :=
                                        wr32 (wr32 hdr (HdrBlockLength lay) newLength)
                                          (HdrCapturedLength lay) (SnapLength c),
                                      ModifiedFooter := wr32 ftr (FtrBlockLength lay) newLength\<rparr>))))
             else Inr c)
      else Inr c)"

text \<open>The locals of \<^verbatim>\<open>DispatchRead\<close>, with the context and the queue manager.
  \<open>readBuffer\<close> holds the bytes stored so far at \<^verbatim>\<open>readBuffer[0 .. readOffset)\<close>: every
  store of the function goes to \<^verbatim>\<open>readBuffer + readOffset\<close> and is followed by
  \<^verbatim>\<open>readOffset += bytesToCopy\<close>.\<close>

record READ_STATE =
  blockNode :: "BLOCK_NODE option"
  blockOffset :: u32
  readOffset :: u32
  readBuffer :: "u8 list"
  ctx :: READER_CONTEXT
  qm :: QM

datatype ACQUIRED =
    AcqBreak READ_STATE               \<comment> \<open>\<^verbatim>\<open>break\<close>\<close>
  | AcqContinue READ_STATE            \<comment> \<open>\<^verbatim>\<open>continue\<close>\<close>
  | AcqBlock READ_STATE BLOCK_NODE    \<comment> \<open>go on to the copy with this block\<close>

text \<open>Lines 310 to 377, entered with \<^verbatim>\<open>blockNode == NULL\<close>.\<close>

definition AcquireBlock :: "LAYOUT \<Rightarrow> READ_STATE \<Rightarrow> FAULT + ACQUIRED" where
  "AcquireBlock lay s =
     (if RestartRequested (ctx s) = 1 then
        Inr (AcqBreak (s\<lparr>ctx := (ctx s)\<lparr>RestartRequested := 0,
                                   RestartState := (if readOffset s \<noteq> 0 then RestartStateSendEof
                                                    else RestartStateInit)\<rparr>\<rparr>))
      else
        (case QmDequeueBlock (qm s) of
           (None, q') \<Rightarrow> Inr (AcqBreak (s\<lparr>blockNode := None, blockOffset := 0, qm := q'\<rparr>))
         | (Some b, q') \<Rightarrow>
            (let c0 = (ctx s)\<lparr>ModifiedHeader :=
                                 wr32 (ModifiedHeader (ctx s)) (HdrBlockType lay) 0\<rparr>;
                 s0 = s\<lparr>blockNode := Some b, blockOffset := 0, qm := q', ctx := c0\<rparr>
             in if BlockType b = PacketBlock then
                  (case block_filtered c0 b of
                     Inl f \<Rightarrow> Inl f
                   | Inr filtered \<Rightarrow>
                       if filtered then
                         Inr (AcqContinue (s0\<lparr>qm := QmCleanupBlock b q', blockNode := None\<rparr>))
                       else
                         (case TrimBlock lay c0 b of
                            Inl f \<Rightarrow> Inl f
                          | Inr c1 \<Rightarrow> Inr (AcqBlock (s0\<lparr>ctx := c1\<rparr>) b)))
                else Inr (AcqBlock s0 b))))"

text \<open>One \<^verbatim>\<open>RtlCopyMemory(readBuffer + readOffset, src + off, bytesToCopy)\<close> with the two
  increments that follow it.\<close>

definition CopyToReader :: "u8 list \<Rightarrow> nat \<Rightarrow> u32 \<Rightarrow> READ_STATE \<Rightarrow> FAULT + READ_STATE" where
  "CopyToReader src off bytesToCopy s =
     (case read_bytes src off (unat bytesToCopy) of
        None \<Rightarrow> Inl BufferOverrun
      | Some bytes \<Rightarrow>
          Inr (s\<lparr>readBuffer := readBuffer s @ bytes,
                 readOffset := readOffset s + bytesToCopy,
                 blockOffset := blockOffset s + bytesToCopy\<rparr>))"

text \<open>Lines 384 to 393.\<close>

definition CopyHeader :: "LAYOUT \<Rightarrow> u32 \<Rightarrow> READ_STATE \<Rightarrow> FAULT + READ_STATE" where
  "CopyHeader lay readLength s =
     (if blockOffset s < HeaderSize lay then
        CopyToReader (ModifiedHeader (ctx s)) (unat (blockOffset s))
          (min (readLength - readOffset s) (HeaderSize lay - blockOffset s)) s
      else Inr s)"

text \<open>Lines 396 to 408.\<close>

definition CopyData :: "LAYOUT \<Rightarrow> u32 \<Rightarrow> BLOCK_NODE \<Rightarrow> READ_STATE \<Rightarrow> FAULT + READ_STATE" where
  "CopyData lay readLength b s =
     (if blockOffset s \<ge> HeaderSize lay \<and> blockOffset s < DataEndOffset (ctx s) \<and>
         readOffset s < readLength then
        CopyToReader (blockData b) (unat (blockOffset s))
          (min (readLength - readOffset s) (DataEndOffset (ctx s) - blockOffset s)) s
      else Inr s)"

text \<open>Lines 411 to 426: \<^verbatim>\<open>RtlZeroMemory\<close> stores the padding, and the cursor skips the
  rest of the packet data once it has reached \<^verbatim>\<open>ModifiedFooterOffset\<close>.\<close>

definition CopyPadding :: "u32 \<Rightarrow> READ_STATE \<Rightarrow> READ_STATE" where
  "CopyPadding readLength s =
     (if blockOffset s \<ge> DataEndOffset (ctx s) \<and> blockOffset s < OriginalFooterOffset (ctx s) \<and>
         readOffset s < readLength then
        (let bytesToCopy = min (readLength - readOffset s)
                               (ModifiedFooterOffset (ctx s) - blockOffset s);
             s1 = s\<lparr>readBuffer := readBuffer s @ replicate (unat bytesToCopy) 0,
                    readOffset := readOffset s + bytesToCopy,
                    blockOffset := blockOffset s + bytesToCopy\<rparr>
         in if blockOffset s1 \<ge> ModifiedFooterOffset (ctx s1)
            then s1\<lparr>blockOffset := OriginalFooterOffset (ctx s1)\<rparr> else s1)
      else s)"

text \<open>Lines 429 to 440.\<close>

definition CopyFooter :: "u32 \<Rightarrow> u32 \<Rightarrow> READ_STATE \<Rightarrow> FAULT + READ_STATE" where
  "CopyFooter readLength blockLength s =
     (if blockOffset s \<ge> OriginalFooterOffset (ctx s) \<and> readOffset s < readLength then
        CopyToReader (ModifiedFooter (ctx s))
          (unat (blockOffset s - OriginalFooterOffset (ctx s)))
          (min (readLength - readOffset s) (blockLength - blockOffset s)) s
      else Inr s)"

text \<open>Lines 379 to 455: the copy from the block held, and its release when the cursor
  has reached its end.\<close>

definition ReleaseIfDone :: "BLOCK_NODE \<Rightarrow> READ_STATE \<Rightarrow> READ_STATE" where
  "ReleaseIfDone b s =
     (if blockOffset s \<ge> BlockLength b
      then s\<lparr>qm := QmCleanupBlock b (qm s), blockNode := None, blockOffset := 0\<rparr>
      else s)"

definition CopyBlock :: "LAYOUT \<Rightarrow> u32 \<Rightarrow> BLOCK_NODE \<Rightarrow> READ_STATE \<Rightarrow> FAULT + READ_STATE" where
  "CopyBlock lay readLength b s =
     (case rd32 (ModifiedHeader (ctx s)) (HdrBlockType lay) of
        None \<Rightarrow> Inl BufferOverrun
      | Some modifiedType \<Rightarrow>
          if modifiedType \<noteq> 0 then
            (case CopyHeader lay readLength s of
               Inl f \<Rightarrow> Inl f
             | Inr s1 \<Rightarrow>
                (case CopyData lay readLength b s1 of
                   Inl f \<Rightarrow> Inl f
                 | Inr s2 \<Rightarrow>
                    (case CopyFooter readLength (BlockLength b) (CopyPadding readLength s2) of
                       Inl f \<Rightarrow> Inl f
                     | Inr s4 \<Rightarrow> Inr (ReleaseIfDone b s4))))
          else
            (case CopyToReader (blockData b) (unat (blockOffset s))
                    (min (readLength - readOffset s) (BlockLength b - blockOffset s)) s of
               Inl f \<Rightarrow> Inl f
             | Inr s1 \<Rightarrow> Inr (ReleaseIfDone b s1)))"

datatype LOOP = Break READ_STATE | Continue READ_STATE

text \<open>The body of \<^verbatim>\<open>while (readOffset < readLength)\<close>.\<close>

definition ReadBody :: "LAYOUT \<Rightarrow> u32 \<Rightarrow> READ_STATE \<Rightarrow> FAULT + LOOP" where
  "ReadBody lay readLength s =
     (case blockNode s of
        Some b \<Rightarrow>
          (case CopyBlock lay readLength b s of Inl f \<Rightarrow> Inl f | Inr s' \<Rightarrow> Inr (Continue s'))
      | None \<Rightarrow>
          (case AcquireBlock lay s of
             Inl f \<Rightarrow> Inl f
           | Inr (AcqBreak s') \<Rightarrow> Inr (Break s')
           | Inr (AcqContinue s') \<Rightarrow> Inr (Continue s')
           | Inr (AcqBlock s' b) \<Rightarrow>
               (case CopyBlock lay readLength b s' of
                  Inl f \<Rightarrow> Inl f
                | Inr s'' \<Rightarrow> Inr (Continue s''))))"

text \<open>The number of blocks held by the loop: one when \<^verbatim>\<open>blockNode\<close> is not NULL.\<close>

definition held :: "READ_STATE \<Rightarrow> nat" where
  "held s = (case blockNode s of None \<Rightarrow> 0 | Some b \<Rightarrow> 1)"

subsection \<open>Every iteration of the read loop makes progress\<close>

text \<open>An iteration that goes round again has stored at least one byte, or it has taken a
  block from the queue and dropped it, or it has released the block it held. So the
  loop ends, whatever the state it starts in.\<close>

lemma word_advance:
  fixes ro rl n :: u32
  assumes "ro \<le> rl" "n \<le> rl - ro"
  shows "ro \<le> ro + n" "ro + n \<le> rl" "n \<noteq> 0 \<Longrightarrow> ro < ro + n"
  using assms by unat_arith+

lemma word_min_zero:
  fixes a b :: u32
  shows "min a b = 0 \<longleftrightarrow> a = 0 \<or> b = 0"
  by (auto simp: min_def word_le_nat_alt unat_eq_zero)

lemma word_rem_nonzero:
  fixes ro rl :: u32
  shows "ro < rl \<Longrightarrow> rl - ro \<noteq> 0"
  by unat_arith

lemma CopyToReader_progress:
  assumes "CopyToReader src off n s = Inr s'" "readOffset s \<le> rl" "n \<le> rl - readOffset s"
  shows "readOffset s \<le> readOffset s'" "readOffset s' \<le> rl"
        "n \<noteq> 0 \<Longrightarrow> readOffset s < readOffset s'"
        "n = 0 \<Longrightarrow> readOffset s' = readOffset s"
        "qm s' = qm s" "ctx s' = ctx s" "blockNode s' = blockNode s"
        "blockOffset s' = blockOffset s + n"
  using assms word_advance[of "readOffset s" rl n]
  by (auto simp: CopyToReader_def split: option.splits)

lemma CopyHeader_progress_aux:
  assumes "CopyHeader lay rl s = Inr s'" "readOffset s < rl"
  shows "readOffset s \<le> readOffset s' \<and> readOffset s' \<le> rl \<and>
        qm s' = qm s \<and> ctx s' = ctx s \<and> blockNode s' = blockNode s \<and>
        (blockOffset s < HeaderSize lay \<longrightarrow> readOffset s < readOffset s') \<and>
        (\<not> blockOffset s < HeaderSize lay \<longrightarrow> s' = s)"
proof (cases "blockOffset s < HeaderSize lay")
  case True
  let ?n = "min (rl - readOffset s) (HeaderSize lay - blockOffset s)"
  have le: "readOffset s \<le> rl" using assms(2) by simp
  have n: "?n \<le> rl - readOffset s" by simp
  have nz: "?n \<noteq> 0" using assms(2) True by (auto simp: word_min_zero)
  have c: "CopyToReader (ModifiedHeader (ctx s)) (unat (blockOffset s)) ?n s = Inr s'"
    using assms(1) True by (simp add: CopyHeader_def)
  note p = CopyToReader_progress[OF c le n]
  show ?thesis
    using p(1,2,5,6,7) p(3)[OF nz] True by simp
next
  case False
  then have "s' = s" using assms(1) by (simp add: CopyHeader_def)
  then show ?thesis
    using False assms(2) by simp
qed

lemma CopyHeader_progress:
  assumes "CopyHeader lay rl s = Inr s'" "readOffset s < rl"
  shows "readOffset s \<le> readOffset s'" "readOffset s' \<le> rl"
        "qm s' = qm s" "ctx s' = ctx s" "blockNode s' = blockNode s"
        "blockOffset s < HeaderSize lay \<Longrightarrow> readOffset s < readOffset s'"
        "\<not> blockOffset s < HeaderSize lay \<Longrightarrow> s' = s"
  using CopyHeader_progress_aux[OF assms] by simp_all

lemma CopyData_progress_aux:
  assumes "CopyData lay rl b s = Inr s'" "readOffset s \<le> rl"
  shows "readOffset s \<le> readOffset s' \<and> readOffset s' \<le> rl \<and>
        qm s' = qm s \<and> ctx s' = ctx s \<and> blockNode s' = blockNode s \<and>
        (blockOffset s \<ge> HeaderSize lay \<and> blockOffset s < DataEndOffset (ctx s) \<and>
         readOffset s < rl \<longrightarrow> readOffset s < readOffset s') \<and>
        (\<not> (blockOffset s \<ge> HeaderSize lay \<and> blockOffset s < DataEndOffset (ctx s) \<and>
         readOffset s < rl) \<longrightarrow> s' = s)"
proof (cases "blockOffset s \<ge> HeaderSize lay \<and> blockOffset s < DataEndOffset (ctx s) \<and>
         readOffset s < rl")
  case True
  let ?n = "min (rl - readOffset s) (DataEndOffset (ctx s) - blockOffset s)"
  have n: "?n \<le> rl - readOffset s" by simp
  have nz: "?n \<noteq> 0" using True by (auto simp: word_min_zero)
  have c: "CopyToReader (blockData b) (unat (blockOffset s)) ?n s = Inr s'"
    using assms(1) True by (simp add: CopyData_def)
  note p = CopyToReader_progress[OF c assms(2) n]
  show ?thesis
    using p(1,2,5,6,7) p(3)[OF nz] True by simp
next
  case False
  then have "s' = s" using assms(1) by (auto simp: CopyData_def split: if_splits)
  then show ?thesis
    using False assms(2) by simp
qed

lemma CopyData_progress:
  assumes "CopyData lay rl b s = Inr s'" "readOffset s \<le> rl"
  shows "readOffset s \<le> readOffset s'" "readOffset s' \<le> rl"
        "qm s' = qm s" "ctx s' = ctx s" "blockNode s' = blockNode s"
        "blockOffset s \<ge> HeaderSize lay \<and> blockOffset s < DataEndOffset (ctx s) \<and>
         readOffset s < rl \<Longrightarrow> readOffset s < readOffset s'"
        "\<not> (blockOffset s \<ge> HeaderSize lay \<and> blockOffset s < DataEndOffset (ctx s) \<and>
         readOffset s < rl) \<Longrightarrow> s' = s"
  using CopyData_progress_aux[OF assms] by simp_all

lemma CopyPadding_progress:
  assumes "readOffset s \<le> rl"
  shows "readOffset s \<le> readOffset (CopyPadding rl s)" "readOffset (CopyPadding rl s) \<le> rl"
        "qm (CopyPadding rl s) = qm s" "ctx (CopyPadding rl s) = ctx s"
        "blockNode (CopyPadding rl s) = blockNode s"
        "readOffset (CopyPadding rl s) = readOffset s \<Longrightarrow>
           blockOffset s \<ge> DataEndOffset (ctx s) \<Longrightarrow> readOffset s < rl \<Longrightarrow>
           blockOffset (CopyPadding rl s) \<ge> OriginalFooterOffset (ctx s)"
proof -
  let ?n = "min (rl - readOffset s) (ModifiedFooterOffset (ctx s) - blockOffset s)"
  have n: "?n \<le> rl - readOffset s" by simp
  note adv = word_advance[OF assms n]
  show "readOffset s \<le> readOffset (CopyPadding rl s)" "readOffset (CopyPadding rl s) \<le> rl"
        "qm (CopyPadding rl s) = qm s" "ctx (CopyPadding rl s) = ctx s"
        "blockNode (CopyPadding rl s) = blockNode s"
    using adv(1,2) assms by (simp_all add: CopyPadding_def Let_def)
  show "readOffset (CopyPadding rl s) = readOffset s \<Longrightarrow>
           blockOffset s \<ge> DataEndOffset (ctx s) \<Longrightarrow> readOffset s < rl \<Longrightarrow>
           blockOffset (CopyPadding rl s) \<ge> OriginalFooterOffset (ctx s)"
  proof -
    assume a: "readOffset (CopyPadding rl s) = readOffset s" "blockOffset s \<ge> DataEndOffset (ctx s)"
       "readOffset s < rl"
    show ?thesis
    proof (cases "blockOffset s < OriginalFooterOffset (ctx s)")
      case False then show ?thesis by (simp add: CopyPadding_def)
    next
      case True
      have "readOffset s + ?n = readOffset s"
        using a True by (simp add: CopyPadding_def Let_def split: if_splits)
      then have "?n = 0" by simp
      then have "ModifiedFooterOffset (ctx s) = blockOffset s"
        using a(3) by (auto simp: word_min_zero)
      then show ?thesis using a True by (simp add: CopyPadding_def Let_def)
    qed
  qed
qed

lemma CopyFooter_progress_aux:
  assumes "CopyFooter rl bl s = Inr s'" "readOffset s \<le> rl"
  shows "readOffset s \<le> readOffset s' \<and> readOffset s' \<le> rl \<and>
        qm s' = qm s \<and> ctx s' = ctx s \<and> blockNode s' = blockNode s \<and>
        (blockOffset s \<ge> OriginalFooterOffset (ctx s) \<longrightarrow> readOffset s < rl \<longrightarrow>
           readOffset s < readOffset s' \<or> (readOffset s' = readOffset s \<and> blockOffset s' \<ge> bl))"
proof (cases "blockOffset s \<ge> OriginalFooterOffset (ctx s) \<and> readOffset s < rl")
  case True
  let ?n = "min (rl - readOffset s) (bl - blockOffset s)"
  have n: "?n \<le> rl - readOffset s" by simp
  have c: "CopyToReader (ModifiedFooter (ctx s))
          (unat (blockOffset s - OriginalFooterOffset (ctx s))) ?n s = Inr s'"
    using assms(1) True by (simp add: CopyFooter_def)
  note p = CopyToReader_progress[OF c assms(2) n]
  have "readOffset s < readOffset s' \<or> (readOffset s' = readOffset s \<and> blockOffset s' \<ge> bl)"
  proof (cases "?n = 0")
    case z: True
    then have "bl = blockOffset s" using True by (auto simp: word_min_zero)
    then show ?thesis using p(4)[OF z] p(8) z by simp
  next
    case False
    then show ?thesis using p(3) by simp
  qed
  then show ?thesis
    using p(1,2,5,6,7) by simp
next
  case False
  then have "s' = s" using assms(1) by (auto simp: CopyFooter_def split: if_splits)
  then show ?thesis
    using False assms(2) by auto
qed

lemma CopyFooter_progress:
  assumes "CopyFooter rl bl s = Inr s'" "readOffset s \<le> rl"
  shows "readOffset s \<le> readOffset s'" "readOffset s' \<le> rl"
        "qm s' = qm s" "ctx s' = ctx s" "blockNode s' = blockNode s"
        "blockOffset s \<ge> OriginalFooterOffset (ctx s) \<Longrightarrow> readOffset s < rl \<Longrightarrow>
           readOffset s < readOffset s' \<or> (readOffset s' = readOffset s \<and> blockOffset s' \<ge> bl)"
  using CopyFooter_progress_aux[OF assms] by simp_all

lemma ReleaseIfDone_simps:
  "readOffset (ReleaseIfDone b s) = readOffset s"
  "Queue (qm (ReleaseIfDone b s)) = Queue (qm s)"
  "ctx (ReleaseIfDone b s) = ctx s"
  "readBuffer (ReleaseIfDone b s) = readBuffer s"
  "blockOffset s \<ge> BlockLength b \<Longrightarrow> blockNode (ReleaseIfDone b s) = None"
  by (auto simp: ReleaseIfDone_def QmCleanupBlock_def)

lemma CopyBlock_progress:
  assumes "CopyBlock lay rl b s = Inr s'" "readOffset s < rl"
  shows "readOffset s' \<le> rl" "Queue (qm s') = Queue (qm s)"
        "readOffset s < readOffset s' \<or> (readOffset s' = readOffset s \<and> blockNode s' = None)"
proof -
  obtain t where t: "rd32 (ModifiedHeader (ctx s)) (HdrBlockType lay) = Some t"
    using assms(1) by (auto simp: CopyBlock_def split: option.splits)
  have le: "readOffset s \<le> rl" using assms(2) by simp
  show "readOffset s' \<le> rl" "Queue (qm s') = Queue (qm s)"
        "readOffset s < readOffset s' \<or> (readOffset s' = readOffset s \<and> blockNode s' = None)"
  proof (atomize(full), cases "t = 0")
    case True
    let ?n = "min (rl - readOffset s) (BlockLength b - blockOffset s)"
    have n: "?n \<le> rl - readOffset s" by simp
    obtain s1 where s1: "CopyToReader (blockData b) (unat (blockOffset s)) ?n s = Inr s1"
        "s' = ReleaseIfDone b s1"
      using assms(1) t True by (auto simp: CopyBlock_def split: sum.splits)
    note p = CopyToReader_progress[OF s1(1) le n]
    have z: "?n = 0 \<Longrightarrow> BlockLength b = blockOffset s"
      using assms(2) by (auto simp: word_min_zero)
    show "readOffset s' \<le> rl \<and> Queue (qm s') = Queue (qm s) \<and>
        (readOffset s < readOffset s' \<or> (readOffset s' = readOffset s \<and> blockNode s' = None))"
    proof (cases "?n = 0")
      case zz: True
      have "blockOffset s1 \<ge> BlockLength b" using z[OF zz] p(8) zz by simp
      then show ?thesis using p(2,5) p(4)[OF zz] s1(2) by (simp add: ReleaseIfDone_simps)
    next
      case nz: False
      show ?thesis using p(2,5) p(3)[OF nz] s1(2) by (simp add: ReleaseIfDone_simps)
    qed
  next
    case False
    obtain s1 s2 s4 where
      s1: "CopyHeader lay rl s = Inr s1" and
      s2: "CopyData lay rl b s1 = Inr s2" and
      s4: "CopyFooter rl (BlockLength b) (CopyPadding rl s2) = Inr s4" and
      s': "s' = ReleaseIfDone b s4"
      using assms(1) t False by (auto simp: CopyBlock_def split: sum.splits)
    note p1 = CopyHeader_progress[OF s1 assms(2)]
    note p2 = CopyData_progress[OF s2 p1(2)]
    note p3 = CopyPadding_progress[OF p2(2)]
    note p4 = CopyFooter_progress[OF s4 p3(2)]
    have A: "readOffset s' \<le> rl" "Queue (qm s') = Queue (qm s)"
      using p1 p2 p3 p4 s' by (simp_all add: ReleaseIfDone_simps)
    have B: "readOffset s < readOffset s' \<or> (readOffset s' = readOffset s \<and> blockNode s' = None)"
    proof (cases "readOffset s < readOffset s4")
      case True then show ?thesis using s' by (simp add: ReleaseIfDone_simps)
    next
      case F: False
      then have e4: "readOffset s4 = readOffset s"
        using p1(1) p2(1) p3(1) p4(1) by simp
      have e3: "readOffset (CopyPadding rl s2) = readOffset s" 
        using p1(1) p2(1) p3(1) p4(1) e4 by simp
      have e2: "readOffset s2 = readOffset s" using p1(1) p2(1) p3(1) e3 by simp
      have e1: "readOffset s1 = readOffset s" using p1(1) p2(1) e2 by simp
      have h: "\<not> blockOffset s < HeaderSize lay"
      proof
        assume "blockOffset s < HeaderSize lay"
        from p1(6)[OF this] e1 show False by simp
      qed
      then have s1s: "s1 = s" using p1(7) by simp
      have h': "HeaderSize lay \<le> blockOffset s" using h by (simp add: not_less)
      have d: "\<not> blockOffset s < DataEndOffset (ctx s)"
      proof
        assume "blockOffset s < DataEndOffset (ctx s)"
        with h' assms(2) s1s have "readOffset s1 < readOffset s2" using p2(6) by simp
        with e2 e1 show False by simp
      qed
      then have s2s: "s2 = s" using p2(7) s1s by simp
      have d': "DataEndOffset (ctx s) \<le> blockOffset s" using d by (simp add: not_less)
      have f3: "blockOffset (CopyPadding rl s) \<ge> OriginalFooterOffset (ctx s)"
        using p3(6) e3 s2s d' assms(2) by simp
      have r3: "readOffset (CopyPadding rl s) < rl" using e3 s2s assms(2) by simp
      have c3: "ctx (CopyPadding rl s) = ctx s" using p3(4) s2s by simp
      have "readOffset (CopyPadding rl s) < readOffset s4 \<or>
         (readOffset s4 = readOffset (CopyPadding rl s) \<and> blockOffset s4 \<ge> BlockLength b)"
        using p4(6) f3 r3 c3 s2s by simp
      then have "readOffset s4 = readOffset s \<and> blockOffset s4 \<ge> BlockLength b"
        using e3 e4 s2s by auto
      then show ?thesis using s' by (simp add: ReleaseIfDone_simps)
    qed
    show "readOffset s' \<le> rl \<and> Queue (qm s') = Queue (qm s) \<and>
        (readOffset s < readOffset s' \<or> (readOffset s' = readOffset s \<and> blockNode s' = None))"
      using A B by simp
  qed
qed


lemma AcquireBlock_Continue:
  assumes "AcquireBlock lay s = Inr (AcqContinue s')"
  shows "readOffset s' = readOffset s" "blockNode s' = None"
        "Suc (length (Queue (qm s'))) = length (Queue (qm s))"
  using assms
  by (auto simp: AcquireBlock_def QmDequeueBlock_def QmCleanupBlock_def Let_def
           split: if_splits list.splits sum.splits)

lemma AcquireBlock_Block:
  assumes "AcquireBlock lay s = Inr (AcqBlock s' b)"
  shows "readOffset s' = readOffset s"
        "Suc (length (Queue (qm s'))) = length (Queue (qm s))"
  using assms
  by (auto simp: AcquireBlock_def QmDequeueBlock_def QmCleanupBlock_def Let_def
           split: if_splits list.splits sum.splits)

lemma ReadBody_decreases:
  assumes "ReadBody lay rl s = Inr (Continue s')" "readOffset s < rl"
  shows "unat rl - unat (readOffset s') < unat rl - unat (readOffset s) \<or>
         (unat rl - unat (readOffset s') = unat rl - unat (readOffset s) \<and>
          length (Queue (qm s')) + held s' < length (Queue (qm s)) + held s)"
proof (cases "blockNode s")
  case (Some b)
  then have c: "CopyBlock lay rl b s = Inr s'"
    using assms(1) by (auto simp: ReadBody_def split: sum.splits)
  note p = CopyBlock_progress[OF c assms(2)]
  from p(3) show ?thesis
  proof
    assume "readOffset s < readOffset s'"
    then have "unat (readOffset s) < unat (readOffset s')" "unat (readOffset s') \<le> unat rl"
      using p(1) by (simp_all add: word_less_nat_alt word_le_nat_alt)
    then show ?thesis by arith
  next
    assume "readOffset s' = readOffset s \<and> blockNode s' = None"
    then show ?thesis using p(2) Some by (simp add: held_def)
  qed
next
  case None
  then consider
      (cont) "AcquireBlock lay s = Inr (AcqContinue s')"
    | (blk) s1 b where "AcquireBlock lay s = Inr (AcqBlock s1 b)" "CopyBlock lay rl b s1 = Inr s'"
    using assms(1) by (auto simp: ReadBody_def split: sum.splits ACQUIRED.splits)
  then show ?thesis
  proof cases
    case cont
    from AcquireBlock_Continue[OF cont] show ?thesis by (simp add: held_def None)
  next
    case blk
    note a = AcquireBlock_Block[OF blk(1)]
    have r: "readOffset s1 < rl" using a(1) assms(2) by simp
    note p = CopyBlock_progress[OF blk(2) r]
    from p(3) show ?thesis
    proof
      assume "readOffset s1 < readOffset s'"
      then have "unat (readOffset s) < unat (readOffset s')" "unat (readOffset s') \<le> unat rl"
        using p(1) a(1) by (simp_all add: word_less_nat_alt word_le_nat_alt)
      then show ?thesis by arith
    next
      assume "readOffset s' = readOffset s1 \<and> blockNode s' = None"
      then show ?thesis using p(2) a by (simp add: held_def None)
    qed
  qed
qed

text \<open>\<^verbatim>\<open>while (readOffset < readLength) { ... }\<close>\<close>

function ReadLoop :: "LAYOUT \<Rightarrow> u32 \<Rightarrow> READ_STATE \<Rightarrow> FAULT + READ_STATE" where
  "ReadLoop lay readLength s =
     (if readOffset s < readLength then
        (case ReadBody lay readLength s of
           Inl f \<Rightarrow> Inl f
         | Inr (Break s') \<Rightarrow> Inr s'
         | Inr (Continue s') \<Rightarrow> ReadLoop lay readLength s')
      else Inr s)"
  by pat_completeness auto
termination
proof (relation "measures [\<lambda>(lay, rl, s). unat rl - unat (readOffset s),
                           \<lambda>(lay, rl, s). length (Queue (qm s)) + held s]")
  show "wf (measures [\<lambda>(lay, rl, s). unat rl - unat (readOffset s),
                           \<lambda>(lay, rl, s). length (Queue (qm s)) + held s])"
    by simp
next
  fix lay readLength s x2 s'
  assume "readOffset s < readLength" "ReadBody lay readLength s = Inr x2" "x2 = Continue s'"
  then show "((lay, readLength, s'), (lay, readLength, s))
       \<in> measures [\<lambda>(lay, rl, s). unat rl - unat (readOffset s),
                           \<lambda>(lay, rl, s). length (Queue (qm s)) + held s]"
    using ReadBody_decreases[of lay readLength s s'] by auto
qed

text \<open>The \<^verbatim>\<open>switch (context->RestartState)\<close> at the head of \<^verbatim>\<open>DispatchRead\<close>.\<close>

datatype CHECKED =
    ReturnEof READER_CONTEXT          \<comment> \<open>complete the request with zero bytes\<close>
  | GoOn READER_CONTEXT QM            \<comment> \<open>go on to the loop\<close>

definition RestartCheck :: "ENV \<Rightarrow> READER_CONTEXT \<Rightarrow> QM \<Rightarrow> CHECKED" where
  "RestartCheck env c q =
     (case RestartState c of
        RestartStateSendEof \<Rightarrow> ReturnEof (c\<lparr>RestartState := RestartStateInit\<rparr>)
      | RestartStateInit \<Rightarrow>
          GoOn (c\<lparr>RestartState := RestartStateNormal\<rparr>) (QmGetInitialBlocks env False q)
      | RestartStateNormal \<Rightarrow> GoOn c q)"

record READ_IRP =
  ReadFsContext2 :: "READER_CONTEXT option"
  ReadSystemBufferNull :: bool      \<comment> \<open>\<^verbatim>\<open>irp->AssociatedIrp.SystemBuffer == NULL\<close>\<close>
  ReadLength :: u32

text \<open>What a completed read leaves behind: status and byte count, the bytes stored in
  the buffer, the context and the queue manager.\<close>

record READ_DONE =
  ReadStatus :: NTSTATUS
  ReadInformation :: u32
  ReadBytes :: "u8 list"
  ReadContextAfter :: "READER_CONTEXT option"
  ReadQmAfter :: QM

definition CompleteRead ::
  "NTSTATUS \<Rightarrow> u32 \<Rightarrow> u8 list \<Rightarrow> READER_CONTEXT option \<Rightarrow> QM \<Rightarrow> READ_DONE" where
  "CompleteRead status information bytes c q =
     \<lparr>ReadStatus = status, ReadInformation = information, ReadBytes = bytes,
      ReadContextAfter = c, ReadQmAfter = q\<rparr>"

text \<open>The locals at the first test of the loop condition (lines 302 to 304).\<close>

definition EnterLoop :: "READER_CONTEXT \<Rightarrow> QM \<Rightarrow> READ_STATE" where
  "EnterLoop c q =
     \<lparr>blockNode = CurrentBlock c, blockOffset = CurrentBlockOffset c, readOffset = 0,
      readBuffer = [], ctx = c, qm = q\<rparr>"

text \<open>Lines 458 to 460.\<close>

definition LeaveLoop :: "READ_STATE \<Rightarrow> READ_DONE" where
  "LeaveLoop s =
     CompleteRead STATUS_SUCCESS (readOffset s) (readBuffer s)
       (Some ((ctx s)\<lparr>CurrentBlock := blockNode s, CurrentBlockOffset := blockOffset s\<rparr>))
       (qm s)"

definition DispatchRead :: "ENV \<Rightarrow> QM \<Rightarrow> READ_IRP \<Rightarrow> FAULT + READ_DONE" where
  "DispatchRead env q irp =
     (if ReadSystemBufferNull irp then
        Inr (CompleteRead STATUS_INVALID_PARAMETER 0 [] (ReadFsContext2 irp) q)
      else
        (case ReadFsContext2 irp of
           None \<Rightarrow> Inr (CompleteRead STATUS_INVALID_PARAMETER 0 [] None q)
         | Some c \<Rightarrow>
            (case RestartCheck env c q of
               ReturnEof c' \<Rightarrow> Inr (CompleteRead STATUS_SUCCESS 0 [] (Some c') q)
             | GoOn c' q' \<Rightarrow>
                (case ReadLoop (Layout env) (ReadLength irp) (EnterLoop c' q') of
                   Inl f \<Rightarrow> Inl f
                 | Inr s \<Rightarrow> Inr (LeaveLoop s)))))"

subsection \<open>Vocabulary for the statements about control requests\<close>

text \<open>The control codes the \<^verbatim>\<open>switch\<close> has a case for; the lengths the table requires
  for a code (through its function field and its width bit); and the two length checks
  of lines 186 and 189.\<close>

definition known_code :: "IOCTL_CODES \<Rightarrow> u32 \<Rightarrow> bool" where
  "known_code c code =
     (code \<in> set [IOCTL_KPH_FILTER_CONNECTIONS c, IOCTL_KPH_FILTER_PROCESSES c,
                   IOCTL_KPH_MARK_RESTART c, IOCTL_KPH_SET_SNAP_LENGTH c,
                   IOCTL_KPH_GET_SNAP_LENGTH c, IOCTL_KPH_SET_DATA_EVENT_32 c,
                   IOCTL_KPH_SET_DATA_EVENT_64 c, IOCTL_KPH_SET_OPEN_CONNECTIONS c,
                   IOCTL_KPH_GET_STATISTICS c])"

definition RequiredInput :: "ENV \<Rightarrow> u32 \<Rightarrow> u32" where
  "RequiredInput env code =
     (let p = gIoctlParams env ! unat (ioctl_function code)
      in if ioctl_is64Bit code then InputLength64 p else InputLength p)"

definition RequiredOutput :: "ENV \<Rightarrow> u32 \<Rightarrow> u32" where
  "RequiredOutput env code =
     (let p = gIoctlParams env ! unat (ioctl_function code)
      in if ioctl_is64Bit code then OutputLength64 p else OutputLength p)"

definition codes_ok :: "IOCTL_CODES \<Rightarrow> bool" where
  "codes_ok c =
     (distinct [IOCTL_KPH_MARK_RESTART c, IOCTL_KPH_FILTER_CONNECTIONS c,
                IOCTL_KPH_FILTER_PROCESSES c, IOCTL_KPH_SET_SNAP_LENGTH c,
                IOCTL_KPH_GET_SNAP_LENGTH c, IOCTL_KPH_SET_DATA_EVENT_32 c,
                IOCTL_KPH_SET_DATA_EVENT_64 c, IOCTL_KPH_SET_OPEN_CONNECTIONS c,
                IOCTL_KPH_GET_STATISTICS c] \<and>
      map ioctl_function
               [IOCTL_KPH_MARK_RESTART c, IOCTL_KPH_FILTER_CONNECTIONS c,
                IOCTL_KPH_FILTER_PROCESSES c, IOCTL_KPH_SET_SNAP_LENGTH c,
                IOCTL_KPH_GET_SNAP_LENGTH c, IOCTL_KPH_SET_DATA_EVENT_32 c,
                IOCTL_KPH_SET_DATA_EVENT_64 c, IOCTL_KPH_SET_OPEN_CONNECTIONS c,
                IOCTL_KPH_GET_STATISTICS c] = [0, 1, 2, 3, 4, 5, 5, 6, 7])"

definition too_short :: "ENV \<Rightarrow> IOCTL_IRP \<Rightarrow> bool" where
  "too_short env irp =
     (InputBufferLength irp < RequiredInput env (IoControlCode irp) \<or>
      OutputBufferLength irp < RequiredOutput env (IoControlCode irp))"

definition buffer_missing :: "ENV \<Rightarrow> IOCTL_IRP \<Rightarrow> bool" where
  "buffer_missing env irp =
     ((RequiredInput env (IoControlCode irp) \<noteq> 0 \<or>
       RequiredOutput env (IoControlCode irp) \<noteq> 0) \<and> SystemBuffer irp = None)"

subsection \<open>Vocabulary for the statements about reads\<close>

text \<open>What the declarations outside the source give for granted: the fields the code
  names lie inside their structs, and the three header fields do not overlap.\<close>

definition layout_ok :: "LAYOUT \<Rightarrow> bool" where
  "layout_ok lay =
     (HdrBlockType lay + 4 \<le> unat (HeaderSize lay) \<and>
      HdrBlockLength lay + 4 \<le> unat (HeaderSize lay) \<and>
      HdrCapturedLength lay + 4 \<le> unat (HeaderSize lay) \<and>
      FtrBlockLength lay + 4 \<le> unat (FooterSize lay) \<and>
      (HdrBlockType lay + 4 \<le> HdrBlockLength lay \<or> HdrBlockLength lay + 4 \<le> HdrBlockType lay) \<and>
      (HdrBlockType lay + 4 \<le> HdrCapturedLength lay \<or>
       HdrCapturedLength lay + 4 \<le> HdrBlockType lay) \<and>
      (HdrBlockLength lay + 4 \<le> HdrCapturedLength lay \<or>
       HdrCapturedLength lay + 4 \<le> HdrBlockLength lay))"

text \<open>\<^verbatim>\<open>context->ModifiedHeader.BlockType\<close> is not zero: the block held is served through
  the fixed-up header and footer.\<close>

definition trimming :: "LAYOUT \<Rightarrow> READER_CONTEXT \<Rightarrow> bool" where
  "trimming lay c =
     (case rd32 (ModifiedHeader c) (HdrBlockType lay) of None \<Rightarrow> False | Some t \<Rightarrow> t \<noteq> 0)"

text \<open>The bytes the reader is given for the block it holds, from the offsets and the
  scratch copies stored in the context; and the place in them of a block cursor (the
  cursor jumps from \<^verbatim>\<open>ModifiedFooterOffset\<close> to \<^verbatim>\<open>OriginalFooterOffset\<close>).\<close>

definition view :: "LAYOUT \<Rightarrow> READER_CONTEXT \<Rightarrow> BLOCK_NODE \<Rightarrow> u8 list" where
  "view lay c b =
     (if trimming lay c then
        ModifiedHeader c @
        take (unat (DataEndOffset c) - unat (HeaderSize lay))
             (drop (unat (HeaderSize lay)) (blockData b)) @
        replicate (unat (ModifiedFooterOffset c) - unat (DataEndOffset c)) 0 @
        ModifiedFooter c
      else blockData b)"

definition view_pos :: "LAYOUT \<Rightarrow> READER_CONTEXT \<Rightarrow> u32 \<Rightarrow> nat" where
  "view_pos lay c off =
     (if trimming lay c \<and> unat (ModifiedFooterOffset c) < unat off
      then unat (ModifiedFooterOffset c) + (unat off - unat (OriginalFooterOffset c))
      else unat off)"

definition rest_of_block :: "LAYOUT \<Rightarrow> READER_CONTEXT \<Rightarrow> BLOCK_NODE option \<Rightarrow> u32 \<Rightarrow> u8 list" where
  "rest_of_block lay c held_block off =
     (case held_block of
        None \<Rightarrow> []
      | Some b \<Rightarrow> drop (view_pos lay c off) (view lay c b))"

text \<open>The reader's logical stream, in the words of the specification (4.3, 4.4): a packet
  block is suppressed when its process id is in the process filter or its connection
  id is in the connection filter; a packet block whose captured length exceeds a
  nonzero snap length is delivered as the header with the captured length replaced by
  the snap length, the first snap-length bytes of the payload, the padding as zeros, and
  the footer, with the new total length in the header and in the footer; every other
  block is delivered as it is.\<close>

definition listed :: "u32 list option \<Rightarrow> u32 \<Rightarrow> bool" where
  "listed ids v =
     (case ids of None \<Rightarrow> False | Some a \<Rightarrow> v \<in> set (take (unat (hd a)) (tl a)))"

definition suppressed :: "READER_CONTEXT \<Rightarrow> BLOCK_NODE \<Rightarrow> bool" where
  "suppressed c b =
     (BlockType b = PacketBlock \<and>
      (listed (FilteredProcessIds c) (ProcessId b) \<or>
       listed (FilteredConnectionIds c) (ConnectionId b)))"

definition truncated :: "LAYOUT \<Rightarrow> READER_CONTEXT \<Rightarrow> BLOCK_NODE \<Rightarrow> bool" where
  "truncated lay c b =
     (BlockType b = PacketBlock \<and> SnapLength c \<noteq> 0 \<and>
      (case rd32 (blockData b) (HdrCapturedLength lay) of
         None \<Rightarrow> False
       | Some capturedLength \<Rightarrow> capturedLength > SnapLength c))"

definition truncated_length :: "LAYOUT \<Rightarrow> READER_CONTEXT \<Rightarrow> nat" where
  "truncated_length lay c =
     unat (HeaderSize lay) + unat (SnapLength c) + unat (SnapLengthPad c) + unat (FooterSize lay)"

definition delivered :: "LAYOUT \<Rightarrow> READER_CONTEXT \<Rightarrow> BLOCK_NODE \<Rightarrow> u8 list" where
  "delivered lay c b =
     (if truncated lay c b then
        wr32 (wr32 (take (unat (HeaderSize lay)) (blockData b))
                (HdrBlockLength lay) (of_nat (truncated_length lay c)))
             (HdrCapturedLength lay) (SnapLength c) @
        take (unat (SnapLength c)) (drop (unat (HeaderSize lay)) (blockData b)) @
        replicate (unat (SnapLengthPad c)) 0 @
        wr32 (take (unat (FooterSize lay))
                (drop (unat (BlockLength b) - unat (FooterSize lay)) (blockData b)))
             (FtrBlockLength lay) (of_nat (truncated_length lay c))
      else blockData b)"

definition stream :: "LAYOUT \<Rightarrow> READER_CONTEXT \<Rightarrow> BLOCK_NODE list \<Rightarrow> u8 list" where
  "stream lay c blocks =
     concat (map (delivered lay c) (filter (\<lambda>b. \<not> suppressed c b) blocks))"

text \<open>What the queue manager and \<^verbatim>\<open>SetIdList\<close> guarantee. A filter array holds its count
  and that many ids. A block's buffer holds \<^verbatim>\<open>BlockLength\<close> bytes; a packet block begins
  with a header that carries a nonzero block type and the block's length, ends with a
  footer, and is not shorter than what is delivered of it when it is truncated.\<close>

definition filter_ok :: "u32 list option \<Rightarrow> bool" where
  "filter_ok ids =
     (case ids of None \<Rightarrow> True | Some a \<Rightarrow> a \<noteq> [] \<and> length a = Suc (unat (hd a)))"

definition block_ok :: "LAYOUT \<Rightarrow> READER_CONTEXT \<Rightarrow> BLOCK_NODE \<Rightarrow> bool" where
  "block_ok lay c b =
     (length (blockData b) = unat (BlockLength b) \<and>
      (if BlockType b = PacketBlock then
         unat (HeaderSize lay) + unat (FooterSize lay) \<le> unat (BlockLength b) \<and>
         rd32 (blockData b) (HdrBlockLength lay) = Some (BlockLength b) \<and>
         rd32 (blockData b) (HdrBlockType lay) \<noteq> Some 0 \<and>
         (if truncated lay c b then truncated_length lay c \<le> unat (BlockLength b) else True)
       else True))"

text \<open>What holds of the block held at the head of the loop and between two reads: the
  cursor is inside it, and while it is served trimmed the stored offsets are in order
  and the cursor is not in the skipped part.\<close>

definition held_ok :: "LAYOUT \<Rightarrow> READER_CONTEXT \<Rightarrow> BLOCK_NODE \<Rightarrow> u32 \<Rightarrow> bool" where
  "held_ok lay c b off =
     (length (blockData b) = unat (BlockLength b) \<and>
      unat off \<le> unat (BlockLength b) \<and>
      (if trimming lay c then
         length (ModifiedFooter c) = unat (FooterSize lay) \<and>
         unat (HeaderSize lay) \<le> unat (DataEndOffset c) \<and>
         unat (DataEndOffset c) \<le> unat (ModifiedFooterOffset c) \<and>
         unat (ModifiedFooterOffset c) \<le> unat (OriginalFooterOffset c) \<and>
         unat (OriginalFooterOffset c) + unat (FooterSize lay) = unat (BlockLength b) \<and>
         (unat off \<le> unat (ModifiedFooterOffset c) \<or> unat (OriginalFooterOffset c) \<le> unat off)
       else True))"

definition config_ok :: "LAYOUT \<Rightarrow> READER_CONTEXT \<Rightarrow> bool" where
  "config_ok lay c =
     (length (ModifiedHeader c) = unat (HeaderSize lay) \<and>
      filter_ok (FilteredProcessIds c) \<and> filter_ok (FilteredConnectionIds c))"

definition context_ok :: "LAYOUT \<Rightarrow> READER_CONTEXT \<Rightarrow> bool" where
  "context_ok lay c =
     (config_ok lay c \<and>
      (case CurrentBlock c of
         None \<Rightarrow> True
       | Some b \<Rightarrow> held_ok lay c b (CurrentBlockOffset c) \<and>
                   unat (CurrentBlockOffset c) < unat (BlockLength b)))"

definition queue_ok :: "LAYOUT \<Rightarrow> READER_CONTEXT \<Rightarrow> BLOCK_NODE list \<Rightarrow> bool" where
  "queue_ok lay c blocks = list_all (block_ok lay c) blocks"

text \<open>In the course of the copy from one block: the state \<open>s\<close> has come from \<open>s0\<close> by
  storing the bytes of \<open>V\<close> from place \<open>p0\<close> up to place \<open>p\<close>.\<close>

definition mid :: "u8 list \<Rightarrow> nat \<Rightarrow> READ_STATE \<Rightarrow> READ_STATE \<Rightarrow> nat \<Rightarrow> bool" where
  "mid V p0 s0 s p =
     (ctx s = ctx s0 \<and> qm s = qm s0 \<and> blockNode s = blockNode s0 \<and> p0 \<le> p \<and>
      readBuffer s = readBuffer s0 @ take (p - p0) (drop p0 V) \<and>
      unat (readOffset s) = unat (readOffset s0) + (p - p0))"

text \<open>Two contexts that differ at most in the scratch copies and the three stored
  offsets: the snap length, the filters, the restart fields and the saved cursor are the
  same.\<close>

definition same_config :: "READER_CONTEXT \<Rightarrow> READER_CONTEXT \<Rightarrow> bool" where
  "same_config c c' =
     (c' = c\<lparr>ModifiedHeader := ModifiedHeader c', ModifiedFooter := ModifiedFooter c',
             DataEndOffset := DataEndOffset c', ModifiedFooterOffset := ModifiedFooterOffset c',
             OriginalFooterOffset := OriginalFooterOffset c'\<rparr>)"

text \<open>The blocks the loop holds, as a list; what is still to be delivered from a loop
  state: the rest of the block held, then the stream of the blocks queued; the invariant
  of the loop; and what it means that \<open>s'\<close> has come from \<open>s\<close> by delivering the next \<open>k\<close>
  bytes: no block is lost, duplicated, reordered or changed on its way from the queue
  through the loop to \<^verbatim>\<open>QmCleanupBlock\<close>.\<close>

definition holding :: "READ_STATE \<Rightarrow> BLOCK_NODE list" where
  "holding s = (case blockNode s of None \<Rightarrow> [] | Some b \<Rightarrow> [b])"

definition pending :: "LAYOUT \<Rightarrow> READ_STATE \<Rightarrow> u8 list" where
  "pending lay s =
     rest_of_block lay (ctx s) (blockNode s) (blockOffset s) @ stream lay (ctx s) (Queue (qm s))"

definition loop_ok :: "LAYOUT \<Rightarrow> u32 \<Rightarrow> READ_STATE \<Rightarrow> bool" where
  "loop_ok lay rl s =
     (config_ok lay (ctx s) \<and> queue_ok lay (ctx s) (Queue (qm s)) \<and> readOffset s \<le> rl \<and>
      (case blockNode s of
         None \<Rightarrow> True
       | Some b \<Rightarrow> held_ok lay (ctx s) b (blockOffset s) \<and>
                   unat (blockOffset s) < unat (BlockLength b)))"

definition advanced :: "LAYOUT \<Rightarrow> READ_STATE \<Rightarrow> READ_STATE \<Rightarrow> nat \<Rightarrow> bool" where
  "advanced lay s s' k =
     (same_config (ctx s) (ctx s') \<and>
      readBuffer s' = readBuffer s @ take k (pending lay s) \<and>
      unat (readOffset s') = unat (readOffset s) + k \<and>
      k \<le> length (pending lay s) \<and>
      pending lay s' = drop k (pending lay s) \<and>
      Calls (qm s') = Calls (qm s) \<and>
      Released (qm s') @ holding s' @ Queue (qm s') = Released (qm s) @ holding s @ Queue (qm s))"

text \<open>What a run of the loop leaves alone, whatever state it starts in: the calls made to
  the queue manager, and the blocks, which keep their order and their contents between
  the queue, the loop and \<^verbatim>\<open>QmCleanupBlock\<close>. And the one way the loop changes the restart
  fields: at a block boundary with the request flag set, it clears the flag and sets
  the state by \<^verbatim>\<open>readOffset\<close>.\<close>

definition restart_taken :: "READ_STATE \<Rightarrow> READ_STATE \<Rightarrow> bool" where
  "restart_taken s s' =
     (RestartRequested (ctx s) = 1 \<and> blockNode s' = None \<and>
      ctx s' = (ctx s)\<lparr>RestartRequested := 0,
                         RestartState := (if readOffset s' \<noteq> 0 then RestartStateSendEof
                                          else RestartStateInit)\<rparr>)"

definition framed :: "READ_STATE \<Rightarrow> READ_STATE \<Rightarrow> bool" where
  "framed s s' =
     (Calls (qm s') = Calls (qm s) \<and>
      Released (qm s') @ holding s' @ Queue (qm s') = Released (qm s) @ holding s @ Queue (qm s))"

definition restart_outcome :: "READER_CONTEXT \<Rightarrow> READ_STATE \<Rightarrow> bool" where
  "restart_outcome c s' =
     (RestartRequested c = 1 \<and> blockNode s' = None \<and>
      same_config (c\<lparr>RestartRequested := 0,
                      RestartState := (if readOffset s' \<noteq> 0 then RestartStateSendEof
                                       else RestartStateInit)\<rparr>) (ctx s'))"

text \<open>The queue manager at the head of the loop: a read entered in the state
  \<^verbatim>\<open>RestartStateInit\<close> has called \<^verbatim>\<open>QmGetInitialBlocks\<close> first. What a reader has still to
  deliver between two reads: the rest of the block the context holds, then the stream of
  the blocks queued.\<close>

definition entry_qm :: "ENV \<Rightarrow> READER_CONTEXT \<Rightarrow> QM \<Rightarrow> QM" where
  "entry_qm env c q =
     (if RestartState c = RestartStateInit then QmGetInitialBlocks env False q else q)"

definition available :: "LAYOUT \<Rightarrow> READER_CONTEXT \<Rightarrow> QM \<Rightarrow> u8 list" where
  "available lay c q =
     rest_of_block lay c (CurrentBlock c) (CurrentBlockOffset c) @ stream lay c (Queue q)"

text \<open>A sequence of read calls on one handle, each with a buffer and its own length: the
  context and the queue manager one call leaves are those the next one finds. The result
  is the list of the bytes each call returned.\<close>

fun ReadAll ::
  "ENV \<Rightarrow> READER_CONTEXT \<Rightarrow> QM \<Rightarrow> u32 list \<Rightarrow> FAULT + (u8 list list \<times> READER_CONTEXT \<times> QM)" where
  "ReadAll env c q [] = Inr ([], c, q)"
| "ReadAll env c q (l # ls) =
     (case DispatchRead env q
             \<lparr>ReadFsContext2 = Some c, ReadSystemBufferNull = False, ReadLength = l\<rparr> of
        Inl f \<Rightarrow> Inl f
      | Inr d \<Rightarrow>
         (case ReadContextAfter d of
            None \<Rightarrow> Inl NullDereference
          | Some c' \<Rightarrow>
             (case ReadAll env c' (ReadQmAfter d) ls of
                Inl f \<Rightarrow> Inl f
              | Inr (outs, c'', q'') \<Rightarrow> Inr (ReadBytes d # outs, c'', q''))))"

text \<open>A byte sequence cut into pieces of the given lengths, each piece shorter only where
  the sequence ends.\<close>

fun chunks :: "nat list \<Rightarrow> 'a list \<Rightarrow> 'a list list" where
  "chunks [] bs = []"
| "chunks (n # ns) bs = take n bs # chunks ns (drop n bs)"

text \<open>The block a context holds between two reads, as a list.\<close>

definition held_blocks :: "READER_CONTEXT \<Rightarrow> BLOCK_NODE list" where
  "held_blocks c = (case CurrentBlock c of None \<Rightarrow> [] | Some b \<Rightarrow> [b])"

text \<open>The bytes one read call can be given: none when the call is the end-of-stream read
  (the state is \<^verbatim>\<open>RestartStateSendEof\<close>); the rest of the block held when a restart is
  requested, for the loop stops at the next block boundary; else all that is available.\<close>

definition serving :: "ENV \<Rightarrow> READER_CONTEXT \<Rightarrow> QM \<Rightarrow> u8 list" where
  "serving env c q =
     (if RestartState c = RestartStateSendEof then []
      else if RestartRequested c = 1
      then rest_of_block (Layout env) c (CurrentBlock c) (CurrentBlockOffset c)
      else available (Layout env) c (entry_qm env c q))"

subsection \<open>A concrete instance\<close>

text \<open>The instance used to run the model: the layout of the PCAP-NG enhanced packet block
  (a 28-byte header with the block type at offset 0, the block length at 4 and the
  captured length at 20; a 4-byte footer holding the block length), padding to a
  multiple of four bytes, and control codes whose function field is the position of
  the request in \<^verbatim>\<open>gIoctlParams\<close>, as the comment above the table requires, built as
  \<^verbatim>\<open>CTL_CODE(FILE_DEVICE_UNKNOWN, function, METHOD_BUFFERED, FILE_ANY_ACCESS)\<close>.\<close>

definition example_layout :: LAYOUT where
  "example_layout =
     \<lparr>HeaderSize = 28, HdrBlockType = 0, HdrBlockLength = 4, HdrCapturedLength = 20,
      FooterSize = 4, FtrBlockLength = 0\<rparr>"

definition example_codes :: IOCTL_CODES where
  "example_codes =
     \<lparr>IOCTL_KPH_MARK_RESTART = 0x00220000,
      IOCTL_KPH_FILTER_CONNECTIONS = 0x00220004,
      IOCTL_KPH_FILTER_PROCESSES = 0x00220008,
      IOCTL_KPH_SET_SNAP_LENGTH = 0x0022000C,
      IOCTL_KPH_GET_SNAP_LENGTH = 0x00220010,
      IOCTL_KPH_SET_DATA_EVENT_32 = 0x00220014,
      IOCTL_KPH_SET_DATA_EVENT_64 = 0x00221014,
      IOCTL_KPH_SET_OPEN_CONNECTIONS = 0x00220018,
      IOCTL_KPH_GET_STATISTICS = 0x0022001C\<rparr>"

definition example_env :: ENV where
  "example_env =
     \<lparr>Layout = example_layout, Codes = example_codes,
      PCAP_NG_PADDING = (\<lambda>x. (x + 3) AND NOT 3),
      SizeofStatistics = 8, X86 = False, PoolAllocates = True,
      InitialBlocks = (\<lambda>blocks. blocks),
      DataEventStatus = (\<lambda>h. STATUS_SUCCESS),
      StatisticsBytes = replicate 8 0\<rparr>"

text \<open>The context as \<^verbatim>\<open>DispatchCreate\<close> leaves it after \<^verbatim>\<open>RtlZeroMemory\<close>.\<close>

definition ZeroContext :: "LAYOUT \<Rightarrow> READER_CONTEXT" where
  "ZeroContext lay =
     \<lparr>SnapLength = 0, SnapLengthPad = 0, RestartState = RestartStateInit,
      RestartRequested = 0, CurrentBlock = None, CurrentBlockOffset = 0,
      FilteredProcessIds = None, FilteredConnectionIds = None,
      ModifiedHeader = replicate (unat (HeaderSize lay)) 0,
      ModifiedFooter = replicate (unat (FooterSize lay)) 0,
      DataEndOffset = 0, ModifiedFooterOffset = 0, OriginalFooterOffset = 0\<rparr>"

definition EmptyQm :: QM where
  "EmptyQm = \<lparr>Queue = [], Released = [], Calls = []\<rparr>"

text \<open>A reader with the snap length 5 (three bytes of padding) and the process filter
  \<open>[7]\<close>, in the state \<^verbatim>\<open>RestartStateNormal\<close>, and three blocks: one that is not a packet
  block, a packet block of process 7, and a packet block of process 3 with ten captured
  bytes.\<close>

definition example_context :: READER_CONTEXT where
  "example_context =
     (ZeroContext example_layout)
       \<lparr>SnapLength := 5, SnapLengthPad := 3, RestartState := RestartStateNormal,
        FilteredProcessIds := Some [1, 7]\<rparr>"

definition example_other :: BLOCK_NODE where
  "example_other =
     \<lparr>BlockType = OtherBlock 1, BlockLength = 4, ProcessId = 0, ConnectionId = 0,
      Buffer = None, Data = [1, 2, 3, 4]\<rparr>"

definition example_packet :: BLOCK_NODE where
  "example_packet =
     \<lparr>BlockType = PacketBlock, BlockLength = 44, ProcessId = 3, ConnectionId = 9,
      Buffer = Some ([6, 0, 0, 0, 44, 0, 0, 0, 0, 0, 0, 0, 0, 0, 0, 0, 0, 0, 0, 0,
                      10, 0, 0, 0, 10, 0, 0, 0] @
                     [101, 102, 103, 104, 105, 106, 107, 108, 109, 110, 0, 0] @
                     [44, 0, 0, 0]),
      Data = []\<rparr>"

definition example_filtered :: BLOCK_NODE where
  "example_filtered = example_packet\<lparr>ProcessId := 7\<rparr>"

definition example_qm :: QM where
  "example_qm =
     \<lparr>Queue = [example_other, example_filtered, example_packet], Released = [], Calls = []\<rparr>"

text \<open>The same reader in the middle of the first block, two bytes served, with a restart
  requested.\<close>

definition example_held_context :: READER_CONTEXT where
  "example_held_context =
     example_context\<lparr>CurrentBlock := Some example_other, CurrentBlockOffset := 2,
                      RestartRequested := 1\<rparr>"

text \<open>The loop at a block boundary, the block of process 7 next in the queue.\<close>

definition example_boundary :: READ_STATE where
  "example_boundary =
     EnterLoop example_context
       \<lparr>Queue = [example_filtered, example_packet], Released = [example_other], Calls = []\<rparr>"

text \<open>A queue that holds the packet block of process 3 alone.\<close>

definition example_packet_qm :: QM where
  "example_packet_qm = \<lparr>Queue = [example_packet], Released = [], Calls = []\<rparr>"

section \<open>Properties\<close>

subsection \<open>Byte encoding and the concrete instance\<close>

lemma de32_le32: "de32 (le32 v @ rest) = v"
proof -
  have "(ucast (ucast v :: u8) OR push_bit 8 (ucast (ucast (drop_bit 8 v) :: u8)) OR
        push_bit 16 (ucast (ucast (drop_bit 16 v) :: u8)) OR
        push_bit 24 (ucast (ucast (drop_bit 24 v) :: u8)) :: u32) = v"
  proof (rule bit_word_eqI)
    fix n assume "n < LENGTH(32)"
    then have n: "n < 32" by simp
    consider "n < 8" | "8 \<le> n" "n < 16" | "16 \<le> n" "n < 24" | "24 \<le> n" by linarith
    then show "bit (ucast (ucast v :: u8) OR push_bit 8 (ucast (ucast (drop_bit 8 v) :: u8)) OR
        push_bit 16 (ucast (ucast (drop_bit 16 v) :: u8)) OR
        push_bit 24 (ucast (ucast (drop_bit 24 v) :: u8)) :: u32) n = bit v n"
      using n by cases (auto simp: bit_simps)
  qed
  then show ?thesis by (simp add: de32_def le32_def)
qed

lemma length_le32 [simp]: "length (le32 v) = 4"
  by (simp add: le32_def)

lemma rd32_wr32_same:
  "off + 4 \<le> length bs \<Longrightarrow> rd32 (wr32 bs off v) off = Some v"
  using de32_le32[of v "[]"]
  by (simp add: rd32_def wr32_def read_bytes_def)

lemma rd32_wr_bytes: "rd32 (wr_bytes bs (le32 v)) 0 = Some v"
  using de32_le32[of v "[]"]
  by (simp add: rd32_def wr_bytes_def read_bytes_def)


lemma example_env_sel:
  "Layout example_env = example_layout" "Codes example_env = example_codes"
  "SizeofStatistics example_env = 8" "X86 example_env = False"
  "PoolAllocates example_env = True" "InitialBlocks example_env = (\<lambda>blocks. blocks)"
  "StatisticsBytes example_env = replicate 8 0"
  "PCAP_NG_PADDING example_env = (\<lambda>x. (x + 3) AND NOT 3)"
  "DataEventStatus example_env = (\<lambda>h. STATUS_SUCCESS)"
  by (simp_all add: example_env_def)

lemma codes_ok_example: "codes_ok example_codes"
  by (simp add: codes_ok_def example_codes_def ioctl_function_def)

lemma table_lookup:
  "f < 8 \<Longrightarrow> gIoctlParams_at env f = Inr (gIoctlParams env ! unat f)"
  "length (gIoctlParams env) = 8" "ARRAY_SIZEOF_gIoctlParams env = 8"
  by (simp_all add: gIoctlParams_at_def gIoctlParams_def ARRAY_SIZEOF_gIoctlParams_def
        word_less_nat_alt)

subsection \<open>Control requests\<close>

text \<open>
  C10. Every control code accepted by the range check of \<^verbatim>\<open>DispatchDeviceControl\<close>
  should give a function index below the number of entries of \<^verbatim>\<open>gIoctlParams\<close>. The
  check is \<^verbatim>\<open>function > ARRAY_SIZEOF(gIoctlParams)\<close>, so the index 8, one past the last of
  the 8 entries, is accepted: for the code \<open>0x00220020\<close> (function field 8) the
  dispatcher goes on to read \<^verbatim>\<open>gIoctlParams[8]\<close>.
\<close>

theorem C10_index_eight_passes_range_check:
  "ioctl_function 0x00220020 = 8 \<and>
   length (gIoctlParams env) = 8 \<and>
   \<not> ioctl_function 0x00220020 > ARRAY_SIZEOF_gIoctlParams env \<and>
   DispatchDeviceControl env q
     \<lparr>FsContext2 = Some c, SystemBuffer = buffer, InputBufferLength = inLen,
      OutputBufferLength = outLen, IoControlCode = 0x00220020\<rparr> = Inl TableReadOverrun"
  by (simp add: DispatchDeviceControl_def ioctl_function_def ioctl_is64Bit_def
        ARRAY_SIZEOF_gIoctlParams_def gIoctlParams_def gIoctlParams_at_def)

theorem C10_index_eight_witness:
  "DispatchDeviceControl example_env EmptyQm
     \<lparr>FsContext2 = Some (ZeroContext example_layout), SystemBuffer = None,
      InputBufferLength = 0, OutputBufferLength = 0, IoControlCode = 0x00220020\<rparr>
   = Inl TableReadOverrun"
  using C10_index_eight_passes_range_check
    [of example_env EmptyQm "ZeroContext example_layout" None 0 0]
  by simp

text \<open>
  C4, as the code has it. On an open handle: a code whose function field is above 8 is
  refused with \<^verbatim>\<open>STATUS_INVALID_DEVICE_REQUEST\<close>; for a function field below 8 the table
  entry at that index decides: a declared input or output length below the required one
  gives \<^verbatim>\<open>STATUS_BUFFER_TOO_SMALL\<close>, else a required length with a NULL buffer gives
  \<^verbatim>\<open>STATUS_INVALID_PARAMETER\<close>, else a code that is none of the known ones gives
  \<^verbatim>\<open>STATUS_INVALID_DEVICE_REQUEST\<close>. In each of these cases the request is completed with
  zero bytes, and the context, the buffer and the queue manager are as they were. (The
  function field 8 is the subject of C10.)
\<close>

theorem C4_validation:
  assumes "FsContext2 irp = Some c" and "code = IoControlCode irp"
  shows "(ioctl_function code > 8 \<longrightarrow>
            DispatchDeviceControl env q irp =
              Inr (CompleteIoctl STATUS_INVALID_DEVICE_REQUEST 0 (SystemBuffer irp) (Some c) q)) \<and>
         (ioctl_function code < 8 \<and> too_short env irp \<longrightarrow>
            DispatchDeviceControl env q irp =
              Inr (CompleteIoctl STATUS_BUFFER_TOO_SMALL 0 (SystemBuffer irp) (Some c) q)) \<and>
         (ioctl_function code < 8 \<and> \<not> too_short env irp \<and> buffer_missing env irp \<longrightarrow>
            DispatchDeviceControl env q irp =
              Inr (CompleteIoctl STATUS_INVALID_PARAMETER 0 (SystemBuffer irp) (Some c) q)) \<and>
         (ioctl_function code < 8 \<and> \<not> too_short env irp \<and> \<not> buffer_missing env irp \<and>
          \<not> known_code (Codes env) code \<longrightarrow>
            DispatchDeviceControl env q irp =
              Inr (CompleteIoctl STATUS_INVALID_DEVICE_REQUEST 0 (SystemBuffer irp) (Some c) q))"
proof -
  have big: "ioctl_function code > 8 \<Longrightarrow>
      DispatchDeviceControl env q irp =
        Inr (CompleteIoctl STATUS_INVALID_DEVICE_REQUEST 0 (SystemBuffer irp) (Some c) q)"
    using assms by (simp add: DispatchDeviceControl_def table_lookup)
  have small: "ioctl_function code < 8 \<Longrightarrow>
      DispatchDeviceControl env q irp =
        (if too_short env irp then Inr (CompleteIoctl STATUS_BUFFER_TOO_SMALL 0 (SystemBuffer irp) (Some c) q)
         else if buffer_missing env irp then
           Inr (CompleteIoctl STATUS_INVALID_PARAMETER 0 (SystemBuffer irp) (Some c) q)
         else IoctlSwitch env q c (SystemBuffer irp) (InputBufferLength irp)
                (RequiredOutput env code) code)"
  proof -
    assume f: "ioctl_function code < 8"
    then have g: "\<not> 8 < ioctl_function code" by simp
    show ?thesis
      using assms f g
      by (auto simp: DispatchDeviceControl_def table_lookup too_short_def buffer_missing_def
            RequiredInput_def RequiredOutput_def Let_def)
  qed
  have unknown: "\<not> known_code (Codes env) code \<Longrightarrow>
      IoctlSwitch env q c (SystemBuffer irp) (InputBufferLength irp) (RequiredOutput env code) code =
        Inr (CompleteIoctl STATUS_INVALID_DEVICE_REQUEST 0 (SystemBuffer irp) (Some c) q)"
    by (simp add: IoctlSwitch_def known_code_def Let_def)
  show ?thesis using big small unknown by simp
qed


theorem C4_validation_witness:
  "DispatchDeviceControl example_env EmptyQm
     \<lparr>FsContext2 = Some (ZeroContext example_layout), SystemBuffer = None,
      InputBufferLength = 0, OutputBufferLength = 0, IoControlCode = 0x00220FFC\<rparr>
     = Inr (CompleteIoctl STATUS_INVALID_DEVICE_REQUEST 0 None
              (Some (ZeroContext example_layout)) EmptyQm) \<and>
   DispatchDeviceControl example_env EmptyQm
     \<lparr>FsContext2 = Some (ZeroContext example_layout), SystemBuffer = Some [1, 0, 0],
      InputBufferLength = 3, OutputBufferLength = 0, IoControlCode = 0x0022000C\<rparr>
     = Inr (CompleteIoctl STATUS_BUFFER_TOO_SMALL 0 (Some [1, 0, 0])
              (Some (ZeroContext example_layout)) EmptyQm) \<and>
   DispatchDeviceControl example_env EmptyQm
     \<lparr>FsContext2 = Some (ZeroContext example_layout), SystemBuffer = None,
      InputBufferLength = 4, OutputBufferLength = 0, IoControlCode = 0x0022000C\<rparr>
     = Inr (CompleteIoctl STATUS_INVALID_PARAMETER 0 None
              (Some (ZeroContext example_layout)) EmptyQm) \<and>
   DispatchDeviceControl example_env EmptyQm
     \<lparr>FsContext2 = Some (ZeroContext example_layout), SystemBuffer = Some [1, 0, 0, 0],
      InputBufferLength = 4, OutputBufferLength = 0, IoControlCode = 0x0032000C\<rparr>
     = Inr (CompleteIoctl STATUS_INVALID_DEVICE_REQUEST 0 (Some [1, 0, 0, 0])
              (Some (ZeroContext example_layout)) EmptyQm)"
proof -
  have e: "ioctl_function 0x00220FFC = 0x3FF" "ioctl_function 0x0022000C = 3"
    "ioctl_function 0x0032000C = 3" "\<not> ioctl_is64Bit 0x0022000C" "\<not> ioctl_is64Bit 0x0032000C"
    by (simp_all add: ioctl_function_def ioctl_is64Bit_def)
  have t: "gIoctlParams example_env ! 3 = ioctl_params 4 0 4 0"
    by (simp add: gIoctlParams_def)
  note d = too_short_def buffer_missing_def RequiredInput_def RequiredOutput_def
    known_code_def example_env_sel example_codes_def ioctl_params_def
  show ?thesis
    using
      C4_validation [of "\<lparr>FsContext2 = Some (ZeroContext example_layout), SystemBuffer = None,
          InputBufferLength = 0, OutputBufferLength = 0, IoControlCode = 0x00220FFC\<rparr>"
        "ZeroContext example_layout" "0x00220FFC" example_env EmptyQm]
      C4_validation [of "\<lparr>FsContext2 = Some (ZeroContext example_layout),
          SystemBuffer = Some [1, 0, 0],
          InputBufferLength = 3, OutputBufferLength = 0, IoControlCode = 0x0022000C\<rparr>"
        "ZeroContext example_layout" "0x0022000C" example_env EmptyQm]
      C4_validation [of "\<lparr>FsContext2 = Some (ZeroContext example_layout), SystemBuffer = None,
          InputBufferLength = 4, OutputBufferLength = 0, IoControlCode = 0x0022000C\<rparr>"
        "ZeroContext example_layout" "0x0022000C" example_env EmptyQm]
      C4_validation [of "\<lparr>FsContext2 = Some (ZeroContext example_layout),
          SystemBuffer = Some [1, 0, 0, 0],
          InputBufferLength = 4, OutputBufferLength = 0, IoControlCode = 0x0032000C\<rparr>"
        "ZeroContext example_layout" "0x0032000C" example_env EmptyQm]
    by (simp add: e t d)
qed

text \<open>
  C4 as the claim words it fails: the code \<open>0x0000000C\<close> is none of the known codes, yet
  with an empty input buffer the request is refused with \<^verbatim>\<open>STATUS_BUFFER_TOO_SMALL\<close>, not
  \<^verbatim>\<open>STATUS_INVALID_DEVICE_REQUEST\<close>: the lengths are checked through the function field
  (here 3) before the \<^verbatim>\<open>switch\<close> looks at the whole code.
\<close>

theorem C4_unknown_code_counterexample:
  "\<not> known_code (Codes example_env) 0x0000000C \<and>
   DispatchDeviceControl example_env EmptyQm
     \<lparr>FsContext2 = Some (ZeroContext example_layout), SystemBuffer = None,
      InputBufferLength = 0, OutputBufferLength = 0, IoControlCode = 0x0000000C\<rparr>
     = Inr (CompleteIoctl STATUS_BUFFER_TOO_SMALL 0 None
              (Some (ZeroContext example_layout)) EmptyQm)"
  by (simp add: known_code_def example_env_def example_codes_def DispatchDeviceControl_def
        ioctl_function_def ioctl_is64Bit_def table_lookup gIoctlParams_at_def gIoctlParams_def
        ioctl_params_def)

lemma copy_ids_Inr:
  "4 * (index + n) \<le> length bs \<Longrightarrow>
   \<exists>new. copy_ids bs index n = Inr new \<and> length new = n"
proof (induction n arbitrary: index)
  case 0
  then show ?case by simp
next
  case (Suc n)
  have "4 * index + 4 \<le> length bs" using Suc.prems by simp
  then obtain x where x: "rd32 bs (4 * index) = Some x"
    by (simp add: rd32_def read_bytes_def)
  from Suc.IH[of "Suc index"] Suc.prems obtain new where
    "copy_ids bs (Suc index) n = Inr new" "length new = n" by auto
  then show ?case using x by simp
qed

text \<open>
  C6. When \<^verbatim>\<open>ExAllocatePoolWithTag\<close> returns NULL, \<^verbatim>\<open>SetIdList\<close> should give the request
  up and leave the installed filter in place. It has no check of the pointer: the next
  statement, \<^verbatim>\<open>ids[0] = numIds\<close>, stores through it. So a FilterProcesses request with
  one id, on a reader that has the filter \<open>[7]\<close> installed, ends in a store through NULL.
\<close>

theorem C6_allocation_failure:
  "SetIdList (env\<lparr>PoolAllocates := False\<rparr>) c idListType buffer 4 = Inl NullDereference \<and>
   DispatchDeviceControl (example_env\<lparr>PoolAllocates := False\<rparr>) q
     \<lparr>FsContext2 = Some (c\<lparr>FilteredProcessIds := Some [1, 7]\<rparr>),
      SystemBuffer = Some [9, 0, 0, 0], InputBufferLength = 4, OutputBufferLength = 0,
      IoControlCode = 0x00220008\<rparr> = Inl NullDereference"
  by (simp add: SetIdList_def DispatchDeviceControl_def IoctlSwitch_def example_env_def
        example_codes_def ioctl_function_def ioctl_is64Bit_def gIoctlParams_at_def
        gIoctlParams_def ARRAY_SIZEOF_gIoctlParams_def ioctl_params_def)

theorem C6_allocation_failure_witness:
  "SetIdList (example_env\<lparr>PoolAllocates := False\<rparr>) (ZeroContext example_layout)
     ProcessIdList (Some [9, 0, 0, 0]) 4 = Inl NullDereference"
  using C6_allocation_failure
    [of example_env "ZeroContext example_layout" ProcessIdList "Some [9, 0, 0, 0]" EmptyQm]
  by simp


subsection \<open>The copy from one block\<close>

text \<open>Each of the four copies of a trimmed block, and the single copy of a block served as
  it is, stores the next bytes of the view of the block and moves the cursor by as
  much; none reads outside its source.\<close>

lemma unat_min: "unat (min a b) = min (unat a) (unat (b::u32))"
  by (simp add: min_def word_le_nat_alt)

lemma advance_words:
  fixes ro rl bo X :: u32
  assumes ro: "ro \<le> rl" and bo: "bo \<le> X"
    and k: "k = min (unat rl - unat ro) (unat X - unat bo)"
  shows "unat (min (rl - ro) (X - bo)) = k"
    "unat (ro + min (rl - ro) (X - bo)) = unat ro + k"
    "unat (bo + min (rl - ro) (X - bo)) = unat bo + k"
proof -
  let ?n = "min (rl - ro) (X - bo)"
  show n: "unat ?n = k"
    using ro bo k by (simp add: unat_min unat_sub)
  have r: "unat ro \<le> unat rl" "unat bo \<le> unat X"
    using ro bo by (simp_all add: word_le_nat_alt)
  have "unat ro + unat ?n \<le> unat rl" using n k r by arith
  then have "unat ro + unat ?n < 2 ^ LENGTH(32)"
    using unsigned_less[of rl, where ?'a = nat] by simp
  then show "unat (ro + ?n) = unat ro + k"
    using n by (simp add: unat_add_lem[THEN iffD1])
  have "unat bo + unat ?n \<le> unat X" using n k r by arith
  then have "unat bo + unat ?n < 2 ^ LENGTH(32)"
    using unsigned_less[of X, where ?'a = nat] by simp
  then show "unat (bo + ?n) = unat bo + k"
    using n by (simp add: unat_add_lem[THEN iffD1])
qed

lemma CopyToReader_step:
  assumes ro: "readOffset s \<le> rl" and bo: "blockOffset s \<le> X"
    and src: "off + (unat X - unat (blockOffset s)) \<le> length src"
    and k: "k = min (unat rl - unat (readOffset s)) (unat X - unat (blockOffset s))"
  shows "\<exists>s'. CopyToReader src off (min (rl - readOffset s) (X - blockOffset s)) s = Inr s' \<and>
           readBuffer s' = readBuffer s @ take k (drop off src) \<and>
           unat (readOffset s') = unat (readOffset s) + k \<and>
           unat (blockOffset s') = unat (blockOffset s) + k \<and>
           ctx s' = ctx s \<and> qm s' = qm s \<and> blockNode s' = blockNode s"
proof -
  note w = advance_words[OF ro bo k]
  have "off + k \<le> length src" using src k by arith
  then have rb: "read_bytes src off (unat (min (rl - readOffset s) (X - blockOffset s)))
      = Some (take k (drop off src))"
    using w(1) by (simp add: read_bytes_def)
  show ?thesis using rb w by (simp add: CopyToReader_def)
qed

lemma mid_refl: "mid V p0 s0 s0 p0"
  by (simp add: mid_def)

lemma mid_advance:
  assumes "mid V p0 s0 s p"
    and "readBuffer s' = readBuffer s @ take k (drop p V)"
    and "unat (readOffset s') = unat (readOffset s) + k"
    and "ctx s' = ctx s" "qm s' = qm s" "blockNode s' = blockNode s"
  shows "mid V p0 s0 s' (p + k)"
proof -
  have le: "p0 \<le> p" using assms(1) by (simp add: mid_def)
  then have e: "p + k - p0 = (p - p0) + k" by simp
  have "take ((p - p0) + k) (drop p0 V) = take (p - p0) (drop p0 V) @ take k (drop p V)"
    using le by (simp only: take_add drop_drop) simp
  then have "take (p + k - p0) (drop p0 V) = take (p - p0) (drop p0 V) @ take k (drop p V)"
    using e by simp
  then show ?thesis using assms by (simp add: mid_def)
qed

lemma take_drop_left:
  "off + k \<le> length A \<Longrightarrow> take k (drop off (A @ B)) = take k (drop off A)"
  by simp

lemma zone_header:
  assumes m: "mid V p0 s0 s p" and ro: "readOffset s \<le> rl"
    and V: "V = ModifiedHeader (ctx s0) @ W"
    and len: "length (ModifiedHeader (ctx s0)) = unat (HeaderSize lay)"
    and cur: "unat (blockOffset s) = p"
  shows "\<exists>s'. CopyHeader lay rl s = Inr s' \<and>
           mid V p0 s0 s' (if p < unat (HeaderSize lay)
                           then p + min (unat rl - unat (readOffset s)) (unat (HeaderSize lay) - p)
                           else p) \<and>
           unat (blockOffset s') = (if p < unat (HeaderSize lay)
                           then p + min (unat rl - unat (readOffset s)) (unat (HeaderSize lay) - p)
                           else p)"
proof (cases "p < unat (HeaderSize lay)")
  case False
  then have "CopyHeader lay rl s = Inr s"
    using cur by (simp add: CopyHeader_def word_less_nat_alt)
  then show ?thesis using False m cur by simp
next
  case True
  let ?k = "min (unat rl - unat (readOffset s)) (unat (HeaderSize lay) - p)"
  have lt: "blockOffset s < HeaderSize lay" using True cur by (simp add: word_less_nat_alt)
  then have le: "blockOffset s \<le> HeaderSize lay" by simp
  have c: "ctx s = ctx s0" using m by (simp add: mid_def)
  have src: "unat (blockOffset s) + (unat (HeaderSize lay) - unat (blockOffset s))
      \<le> length (ModifiedHeader (ctx s))"
    using True cur len c by simp
  from CopyToReader_step[OF ro le src, of ?k] cur obtain s' where
    s': "CopyToReader (ModifiedHeader (ctx s)) (unat (blockOffset s))
           (min (rl - readOffset s) (HeaderSize lay - blockOffset s)) s = Inr s'"
      "readBuffer s' = readBuffer s @ take ?k (drop p (ModifiedHeader (ctx s)))"
      "unat (readOffset s') = unat (readOffset s) + ?k"
      "unat (blockOffset s') = p + ?k"
      "ctx s' = ctx s" "qm s' = qm s" "blockNode s' = blockNode s"
    by auto
  have "take ?k (drop p (ModifiedHeader (ctx s))) = take ?k (drop p V)"
    using V c len True by simp
  then have "mid V p0 s0 s' (p + ?k)"
    using mid_advance[OF m _ s'(3,5,6,7)] s'(2) by simp
  moreover have "CopyHeader lay rl s = Inr s'" using s'(1) lt by (simp add: CopyHeader_def)
  ultimately show ?thesis using True s'(4) by simp
qed

lemma zone_data:
  assumes m: "mid V p0 s0 s p" and ro: "readOffset s \<le> rl"
    and V: "V = A @ take (unat (DataEndOffset (ctx s0)) - unat (HeaderSize lay))
                      (drop (unat (HeaderSize lay)) (blockData b)) @ W"
    and len: "length A = unat (HeaderSize lay)"
    and geo: "unat (HeaderSize lay) \<le> unat (DataEndOffset (ctx s0))"
             "unat (DataEndOffset (ctx s0)) \<le> length (blockData b)"
    and cur: "unat (blockOffset s) = p"
  shows "\<exists>s'. CopyData lay rl b s = Inr s' \<and>
           mid V p0 s0 s' (if unat (HeaderSize lay) \<le> p \<and> p < unat (DataEndOffset (ctx s0)) \<and>
                              unat (readOffset s) < unat rl
                           then p + min (unat rl - unat (readOffset s))
                                        (unat (DataEndOffset (ctx s0)) - p)
                           else p) \<and>
           unat (blockOffset s') = (if unat (HeaderSize lay) \<le> p \<and> p < unat (DataEndOffset (ctx s0)) \<and>
                              unat (readOffset s) < unat rl
                           then p + min (unat rl - unat (readOffset s))
                                        (unat (DataEndOffset (ctx s0)) - p)
                           else p)"
proof (cases "unat (HeaderSize lay) \<le> p \<and> p < unat (DataEndOffset (ctx s0)) \<and>
                              unat (readOffset s) < unat rl")
  case False
  have c: "ctx s = ctx s0" using m by (simp add: mid_def)
  have "CopyData lay rl b s = Inr s"
    using cur False c by (auto simp: CopyData_def word_less_nat_alt word_le_nat_alt)
  then show ?thesis unfolding if_not_P[OF False] using m cur by simp
next
  case True
  let ?de = "unat (DataEndOffset (ctx s0))"
  let ?h = "unat (HeaderSize lay)"
  let ?k = "min (unat rl - unat (readOffset s)) (?de - p)"
  have c: "ctx s = ctx s0" using m by (simp add: mid_def)
  have cond: "blockOffset s \<ge> HeaderSize lay \<and> blockOffset s < DataEndOffset (ctx s) \<and>
         readOffset s < rl"
    using True cur c by (simp add: word_less_nat_alt word_le_nat_alt)
  then have le: "blockOffset s \<le> DataEndOffset (ctx s)" by auto
  have src: "unat (blockOffset s) + (unat (DataEndOffset (ctx s)) - unat (blockOffset s))
      \<le> length (blockData b)"
    using True cur geo c by simp
  from CopyToReader_step[OF ro le src, of ?k] cur c obtain s' where
    s': "CopyToReader (blockData b) (unat (blockOffset s))
           (min (rl - readOffset s) (DataEndOffset (ctx s) - blockOffset s)) s = Inr s'"
      "readBuffer s' = readBuffer s @ take ?k (drop p (blockData b))"
      "unat (readOffset s') = unat (readOffset s) + ?k"
      "unat (blockOffset s') = p + ?k"
      "ctx s' = ctx s" "qm s' = qm s" "blockNode s' = blockNode s"
    by auto
  have "take ?k (drop p V) = take ?k (drop p (blockData b))"
  proof -
    have "drop p V = drop (p - ?h) (take (?de - ?h) (drop ?h (blockData b)) @ W)"
      using V len True by simp
    also have "take ?k \<dots> = take ?k (drop (p - ?h) (take (?de - ?h) (drop ?h (blockData b))))"
      using True geo by (intro take_drop_left) (simp; arith)
    also have "\<dots> = take ?k (drop p (blockData b))"
    proof -
      have "drop (p - ?h) (take (?de - ?h) (drop ?h (blockData b))) =
            take (?de - p) (drop p (blockData b))"
        using True by (simp add: drop_take)
      moreover have "min ?k (?de - p) = ?k" by simp
      ultimately show ?thesis by (simp only: take_take)
    qed
    finally show ?thesis .
  qed
  then have "mid V p0 s0 s' (p + ?k)"
    using mid_advance[OF m _ s'(3,5,6,7)] s'(2) by simp
  moreover have "CopyData lay rl b s = Inr s'" using s'(1) cond by (simp add: CopyData_def)
  ultimately show ?thesis using True s'(4) by simp
qed


lemma zone_padding:
  assumes m: "mid V p0 s0 s p" and ro: "readOffset s \<le> rl"
    and V: "V = A @ replicate (unat (ModifiedFooterOffset (ctx s0)) - unat (DataEndOffset (ctx s0))) 0 @ W"
    and len: "length A = unat (DataEndOffset (ctx s0))"
    and geo: "unat (DataEndOffset (ctx s0)) \<le> unat (ModifiedFooterOffset (ctx s0))"
             "unat (ModifiedFooterOffset (ctx s0)) \<le> unat (OriginalFooterOffset (ctx s0))"
    and cur: "unat (blockOffset s) = p" "p \<le> unat (ModifiedFooterOffset (ctx s0))"
    and p': "p' = (if unat (DataEndOffset (ctx s0)) \<le> p \<and> p < unat (ModifiedFooterOffset (ctx s0)) \<and>
                     unat (readOffset s) < unat rl
                   then p + min (unat rl - unat (readOffset s))
                                (unat (ModifiedFooterOffset (ctx s0)) - p)
                   else p)"
  shows "mid V p0 s0 (CopyPadding rl s) p'"
    "unat (blockOffset (CopyPadding rl s)) =
       (if unat (DataEndOffset (ctx s0)) \<le> p \<and> unat (readOffset s) < unat rl \<and>
           p < unat (OriginalFooterOffset (ctx s0)) \<and> p' = unat (ModifiedFooterOffset (ctx s0))
        then unat (OriginalFooterOffset (ctx s0)) else p')"
proof -
  let ?de = "unat (DataEndOffset (ctx s0))"
  let ?mf = "unat (ModifiedFooterOffset (ctx s0))"
  let ?of = "unat (OriginalFooterOffset (ctx s0))"
  let ?rem = "unat rl - unat (readOffset s)"
  have c: "ctx s = ctx s0" using m by (simp add: mid_def)
  have goal: "mid V p0 s0 (CopyPadding rl s) p' \<and>
    unat (blockOffset (CopyPadding rl s)) =
       (if ?de \<le> p \<and> unat (readOffset s) < unat rl \<and> p < ?of \<and> p' = ?mf then ?of else p')"
  proof (cases "?de \<le> p \<and> p < ?of \<and> unat (readOffset s) < unat rl")
    case False
    then have e: "CopyPadding rl s = s"
      using cur c by (auto simp: CopyPadding_def word_less_nat_alt word_le_nat_alt)
    have "p' = p" using False p' geo by auto
    then show ?thesis using e m cur False by auto
  next
    case True
    let ?k = "min ?rem (?mf - p)"
    let ?n = "min (rl - readOffset s) (ModifiedFooterOffset (ctx s) - blockOffset s)"
    have cond: "blockOffset s \<ge> DataEndOffset (ctx s) \<and> blockOffset s < OriginalFooterOffset (ctx s) \<and>
         readOffset s < rl"
      using True cur c by (simp add: word_less_nat_alt word_le_nat_alt)
    have le: "blockOffset s \<le> ModifiedFooterOffset (ctx s)"
      using cur c by (simp add: word_le_nat_alt)
    have k: "?k = min (unat rl - unat (readOffset s))
                      (unat (ModifiedFooterOffset (ctx s)) - unat (blockOffset s))"
      using cur c by simp
    note w = advance_words[OF ro le k]
    define s1 where "s1 = s\<lparr>readBuffer := readBuffer s @ replicate ?k 0,
                    readOffset := readOffset s + ?n,
                    blockOffset := blockOffset s + ?n\<rparr>"
    have pk: "p' = p + ?k" using p' True by auto
    have "take ?k (drop p V) = replicate ?k 0"
    proof -
      have "drop p V = drop (p - ?de) (replicate (?mf - ?de) 0 @ W)"
        using V len True by simp
      also have "take ?k \<dots> = take ?k (drop (p - ?de) (replicate (?mf - ?de) (0::u8)))"
        using True cur by (intro take_drop_left) (simp; arith)
      also have "\<dots> = replicate ?k 0"
        using True cur by (simp add: min_def)
      finally show ?thesis .
    qed
    then have m1: "mid V p0 s0 s1 (p + ?k)"
      using mid_advance[OF m, of s1 ?k] w(2) by (simp add: s1_def)
    have b1: "unat (blockOffset s1) = p + ?k" using w(3) cur by (simp add: s1_def)
    have e: "CopyPadding rl s =
        (if blockOffset s1 \<ge> ModifiedFooterOffset (ctx s1)
         then s1\<lparr>blockOffset := OriginalFooterOffset (ctx s1)\<rparr> else s1)"
      using cond w(1) by (simp add: CopyPadding_def Let_def s1_def)
    have j: "blockOffset s1 \<ge> ModifiedFooterOffset (ctx s1) \<longleftrightarrow> p + ?k = ?mf"
      using b1 c cur(2) by (auto simp: word_le_nat_alt s1_def)
    show ?thesis
    proof (cases "p + ?k = ?mf")
      case T: True
      then have "CopyPadding rl s = s1\<lparr>blockOffset := OriginalFooterOffset (ctx s1)\<rparr>"
        using e j by simp
      then show ?thesis using m1 pk T True c by (simp add: mid_def s1_def)
    next
      case F: False
      then have "CopyPadding rl s = s1" using e j by simp
      then show ?thesis using m1 pk F b1 by simp
    qed
  qed
  show "mid V p0 s0 (CopyPadding rl s) p'" using goal by simp
  show "unat (blockOffset (CopyPadding rl s)) =
       (if ?de \<le> p \<and> unat (readOffset s) < unat rl \<and> p < ?of \<and> p' = ?mf then ?of else p')"
    using goal by simp
qed

lemma zone_footer:
  assumes m: "mid V p0 s0 s p" and ro: "readOffset s \<le> rl"
    and V: "V = A @ ModifiedFooter (ctx s0)"
    and len: "length A = unat (ModifiedFooterOffset (ctx s0))"
             "length (ModifiedFooter (ctx s0)) = f"
    and geo: "unat (OriginalFooterOffset (ctx s0)) + f = unat blockLength"
    and cur: "unat (blockOffset s) = unat (OriginalFooterOffset (ctx s0)) +
                 (p - unat (ModifiedFooterOffset (ctx s0)))"
             "unat (ModifiedFooterOffset (ctx s0)) \<le> p"
             "p \<le> unat (ModifiedFooterOffset (ctx s0)) + f"
    and p': "p' = p + min (unat rl - unat (readOffset s))
                          (unat (ModifiedFooterOffset (ctx s0)) + f - p)"
  shows "\<exists>s'. CopyFooter rl blockLength s = Inr s' \<and> mid V p0 s0 s' p' \<and>
           unat (blockOffset s') = unat (OriginalFooterOffset (ctx s0)) +
                 (p' - unat (ModifiedFooterOffset (ctx s0)))"
proof (cases "unat (readOffset s) < unat rl")
  case False
  then have "CopyFooter rl blockLength s = Inr s"
    by (simp add: CopyFooter_def word_less_nat_alt)
  moreover have "p' = p" using False p' by simp
  ultimately show ?thesis using m cur by simp
next
  case True
  let ?mf = "unat (ModifiedFooterOffset (ctx s0))"
  let ?of = "unat (OriginalFooterOffset (ctx s0))"
  let ?k = "min (unat rl - unat (readOffset s)) (?mf + f - p)"
  have c: "ctx s = ctx s0" using m by (simp add: mid_def)
  have cond: "blockOffset s \<ge> OriginalFooterOffset (ctx s) \<and> readOffset s < rl"
    using True cur c by (simp add: word_less_nat_alt word_le_nat_alt)
  have le: "blockOffset s \<le> blockLength"
    using cur geo by (simp add: word_le_nat_alt)
  have off: "unat (blockOffset s - OriginalFooterOffset (ctx s)) = p - ?mf"
    using cond cur c by (simp add: unat_sub)
  have kk: "?k = min (unat rl - unat (readOffset s)) (unat blockLength - unat (blockOffset s))"
    using cur geo by (simp; arith)
  have src: "unat (blockOffset s - OriginalFooterOffset (ctx s)) +
       (unat blockLength - unat (blockOffset s)) \<le> length (ModifiedFooter (ctx s))"
    using off cur geo len c by simp
  from CopyToReader_step[OF ro le src kk] off obtain s' where
    s': "CopyToReader (ModifiedFooter (ctx s)) (unat (blockOffset s - OriginalFooterOffset (ctx s)))
           (min (rl - readOffset s) (blockLength - blockOffset s)) s = Inr s'"
      "readBuffer s' = readBuffer s @ take ?k (drop (p - ?mf) (ModifiedFooter (ctx s)))"
      "unat (readOffset s') = unat (readOffset s) + ?k"
      "unat (blockOffset s') = unat (blockOffset s) + ?k"
      "ctx s' = ctx s" "qm s' = qm s" "blockNode s' = blockNode s"
    by auto
  have "take ?k (drop p V) = take ?k (drop (p - ?mf) (ModifiedFooter (ctx s)))"
    using V len cur c by simp
  then have "mid V p0 s0 s' (p + ?k)"
    using mid_advance[OF m _ s'(3,5,6,7)] s'(2) by simp
  moreover have "CopyFooter rl blockLength s = Inr s'" using s'(1) cond by (simp add: CopyFooter_def)
  moreover have "unat (blockOffset s') = ?of + (p + ?k - ?mf)" using s'(4) cur by arith
  ultimately show ?thesis using p' by simp
qed


lemma no_copy:
  "\<not> unat (blockOffset s) < unat (HeaderSize lay) \<Longrightarrow> CopyHeader lay rl s = Inr s"
  "\<not> unat (blockOffset s) < unat (DataEndOffset (ctx s)) \<Longrightarrow> CopyData lay rl b s = Inr s"
  "\<not> unat (blockOffset s) < unat (OriginalFooterOffset (ctx s)) \<Longrightarrow> CopyPadding rl s = s"
  "unat (blockOffset s) < unat (OriginalFooterOffset (ctx s)) \<or> \<not> unat (readOffset s) < unat rl
     \<Longrightarrow> CopyFooter rl bl s = Inr s"
  by (auto simp: CopyHeader_def CopyData_def CopyPadding_def CopyFooter_def
        word_less_nat_alt word_le_nat_alt)

lemma rd32_Some: "off + 4 \<le> length bs \<Longrightarrow> \<exists>v. rd32 bs off = Some v"
  by (simp add: rd32_def read_bytes_def)

lemma not_trimming:
  assumes "layout_ok lay" "length (ModifiedHeader c) = unat (HeaderSize lay)"
  shows "\<not> trimming lay c \<longleftrightarrow> rd32 (ModifiedHeader c) (HdrBlockType lay) = Some 0"
  using rd32_Some[of "HdrBlockType lay" "ModifiedHeader c"] assms
  by (auto simp: trimming_def layout_ok_def split: option.splits)

lemma is_trimming:
  "trimming lay c \<longleftrightarrow> (\<exists>t. rd32 (ModifiedHeader c) (HdrBlockType lay) = Some t \<and> t \<noteq> 0)"
  by (auto simp: trimming_def split: option.splits)

lemma CopyBlock_plain:
  assumes lay: "layout_ok lay"
    and mh: "length (ModifiedHeader (ctx s)) = unat (HeaderSize lay)"
    and nt: "\<not> trimming lay (ctx s)"
    and held: "held_ok lay (ctx s) b (blockOffset s)"
    and ro: "readOffset s < rl"
  shows "\<exists>s'. CopyBlock lay rl b s = Inr s' \<and>
     readBuffer s' = readBuffer s @
        take (unat rl - unat (readOffset s)) (rest_of_block lay (ctx s) (Some b) (blockOffset s)) \<and>
     unat (readOffset s') = unat (readOffset s) +
        min (unat rl - unat (readOffset s))
            (length (rest_of_block lay (ctx s) (Some b) (blockOffset s))) \<and>
     ctx s' = ctx s \<and>
     (if length (rest_of_block lay (ctx s) (Some b) (blockOffset s)) \<le> unat rl - unat (readOffset s)
      then blockNode s' = None \<and> qm s' = QmCleanupBlock b (qm s) \<and> blockOffset s' = 0
      else blockNode s' = blockNode s \<and> qm s' = qm s \<and>
           held_ok lay (ctx s) b (blockOffset s') \<and>
           unat (blockOffset s') < unat (BlockLength b) \<and>
           rest_of_block lay (ctx s) (Some b) (blockOffset s') =
             drop (unat rl - unat (readOffset s))
                  (rest_of_block lay (ctx s) (Some b) (blockOffset s)))"
proof -
  let ?rem = "unat rl - unat (readOffset s)"
  let ?bl = "unat (BlockLength b)"
  let ?bo = "unat (blockOffset s)"
  let ?k = "min ?rem (?bl - ?bo)"
  have t0: "rd32 (ModifiedHeader (ctx s)) (HdrBlockType lay) = Some 0"
    using not_trimming[OF lay mh] nt by simp
  have len: "length (blockData b) = ?bl" and bo: "?bo \<le> ?bl"
    using held by (simp_all add: held_ok_def)
  have R: "rest_of_block lay (ctx s) (Some b) (blockOffset s) = drop ?bo (blockData b)"
    using nt by (simp add: rest_of_block_def view_def view_pos_def)
  have le: "blockOffset s \<le> BlockLength b" using bo by (simp add: word_le_nat_alt)
  have rol: "readOffset s \<le> rl" using ro by simp
  have src: "?bo + (?bl - ?bo) \<le> length (blockData b)" using len bo by simp
  from CopyToReader_step[OF rol le src, of ?k] obtain s1 where
    s1: "CopyToReader (blockData b) ?bo (min (rl - readOffset s) (BlockLength b - blockOffset s)) s
           = Inr s1"
      "readBuffer s1 = readBuffer s @ take ?k (drop ?bo (blockData b))"
      "unat (readOffset s1) = unat (readOffset s) + ?k"
      "unat (blockOffset s1) = ?bo + ?k"
      "ctx s1 = ctx s" "qm s1 = qm s" "blockNode s1 = blockNode s"
    by auto
  have cb: "CopyBlock lay rl b s = Inr (ReleaseIfDone b s1)"
    using t0 s1(1) by (simp add: CopyBlock_def)
  have lr: "length (drop ?bo (blockData b)) = ?bl - ?bo" using len by simp
  have tk: "take ?k (drop ?bo (blockData b)) = take ?rem (drop ?bo (blockData b))"
    using lr by (simp add: min_def)
  show ?thesis
  proof (cases "?bl - ?bo \<le> ?rem")
    case True
    then have "?bo + ?k = ?bl" using bo by simp
    then have "blockOffset s1 \<ge> BlockLength b" using s1(4) by (simp add: word_le_nat_alt)
    then have "ReleaseIfDone b s1 =
        s1\<lparr>qm := QmCleanupBlock b (qm s1), blockNode := None, blockOffset := 0\<rparr>"
      by (simp add: ReleaseIfDone_def)
    then show ?thesis using cb s1 R tk lr True by simp
  next
    case False
    then have k: "?k = ?rem" and lt: "?bo + ?k < ?bl" by simp_all
    then have "\<not> blockOffset s1 \<ge> BlockLength b" using s1(4) by (simp add: word_le_nat_alt)
    then have e: "ReleaseIfDone b s1 = s1" by (simp add: ReleaseIfDone_def)
    have h1: "held_ok lay (ctx s) b (blockOffset s1)"
      using held nt lt s1(4) by (simp add: held_ok_def)
    have r1: "rest_of_block lay (ctx s) (Some b) (blockOffset s1) = drop ?rem (drop ?bo (blockData b))"
      using nt s1(4) k by (simp add: rest_of_block_def view_def view_pos_def add.commute)
    show ?thesis using cb e s1 R tk lr False h1 r1 lt by simp
  qed
qed

lemma CopyBlock_finish:
  assumes m: "mid (view lay (ctx s) b) (view_pos lay (ctx s) (blockOffset s)) s s4 p4"
    and tr: "trimming lay (ctx s)"
    and held: "held_ok lay (ctx s) b (blockOffset s)"
    and lenV: "length (view lay (ctx s) b) =
                 unat (ModifiedFooterOffset (ctx s)) + unat (FooterSize lay)"
    and f: "0 < unat (FooterSize lay)"
    and p0: "view_pos lay (ctx s) (blockOffset s) \<le>
                 unat (ModifiedFooterOffset (ctx s)) + unat (FooterSize lay)"
    and p4: "p4 = min (view_pos lay (ctx s) (blockOffset s) + (unat rl - unat (readOffset s)))
                      (unat (ModifiedFooterOffset (ctx s)) + unat (FooterSize lay))"
    and cur: "(unat (blockOffset s4) = unat (OriginalFooterOffset (ctx s)) +
                   (p4 - unat (ModifiedFooterOffset (ctx s))) \<and>
               unat (ModifiedFooterOffset (ctx s)) \<le> p4) \<or>
              (unat (blockOffset s4) = p4 \<and> p4 \<le> unat (ModifiedFooterOffset (ctx s)) \<and>
               p4 = view_pos lay (ctx s) (blockOffset s) + (unat rl - unat (readOffset s)))"
  shows "readBuffer (ReleaseIfDone b s4) = readBuffer s @
        take (unat rl - unat (readOffset s)) (rest_of_block lay (ctx s) (Some b) (blockOffset s)) \<and>
     unat (readOffset (ReleaseIfDone b s4)) = unat (readOffset s) +
        min (unat rl - unat (readOffset s))
            (length (rest_of_block lay (ctx s) (Some b) (blockOffset s))) \<and>
     ctx (ReleaseIfDone b s4) = ctx s \<and>
     (if length (rest_of_block lay (ctx s) (Some b) (blockOffset s)) \<le> unat rl - unat (readOffset s)
      then blockNode (ReleaseIfDone b s4) = None \<and>
           qm (ReleaseIfDone b s4) = QmCleanupBlock b (qm s) \<and>
           blockOffset (ReleaseIfDone b s4) = 0
      else blockNode (ReleaseIfDone b s4) = blockNode s \<and> qm (ReleaseIfDone b s4) = qm s \<and>
           held_ok lay (ctx s) b (blockOffset (ReleaseIfDone b s4)) \<and>
           unat (blockOffset (ReleaseIfDone b s4)) < unat (BlockLength b) \<and>
           rest_of_block lay (ctx s) (Some b) (blockOffset (ReleaseIfDone b s4)) =
             drop (unat rl - unat (readOffset s))
                  (rest_of_block lay (ctx s) (Some b) (blockOffset s)))"
proof -
  let ?V = "view lay (ctx s) b"
  let ?p0 = "view_pos lay (ctx s) (blockOffset s)"
  let ?rem = "unat rl - unat (readOffset s)"
  let ?mf = "unat (ModifiedFooterOffset (ctx s))"
  let ?of = "unat (OriginalFooterOffset (ctx s))"
  let ?f = "unat (FooterSize lay)"
  let ?bl = "unat (BlockLength b)"
  let ?R = "rest_of_block lay (ctx s) (Some b) (blockOffset s)"
  have R: "?R = drop ?p0 ?V" by (simp add: rest_of_block_def)
  have lenR: "length ?R = ?mf + ?f - ?p0" using R lenV by simp
  have geo: "?mf \<le> ?of" "?of + ?f = ?bl"
    using held tr by (simp_all add: held_ok_def)
  have d: "p4 - ?p0 = min ?rem (length ?R)" using p4 p0 lenR by arith
  have m': "ctx s4 = ctx s" "qm s4 = qm s" "blockNode s4 = blockNode s"
    "readBuffer s4 = readBuffer s @ take (p4 - ?p0) ?R"
    "unat (readOffset s4) = unat (readOffset s) + (p4 - ?p0)"
    using m R by (simp_all add: mid_def)
  have buf: "readBuffer s4 = readBuffer s @ take ?rem ?R"
    using m'(4) d by (simp add: min_def split: if_splits)
  show ?thesis
  proof (cases "length ?R \<le> ?rem")
    case True
    then have e: "p4 = ?mf + ?f" using p4 lenR p0 by arith
    then have "unat (blockOffset s4) = ?of + (p4 - ?mf)" using cur f True lenR by auto
    then have "unat (blockOffset s4) = ?bl" using e geo by simp
    then have "blockOffset s4 \<ge> BlockLength b" by (simp add: word_le_nat_alt)
    then have "ReleaseIfDone b s4 =
        s4\<lparr>qm := QmCleanupBlock b (qm s4), blockNode := None, blockOffset := 0\<rparr>"
      by (simp add: ReleaseIfDone_def)
    then show ?thesis using True m' buf d by simp
  next
    case False
    then have e: "p4 = ?p0 + ?rem" "p4 < ?mf + ?f" using p4 lenR p0 by arith+
    have lt: "unat (blockOffset s4) < ?bl" using cur e geo f by auto
    then have "\<not> blockOffset s4 \<ge> BlockLength b" by (simp add: word_le_nat_alt)
    then have r: "ReleaseIfDone b s4 = s4" by (simp add: ReleaseIfDone_def)
    have vp: "view_pos lay (ctx s) (blockOffset s4) = p4"
      using cur tr geo by (auto simp: view_pos_def)
    have h4: "held_ok lay (ctx s) b (blockOffset s4)"
      using held tr lt cur geo by (auto simp: held_ok_def)
    have "rest_of_block lay (ctx s) (Some b) (blockOffset s4) = drop ?rem ?R"
      using vp e R by (simp add: rest_of_block_def add.commute)
    then show ?thesis using False r m' buf d h4 lt by simp
  qed
qed


lemma mid_readOffset:
  assumes "mid V p0 s0 s p" "p \<le> p0 + (unat rl - unat (readOffset s0))" "readOffset s0 \<le> rl"
  shows "readOffset s \<le> rl" "unat rl - unat (readOffset s) = unat rl - unat (readOffset s0) - (p - p0)"
    "unat (readOffset s) < unat rl \<longleftrightarrow> p < p0 + (unat rl - unat (readOffset s0))"
  using assms by (auto simp: mid_def word_le_nat_alt)

lemma chain_step:
  fixes p0 rem a b p :: nat
  assumes "p = min (p0 + rem) (max p0 a)" "a \<le> b"
  shows "(if a \<le> p \<and> p < b \<and> p < p0 + rem then p + min (rem - (p - p0)) (b - p) else p)
           = min (p0 + rem) (max p0 b)"
  using assms by (auto simp: min_def max_def split: if_splits)

lemma chain_last:
  fixes p0 rem mf f :: nat
  assumes "mf = min (p0 + rem) mf" "p0 \<le> mf"
  shows "mf + min (rem - (mf - p0)) (mf + f - mf) = min (p0 + rem) (mf + f)"
  using assms by (auto simp: min_def split: if_splits)

lemma CopyBlock_trimmed:
  assumes lay: "layout_ok lay"
    and mh: "length (ModifiedHeader (ctx s)) = unat (HeaderSize lay)"
    and tr: "trimming lay (ctx s)"
    and held: "held_ok lay (ctx s) b (blockOffset s)"
    and ro: "readOffset s < rl"
  shows "\<exists>s'. CopyBlock lay rl b s = Inr s' \<and>
     readBuffer s' = readBuffer s @
        take (unat rl - unat (readOffset s)) (rest_of_block lay (ctx s) (Some b) (blockOffset s)) \<and>
     unat (readOffset s') = unat (readOffset s) +
        min (unat rl - unat (readOffset s))
            (length (rest_of_block lay (ctx s) (Some b) (blockOffset s))) \<and>
     ctx s' = ctx s \<and>
     (if length (rest_of_block lay (ctx s) (Some b) (blockOffset s)) \<le> unat rl - unat (readOffset s)
      then blockNode s' = None \<and> qm s' = QmCleanupBlock b (qm s) \<and> blockOffset s' = 0
      else blockNode s' = blockNode s \<and> qm s' = qm s \<and>
           held_ok lay (ctx s) b (blockOffset s') \<and>
           unat (blockOffset s') < unat (BlockLength b) \<and>
           rest_of_block lay (ctx s) (Some b) (blockOffset s') =
             drop (unat rl - unat (readOffset s))
                  (rest_of_block lay (ctx s) (Some b) (blockOffset s)))"
proof -
  let ?c = "ctx s"
  let ?V = "view lay ?c b"
  let ?p0 = "view_pos lay ?c (blockOffset s)"
  let ?rem = "unat rl - unat (readOffset s)"
  let ?h = "unat (HeaderSize lay)"
  let ?de = "unat (DataEndOffset ?c)"
  let ?mf = "unat (ModifiedFooterOffset ?c)"
  let ?of = "unat (OriginalFooterOffset ?c)"
  let ?f = "unat (FooterSize lay)"
  let ?bl = "unat (BlockLength b)"
  let ?bo = "unat (blockOffset s)"
  let ?D = "take (?de - ?h) (drop ?h (blockData b))"
  let ?Z = "replicate (?mf - ?de) (0::u8)"
  have geo: "length (ModifiedFooter ?c) = ?f" "?h \<le> ?de" "?de \<le> ?mf" "?mf \<le> ?of"
    "?of + ?f = ?bl" "?bo \<le> ?mf \<or> ?of \<le> ?bo" "length (blockData b) = ?bl" "?bo \<le> ?bl"
    using held tr by (simp_all add: held_ok_def)
  have f: "0 < ?f" using lay by (simp add: layout_ok_def)
  have V: "?V = ModifiedHeader ?c @ ?D @ ?Z @ ModifiedFooter ?c"
    using tr by (simp add: view_def)
  have lenD: "length ?D = ?de - ?h" using geo by simp
  have lenV: "length ?V = ?mf + ?f" using V mh geo lenD by simp
  have rol: "readOffset s \<le> rl" using ro by simp
  have rem: "0 < ?rem" using ro by (simp add: word_less_nat_alt)
  obtain t where t: "rd32 (ModifiedHeader ?c) (HdrBlockType lay) = Some t" "t \<noteq> 0"
    using tr by (auto simp: is_trimming)
  have cb: "\<And>s1 s2 s4. CopyHeader lay rl s = Inr s1 \<Longrightarrow> CopyData lay rl b s1 = Inr s2 \<Longrightarrow>
      CopyFooter rl (BlockLength b) (CopyPadding rl s2) = Inr s4 \<Longrightarrow>
      CopyBlock lay rl b s = Inr (ReleaseIfDone b s4)"
    using t by (simp add: CopyBlock_def)
  have "\<exists>s4 p4. CopyBlock lay rl b s = Inr (ReleaseIfDone b s4) \<and> mid ?V ?p0 s s4 p4 \<and>
     ?p0 \<le> ?mf + ?f \<and> p4 = min (?p0 + ?rem) (?mf + ?f) \<and>
     ((unat (blockOffset s4) = ?of + (p4 - ?mf) \<and> ?mf \<le> p4) \<or>
      (unat (blockOffset s4) = p4 \<and> p4 \<le> ?mf \<and> p4 = ?p0 + ?rem))"
  proof (cases "?bo \<le> ?mf")
    case False
    then have B: "?mf < ?bo" "?of \<le> ?bo" using geo by auto
    have p0: "?p0 = ?mf + (?bo - ?of)" using tr B by (simp add: view_pos_def)
    have e1: "CopyHeader lay rl s = Inr s" using B geo by (intro no_copy) simp
    have e2: "CopyData lay rl b s = Inr s" using B geo by (intro no_copy) simp
    have e3: "CopyPadding rl s = s" using B geo by (intro no_copy) simp
    have V4: "?V = (ModifiedHeader ?c @ ?D @ ?Z) @ ModifiedFooter ?c" using V by simp
    have len4: "length (ModifiedHeader ?c @ ?D @ ?Z) = ?mf" using mh lenD geo by simp
    have cur: "?bo = ?of + (?p0 - ?mf)" "?mf \<le> ?p0" "?p0 \<le> ?mf + ?f"
      using p0 B geo by simp_all
    from zone_footer[OF mid_refl rol V4 len4 geo(1) geo(5) cur refl]
    obtain s4 where s4: "CopyFooter rl (BlockLength b) s = Inr s4"
      "mid ?V ?p0 s s4 (?p0 + min ?rem (?mf + ?f - ?p0))"
      "unat (blockOffset s4) = ?of + (?p0 + min ?rem (?mf + ?f - ?p0) - ?mf)"
      by auto
    have "CopyBlock lay rl b s = Inr (ReleaseIfDone b s4)"
      using cb[OF e1 e2] e3 s4(1) by simp
    moreover have "?p0 + min ?rem (?mf + ?f - ?p0) = min (?p0 + ?rem) (?mf + ?f)"
      using cur by arith
    ultimately show ?thesis using s4 cur by auto
  next
    case A: True
    have p0: "?p0 = ?bo" using A by (simp add: view_pos_def)
    have p0le: "?p0 \<le> ?mf + ?f" using p0 A by simp
    \<comment> \<open>the header\<close>
    define p1 where "p1 = (if ?p0 < ?h then ?p0 + min ?rem (?h - ?p0) else ?p0)"
    have V1: "?V = ModifiedHeader ?c @ (?D @ ?Z @ ModifiedFooter ?c)" using V by simp
    from zone_header[OF mid_refl rol V1 mh p0[symmetric], folded p1_def]
    obtain s1 where s1: "CopyHeader lay rl s = Inr s1" "mid ?V ?p0 s s1 p1"
      "unat (blockOffset s1) = p1"
      by blast
    have F1: "p1 = min (?p0 + ?rem) (max ?p0 ?h)" unfolding p1_def by arith
    have b1: "p1 \<le> ?p0 + ?rem" using F1 by simp
    note r1 = mid_readOffset[OF s1(2) b1 rol]
    have c1: "ctx s1 = ?c" using s1(2) by (simp add: mid_def)
    \<comment> \<open>the packet data\<close>
    define p2 where "p2 = (if ?h \<le> p1 \<and> p1 < ?de \<and> unat (readOffset s1) < unat rl
        then p1 + min (unat rl - unat (readOffset s1)) (?de - p1) else p1)"
    have V2: "?V = ModifiedHeader ?c @ ?D @ (?Z @ ModifiedFooter ?c)" using V by simp
    have dl: "?de \<le> length (blockData b)" using geo by simp
    from zone_data[OF s1(2) r1(1) V2 mh geo(2) dl s1(3), folded p2_def]
    obtain s2 where s2: "CopyData lay rl b s1 = Inr s2" "mid ?V ?p0 s s2 p2"
      "unat (blockOffset s2) = p2"
      by blast
    have F2: "p2 = min (?p0 + ?rem) (max ?p0 ?de)"
      unfolding p2_def r1(2) r1(3) using chain_step[OF F1 geo(2)] .
    have b2: "p2 \<le> ?p0 + ?rem" using F2 by simp
    note r2 = mid_readOffset[OF s2(2) b2 rol]
    have le2: "p2 \<le> ?mf" using F2 A p0 geo by simp
    \<comment> \<open>the padding\<close>
    define p3 where "p3 = (if ?de \<le> p2 \<and> p2 < ?mf \<and> unat (readOffset s2) < unat rl
        then p2 + min (unat rl - unat (readOffset s2)) (?mf - p2) else p2)"
    let ?s3 = "CopyPadding rl s2"
    have V3: "?V = (ModifiedHeader ?c @ ?D) @ ?Z @ ModifiedFooter ?c" using V by simp
    have len3: "length (ModifiedHeader ?c @ ?D) = ?de" using mh lenD geo by simp
    note z3 = zone_padding[OF s2(2) r2(1) V3 len3 geo(3) geo(4) s2(3) le2 p3_def]
    have F3': "p3 = min (?p0 + ?rem) (max ?p0 ?mf)"
      unfolding p3_def r2(2) r2(3) using chain_step[OF F2 geo(3)] .
    have F3: "p3 = min (?p0 + ?rem) ?mf"
      using F3' A p0 by (simp add: max_def)
    have b3: "p3 \<le> ?p0 + ?rem" using F3 by simp
    note r3 = mid_readOffset[OF z3(1) b3 rol]
    have c3: "ctx ?s3 = ?c" using z3(1) by (simp add: mid_def)
    show ?thesis
    proof (cases "p3 = ?mf \<and> unat (blockOffset ?s3) = ?of")
      case T: True
      \<comment> \<open>the footer\<close>
      have V4: "?V = (ModifiedHeader ?c @ ?D @ ?Z) @ ModifiedFooter ?c" using V by simp
      have len4: "length (ModifiedHeader ?c @ ?D @ ?Z) = ?mf" using mh lenD geo by simp
      have cur: "unat (blockOffset ?s3) = ?of + (p3 - ?mf)" "?mf \<le> p3" "p3 \<le> ?mf + ?f"
        using T by simp_all
      from zone_footer[OF z3(1) r3(1) V4 len4 geo(1) geo(5) cur refl]
      obtain s4 where s4: "CopyFooter rl (BlockLength b) ?s3 = Inr s4"
        "mid ?V ?p0 s s4 (p3 + min (unat rl - unat (readOffset ?s3)) (?mf + ?f - p3))"
        "unat (blockOffset s4) =
           ?of + (p3 + min (unat rl - unat (readOffset ?s3)) (?mf + ?f - p3) - ?mf)"
        by auto
      have p3mf: "p3 = ?mf" using T by simp
      have "?p0 \<le> ?mf" using A p0 by simp
      then have "p3 + min (unat rl - unat (readOffset ?s3)) (?mf + ?f - p3) = min (?p0 + ?rem) (?mf + ?f)"
        unfolding r3(2) using chain_last[of ?mf ?p0 ?rem ?f] F3 unfolding p3mf by simp
      moreover have "CopyBlock lay rl b s = Inr (ReleaseIfDone b s4)"
        using cb[OF s1(1) s2(1) s4(1)] .
      moreover have "?mf \<le> p3 + min (unat rl - unat (readOffset ?s3)) (?mf + ?f - p3)"
        using T by simp
      ultimately show ?thesis using s4 p0le by auto
    next
      case F: False
      have J: "\<not> (?de \<le> p2 \<and> unat (readOffset s2) < unat rl \<and> p2 < ?of \<and> p3 = ?mf)"
      proof
        assume j: "?de \<le> p2 \<and> unat (readOffset s2) < unat rl \<and> p2 < ?of \<and> p3 = ?mf"
        then have "unat (blockOffset ?s3) = ?of" using z3(2) by simp
        with j F show False by simp
      qed
      have nj1: "unat (blockOffset ?s3) = p3" using z3(2) unfolding if_not_P[OF J] .
      have nj2: "p3 < ?mf \<or> \<not> unat (readOffset s2) < unat rl"
      proof (rule ccontr)
        assume "\<not> (p3 < ?mf \<or> \<not> unat (readOffset s2) < unat rl)"
        then have a: "?mf \<le> p3" "unat (readOffset s2) < unat rl" by auto
        have "p3 \<le> ?mf" using F3 by simp
        then have p3mf: "p3 = ?mf" using a by simp
        from J a p3mf consider "p2 < ?de" | "?of \<le> p2" by fastforce
        then show False
        proof cases
          case 1
          then have "p3 = p2" unfolding p3_def by simp
          then show False using 1 p3mf geo(3) by simp
        next
          case 2
          then have e: "p2 = ?mf" "?mf = ?of" using le2 geo(4) by simp_all
          then have "p3 = p2" unfolding p3_def by simp
          then show False using F nj1 e by simp
        qed
      qed
      note nj = nj1 nj2
      have pr: "p3 = ?p0 + ?rem"
      proof (cases "p3 < ?mf")
        case True then show ?thesis using F3 by (simp add: min_def split: if_splits)
      next
        case False
        then have "\<not> unat (readOffset s2) < unat rl" using nj by simp
        then have "p2 = ?p0 + ?rem" using r2(3) b2 by simp
        moreover have "p2 \<le> p3" unfolding p3_def by simp
        ultimately show ?thesis using b3 by simp
      qed
      have "unat (blockOffset ?s3) < ?of \<or> \<not> unat (readOffset ?s3) < unat rl"
        using nj geo r3(3) pr by auto
      then have e4: "CopyFooter rl (BlockLength b) ?s3 = Inr ?s3"
        using c3 by (intro no_copy) simp
      have "CopyBlock lay rl b s = Inr (ReleaseIfDone b ?s3)"
        using cb[OF s1(1) s2(1) e4] .
      moreover have "p3 = min (?p0 + ?rem) (?mf + ?f)" using pr F3 by (simp add: min_def split: if_splits)
      moreover have "p3 \<le> ?mf" using F3 by simp
      ultimately show ?thesis using z3(1) nj(1) pr p0le by auto
    qed
  qed
  then obtain s4 p4 where *: "CopyBlock lay rl b s = Inr (ReleaseIfDone b s4)" "mid ?V ?p0 s s4 p4"
     "?p0 \<le> ?mf + ?f" "p4 = min (?p0 + ?rem) (?mf + ?f)"
     "(unat (blockOffset s4) = ?of + (p4 - ?mf) \<and> ?mf \<le> p4) \<or>
      (unat (blockOffset s4) = p4 \<and> p4 \<le> ?mf \<and> p4 = ?p0 + ?rem)"
    by blast
  from CopyBlock_finish[OF *(2) tr held lenV f *(3) *(4) *(5)] *(1)
  show ?thesis by simp
qed

lemma CopyBlock_correct:
  assumes lay: "layout_ok lay"
    and mh: "length (ModifiedHeader (ctx s)) = unat (HeaderSize lay)"
    and held: "held_ok lay (ctx s) b (blockOffset s)"
    and ro: "readOffset s < rl"
  shows "\<exists>s'. CopyBlock lay rl b s = Inr s' \<and>
     readBuffer s' = readBuffer s @
        take (unat rl - unat (readOffset s)) (rest_of_block lay (ctx s) (Some b) (blockOffset s)) \<and>
     unat (readOffset s') = unat (readOffset s) +
        min (unat rl - unat (readOffset s))
            (length (rest_of_block lay (ctx s) (Some b) (blockOffset s))) \<and>
     ctx s' = ctx s \<and>
     (if length (rest_of_block lay (ctx s) (Some b) (blockOffset s)) \<le> unat rl - unat (readOffset s)
      then blockNode s' = None \<and> qm s' = QmCleanupBlock b (qm s) \<and> blockOffset s' = 0
      else blockNode s' = blockNode s \<and> qm s' = qm s \<and>
           held_ok lay (ctx s) b (blockOffset s') \<and>
           unat (blockOffset s') < unat (BlockLength b) \<and>
           rest_of_block lay (ctx s) (Some b) (blockOffset s') =
             drop (unat rl - unat (readOffset s))
                  (rest_of_block lay (ctx s) (Some b) (blockOffset s)))"
proof (cases "trimming lay (ctx s)")
  case True
  from CopyBlock_trimmed[OF lay mh True held ro] show ?thesis .
next
  case False
  from CopyBlock_plain[OF lay mh False held ro] show ?thesis .
qed

subsection \<open>Taking the next block from the queue\<close>

lemma same_config_refl: "same_config c c"
  by (simp add: same_config_def)

lemma same_config_fields:
  assumes "same_config c c'"
  shows "SnapLength c' = SnapLength c" "SnapLengthPad c' = SnapLengthPad c"
    "RestartState c' = RestartState c" "RestartRequested c' = RestartRequested c"
    "FilteredProcessIds c' = FilteredProcessIds c"
    "FilteredConnectionIds c' = FilteredConnectionIds c"
    "CurrentBlock c' = CurrentBlock c" "CurrentBlockOffset c' = CurrentBlockOffset c"
proof -
  obtain mh mf de mo oo where e: "c' = c\<lparr>ModifiedHeader := mh, ModifiedFooter := mf,
             DataEndOffset := de, ModifiedFooterOffset := mo, OriginalFooterOffset := oo\<rparr>"
    using assms unfolding same_config_def by blast
  show "SnapLength c' = SnapLength c" "SnapLengthPad c' = SnapLengthPad c"
    "RestartState c' = RestartState c" "RestartRequested c' = RestartRequested c"
    "FilteredProcessIds c' = FilteredProcessIds c"
    "FilteredConnectionIds c' = FilteredConnectionIds c"
    "CurrentBlock c' = CurrentBlock c" "CurrentBlockOffset c' = CurrentBlockOffset c"
    unfolding e by simp_all
qed

lemma same_config_trans:
  assumes "same_config a b" "same_config b c"
  shows "same_config a c"
proof -
  obtain mh mf de mo oo where e: "b = a\<lparr>ModifiedHeader := mh, ModifiedFooter := mf,
             DataEndOffset := de, ModifiedFooterOffset := mo, OriginalFooterOffset := oo\<rparr>"
    using assms(1) unfolding same_config_def by blast
  obtain mh' mf' de' mo' oo' where e': "c = b\<lparr>ModifiedHeader := mh', ModifiedFooter := mf',
             DataEndOffset := de', ModifiedFooterOffset := mo', OriginalFooterOffset := oo'\<rparr>"
    using assms(2) unfolding same_config_def by blast
  show ?thesis unfolding e' e by (simp add: same_config_def)
qed

lemma same_config_stream:
  assumes "same_config c c'"
  shows "suppressed c' = suppressed c" "truncated lay c' = truncated lay c"
    "delivered lay c' = delivered lay c" "stream lay c' = stream lay c"
    "block_ok lay c' = block_ok lay c" "queue_ok lay c' = queue_ok lay c"
proof -
  note f = same_config_fields[OF assms]
  show s: "suppressed c' = suppressed c" by (rule ext) (simp add: suppressed_def f)
  show t: "truncated lay c' = truncated lay c" by (rule ext) (simp add: truncated_def f cong: option.case_cong)
  have l: "truncated_length lay c' = truncated_length lay c" by (simp add: truncated_length_def f)
  show d: "delivered lay c' = delivered lay c" by (rule ext) (simp add: delivered_def f t l)
  show "stream lay c' = stream lay c" by (rule ext) (simp add: stream_def s d)
  show b: "block_ok lay c' = block_ok lay c" by (rule ext) (simp add: block_ok_def t l)
  show "queue_ok lay c' = queue_ok lay c" by (rule ext) (simp add: queue_ok_def b)
qed

lemma id_scan_set:
  "index + n \<le> length ids \<Longrightarrow> id_scan ids v index n = Inr (v \<in> set (take n (drop index ids)))"
proof (induction n arbitrary: index)
  case 0
  then show ?case by simp
next
  case (Suc n)
  have lt: "index < length ids" using Suc.prems by simp
  have "take (Suc n) (drop index ids) = ids ! index # take n (drop (Suc index) ids)"
    using lt by (simp add: take_Suc_conv_app_nth Cons_nth_drop_Suc[symmetric] take_Suc_Cons)
  then show ?case using Suc.IH[of "Suc index"] Suc.prems lt by auto
qed

lemma id_listed_eq:
  assumes "filter_ok (Some ids)"
  shows "id_listed ids v = Inr (listed (Some ids) v)"
proof -
  obtain count rest where ids: "ids = count # rest" and len: "length rest = unat count"
    using assms by (cases ids) (auto simp: filter_ok_def)
  have "id_scan ids v 1 (unat count) = Inr (v \<in> set (take (unat count) (drop 1 ids)))"
    using ids len by (intro id_scan_set) simp
  then show ?thesis using ids by (simp add: id_listed_def listed_def)
qed

lemma block_filtered_eq:
  assumes "filter_ok (FilteredProcessIds c)" "filter_ok (FilteredConnectionIds c)"
  shows "block_filtered c b =
     Inr (listed (FilteredProcessIds c) (ProcessId b) \<or>
          listed (FilteredConnectionIds c) (ConnectionId b))"
proof -
  have p: "(case FilteredProcessIds c of None \<Rightarrow> Inr False
            | Some ids \<Rightarrow> id_listed ids (ProcessId b)) =
           Inr (listed (FilteredProcessIds c) (ProcessId b))"
    using assms(1) id_listed_eq by (cases "FilteredProcessIds c") (simp_all add: listed_def)
  have q: "(case FilteredConnectionIds c of None \<Rightarrow> Inr False
            | Some ids \<Rightarrow> id_listed ids (ConnectionId b)) =
           Inr (listed (FilteredConnectionIds c) (ConnectionId b))"
    using assms(2) id_listed_eq by (cases "FilteredConnectionIds c") (simp_all add: listed_def)
  show ?thesis unfolding block_filtered_def p q by simp
qed


lemma unat_add_bound:
  fixes a b c :: u32
  shows "unat a + unat b \<le> unat c \<Longrightarrow> unat (a + b) = unat a + unat b"
  using unsigned_less[of c, where ?'a = nat] by (simp add: unat_add_lem[THEN iffD1])

lemma length_wr32: "off + 4 \<le> length bs \<Longrightarrow> length (wr32 bs off v) = length bs"
  by (simp add: wr32_def)

lemma rd32_wr32_other:
  assumes "off + 4 \<le> length bs" "off' + 4 \<le> off \<or> off + 4 \<le> off'"
  shows "rd32 (wr32 bs off v) off' = rd32 bs off'"
proof -
  have "read_bytes (wr32 bs off v) off' 4 = read_bytes bs off' 4"
    using assms by (auto simp: read_bytes_def wr32_def drop_take)
  then show ?thesis by (simp add: rd32_def)
qed

lemma rd32_take:
  "off + 4 \<le> n \<Longrightarrow> n \<le> length bs \<Longrightarrow> rd32 (take n bs) off = rd32 bs off"
  by (simp add: rd32_def read_bytes_def drop_take)

lemma TrimBlock_plain:
  assumes lay: "layout_ok lay" and bok: "block_ok lay c b" and pk: "BlockType b = PacketBlock"
    and nt: "\<not> truncated lay c b" and sc: "same_config c c0"
  shows "TrimBlock lay c0 b = Inr c0"
proof -
  have "HdrCapturedLength lay + 4 \<le> length (blockData b)"
    using lay bok pk by (simp add: layout_ok_def block_ok_def)
  then obtain cap where cap: "rd32 (blockData b) (HdrCapturedLength lay) = Some cap"
    using rd32_Some by blast
  have "\<not> (SnapLength c0 \<noteq> 0 \<and> cap > SnapLength c0)"
    using nt pk cap same_config_fields(1)[OF sc] by (simp add: truncated_def)
  then show ?thesis using cap by (auto simp: TrimBlock_def)
qed

lemma TrimBlock_truncated:
  assumes lay: "layout_ok lay" and bok: "block_ok lay c b" and pk: "BlockType b = PacketBlock"
    and tr: "truncated lay c b" and sc: "same_config c c0"
  shows "\<exists>c1. TrimBlock lay c0 b = Inr c1 \<and> same_config c c1 \<and> trimming lay c1 \<and>
           length (ModifiedHeader c1) = unat (HeaderSize lay) \<and> held_ok lay c1 b 0 \<and>
           view lay c1 b = delivered lay c b"
proof -
  let ?h = "unat (HeaderSize lay)" and ?f = "unat (FooterSize lay)"
  let ?bl = "unat (BlockLength b)" and ?s = "unat (SnapLength c)" and ?pad = "unat (SnapLengthPad c)"
  let ?data = "blockData b"
  note cf = same_config_fields[OF sc]
  have len: "length ?data = ?bl" and hf: "?h + ?f \<le> ?bl"
    and bl: "rd32 ?data (HdrBlockLength lay) = Some (BlockLength b)"
    and ty: "rd32 ?data (HdrBlockType lay) \<noteq> Some 0"
    and fit: "?h + ?s + ?pad + ?f \<le> ?bl"
    using bok pk tr by (simp_all add: block_ok_def truncated_length_def)
  have lo: "HdrBlockType lay + 4 \<le> ?h" "HdrBlockLength lay + 4 \<le> ?h"
    "HdrCapturedLength lay + 4 \<le> ?h" "FtrBlockLength lay + 4 \<le> ?f"
    "HdrBlockType lay + 4 \<le> HdrBlockLength lay \<or> HdrBlockLength lay + 4 \<le> HdrBlockType lay"
    "HdrBlockType lay + 4 \<le> HdrCapturedLength lay \<or> HdrCapturedLength lay + 4 \<le> HdrBlockType lay"
    using lay by (simp_all add: layout_ok_def)
  obtain cap where cap: "rd32 ?data (HdrCapturedLength lay) = Some cap"
     "SnapLength c \<noteq> 0" "cap > SnapLength c"
    using tr by (auto simp: truncated_def split: option.splits)
  let ?dataEnd = "HeaderSize lay + SnapLength c"
  let ?modFooter = "?dataEnd + SnapLengthPad c"
  let ?origFooter = "BlockLength b - FooterSize lay"
  let ?newLength = "?modFooter + FooterSize lay"
  have u1: "unat ?dataEnd = ?h + ?s"
    using fit by (intro unat_add_bound[of _ _ "BlockLength b"]) simp
  have u2: "unat ?modFooter = ?h + ?s + ?pad"
    using fit u1 by (simp add: unat_add_bound[of _ _ "BlockLength b"])
  have fle: "FooterSize lay \<le> BlockLength b" using hf by (simp add: word_le_nat_alt)
  have u3: "unat ?origFooter = ?bl - ?f" using fle by (simp add: unat_sub)
  have nl: "?newLength = of_nat (truncated_length lay c)"
    by (simp add: truncated_length_def)
  have r1: "read_bytes ?data 0 ?h = Some (take ?h ?data)"
    using len hf by (simp add: read_bytes_def)
  have r2: "read_bytes ?data (unat ?origFooter) ?f = Some (take ?f (drop (?bl - ?f) ?data))"
    using len hf u3 by (simp add: read_bytes_def)
  let ?hdr = "wr32 (wr32 (take ?h ?data) (HdrBlockLength lay) ?newLength)
                 (HdrCapturedLength lay) (SnapLength c)"
  let ?ftr = "wr32 (take ?f (drop (?bl - ?f) ?data)) (FtrBlockLength lay) ?newLength"
  define c1 where "c1 = c0\<lparr>DataEndOffset := ?dataEnd, ModifiedFooterOffset := ?modFooter,
      OriginalFooterOffset := ?origFooter, ModifiedHeader := ?hdr, ModifiedFooter := ?ftr\<rparr>"
  have tb: "TrimBlock lay c0 b = Inr c1"
    using cap bl r1 r2 cf(1,2) by (simp add: TrimBlock_def Let_def c1_def)
  have sc1: "same_config c c1"
  proof -
    have "same_config c0 c1" by (simp add: same_config_def c1_def)
    with sc show ?thesis by (rule same_config_trans)
  qed
  have lh0: "length (take ?h ?data) = ?h" using len hf by simp
  have lh1: "length (wr32 (take ?h ?data) (HdrBlockLength lay) ?newLength) = ?h"
    using lh0 lo by (simp add: length_wr32)
  have lh: "length ?hdr = ?h" using lh1 lo by (simp add: length_wr32)
  have lf: "length ?ftr = ?f" using len hf lo by (simp add: length_wr32)
  have "rd32 ?hdr (HdrBlockType lay) = rd32 (take ?h ?data) (HdrBlockType lay)"
    using lh0 lh1 lo by (simp add: rd32_wr32_other)
  also have "\<dots> = rd32 ?data (HdrBlockType lay)"
    using lo len hf by (simp add: rd32_take)
  finally have "rd32 ?hdr (HdrBlockType lay) = rd32 ?data (HdrBlockType lay)" .
  moreover obtain t where "rd32 ?data (HdrBlockType lay) = Some t"
    using rd32_Some[of "HdrBlockType lay" ?data] lo len hf by auto
  ultimately have trm: "trimming lay c1" using ty by (simp add: trimming_def c1_def)
  have ho: "held_ok lay c1 b 0"
    using trm len lf u1 u2 u3 fit by (simp add: held_ok_def c1_def)
  have vw: "view lay c1 b = delivered lay c b"
    using trm tr u1 u2 nl by (simp add: view_def delivered_def c1_def)
  show ?thesis using tb sc1 trm lh ho vw by (auto simp: c1_def)
qed


lemma config_ok_same:
  assumes "same_config c c'" "config_ok lay c" "length (ModifiedHeader c') = unat (HeaderSize lay)"
  shows "config_ok lay c'"
  using assms same_config_fields[OF assms(1)] by (simp add: config_ok_def)

lemma AcquireBlock_dequeue:
  assumes lay: "layout_ok lay" and cfg: "config_ok lay (ctx s)"
    and nr: "RestartRequested (ctx s) \<noteq> 1"
    and q: "Queue (qm s) = b # bs" and bok: "block_ok lay (ctx s) b"
  shows "if suppressed (ctx s) b
         then \<exists>s'. AcquireBlock lay s = Inr (AcqContinue s') \<and>
                readBuffer s' = readBuffer s \<and> readOffset s' = readOffset s \<and>
                blockNode s' = None \<and> blockOffset s' = 0 \<and>
                qm s' = QmCleanupBlock b ((qm s)\<lparr>Queue := bs\<rparr>) \<and>
                same_config (ctx s) (ctx s') \<and> config_ok lay (ctx s')
         else \<exists>s'. AcquireBlock lay s = Inr (AcqBlock s' b) \<and>
                readBuffer s' = readBuffer s \<and> readOffset s' = readOffset s \<and>
                blockNode s' = Some b \<and> blockOffset s' = 0 \<and>
                qm s' = (qm s)\<lparr>Queue := bs\<rparr> \<and>
                same_config (ctx s) (ctx s') \<and> config_ok lay (ctx s') \<and>
                held_ok lay (ctx s') b 0 \<and>
                rest_of_block lay (ctx s') (Some b) 0 = delivered lay (ctx s) b"
proof -
  let ?c = "ctx s"
  define c0 where "c0 = ?c\<lparr>ModifiedHeader := wr32 (ModifiedHeader ?c) (HdrBlockType lay) 0\<rparr>"
  define s0 where "s0 = s\<lparr>blockNode := Some b, blockOffset := 0,
                          qm := (qm s)\<lparr>Queue := bs\<rparr>, ctx := c0\<rparr>"
  have mh: "length (ModifiedHeader ?c) = unat (HeaderSize lay)"
    and fo: "filter_ok (FilteredProcessIds ?c)" "filter_ok (FilteredConnectionIds ?c)"
    using cfg by (simp_all add: config_ok_def)
  have ty: "HdrBlockType lay + 4 \<le> length (ModifiedHeader ?c)"
    using lay mh by (simp add: layout_ok_def)
  have sc0: "same_config ?c c0" by (simp add: same_config_def c0_def)
  have mh0: "length (ModifiedHeader c0) = unat (HeaderSize lay)"
    using mh ty by (simp add: c0_def length_wr32)
  have cfg0: "config_ok lay c0" using config_ok_same[OF sc0 cfg mh0] .
  have nt0: "\<not> trimming lay c0"
    using ty by (simp add: trimming_def c0_def rd32_wr32_same)
  have dq: "QmDequeueBlock (qm s) = (Some b, (qm s)\<lparr>Queue := bs\<rparr>)"
    using q by (simp add: QmDequeueBlock_def)
  have len: "length (blockData b) = unat (BlockLength b)" using bok by (simp add: block_ok_def)
  have plain: "held_ok lay c0 b 0" "rest_of_block lay c0 (Some b) 0 = blockData b"
    using nt0 len by (simp_all add: held_ok_def rest_of_block_def view_def view_pos_def)
  note ad = AcquireBlock_def Let_def
  show ?thesis
  proof (cases "BlockType b = PacketBlock")
    case False
    then have ns: "\<not> suppressed ?c b" by (simp add: suppressed_def)
    have "AcquireBlock lay s = Inr (AcqBlock s0 b)"
      using nr dq False by (simp add: ad c0_def s0_def)
    moreover have "delivered lay ?c b = blockData b"
      using False by (simp add: delivered_def truncated_def)
    ultimately show ?thesis using ns plain sc0 cfg0 by (simp add: s0_def)
  next
    case pk: True
    have bf: "block_filtered c0 b = Inr (suppressed ?c b)"
      using block_filtered_eq[of c0 b] fo pk same_config_fields(5,6)[OF sc0]
      by (simp add: suppressed_def)
    show ?thesis
    proof (cases "suppressed ?c b")
      case True
      have "AcquireBlock lay s = Inr (AcqContinue
           (s0\<lparr>qm := QmCleanupBlock b ((qm s)\<lparr>Queue := bs\<rparr>), blockNode := None\<rparr>))"
        using nr dq pk bf[unfolded c0_def] True by (simp add: ad c0_def s0_def)
      then show ?thesis using True sc0 cfg0 by (simp add: s0_def)
    next
      case ns: False
      show ?thesis
      proof (cases "truncated lay ?c b")
        case False
        note tb = TrimBlock_plain[OF lay bok pk False sc0]
        have "AcquireBlock lay s = Inr (AcqBlock s0 b)"
          using nr dq pk bf[unfolded c0_def] ns tb[unfolded c0_def]
          by (simp add: ad c0_def s0_def)
        moreover have "delivered lay ?c b = blockData b" using False by (simp add: delivered_def)
        ultimately show ?thesis using ns plain sc0 cfg0 by (simp add: s0_def)
      next
        case True
        from TrimBlock_truncated[OF lay bok pk True sc0] obtain c1 where
          c1: "TrimBlock lay c0 b = Inr c1" "same_config ?c c1" "trimming lay c1"
            "length (ModifiedHeader c1) = unat (HeaderSize lay)" "held_ok lay c1 b 0"
            "view lay c1 b = delivered lay ?c b"
          by blast
        have "AcquireBlock lay s = Inr (AcqBlock (s0\<lparr>ctx := c1\<rparr>) b)"
          using nr dq pk bf[unfolded c0_def] ns c1(1)[unfolded c0_def]
          by (simp add: ad c0_def s0_def)
        moreover have "rest_of_block lay c1 (Some b) 0 = delivered lay ?c b"
          using c1(6) by (simp add: rest_of_block_def view_pos_def)
        moreover have "config_ok lay c1" using config_ok_same[OF c1(2) cfg c1(4)] .
        ultimately show ?thesis using ns c1 by (simp add: s0_def)
      qed
    qed
  qed
qed

subsection \<open>The loop delivers the stream\<close>

text \<open>From a well-formed state with no restart requested, the loop ends without a fault,
  having stored the next bytes of what was pending, as many as fit and no more than
  there are, and what is pending afterwards is the rest.\<close>

lemma advanced_refl: "advanced lay s s 0"
  by (simp add: advanced_def same_config_refl)

lemma advanced_trans:
  assumes "advanced lay s s' k" "advanced lay s' s'' k'"
  shows "advanced lay s s'' (k + k')"
proof -
  have "take (k + k') (pending lay s) = take k (pending lay s) @ take k' (drop k (pending lay s))"
    by (simp add: take_add)
  moreover have "drop (k + k') (pending lay s) = drop k' (drop k (pending lay s))"
    by (simp add: add.commute)
  moreover have "k + k' \<le> length (pending lay s)"
  proof -
    have "k \<le> length (pending lay s)" "k' \<le> length (pending lay s) - k"
      using assms by (simp_all add: advanced_def)
    then show ?thesis by arith
  qed
  ultimately show ?thesis
    using assms same_config_trans[of "ctx s" "ctx s'" "ctx s''"]
    by (simp add: advanced_def)
qed

lemma stream_Cons:
  "stream lay c (b # bs) = (if suppressed c b then stream lay c bs
                            else delivered lay c b @ stream lay c bs)"
  by (simp add: stream_def)

lemma CopyBlock_advanced:
  assumes lay: "layout_ok lay" and cfg: "config_ok lay (ctx s)"
    and qok: "queue_ok lay (ctx s) (Queue (qm s))"
    and bn: "blockNode s = Some b"
    and held: "held_ok lay (ctx s) b (blockOffset s)"
    and ro: "readOffset s < rl"
  shows "\<exists>s' k. CopyBlock lay rl b s = Inr s' \<and> advanced lay s s' k \<and> loop_ok lay rl s' \<and>
            k \<le> unat rl - unat (readOffset s) \<and>
            (blockNode s' = None \<or> k = unat rl - unat (readOffset s))"
proof -
  let ?R = "rest_of_block lay (ctx s) (Some b) (blockOffset s)"
  let ?rem = "unat rl - unat (readOffset s)"
  let ?k = "min ?rem (length ?R)"
  have mh: "length (ModifiedHeader (ctx s)) = unat (HeaderSize lay)"
    using cfg by (simp add: config_ok_def)
  from CopyBlock_correct[OF lay mh held ro] obtain s' where
    s': "CopyBlock lay rl b s = Inr s'"
      "readBuffer s' = readBuffer s @ take ?rem ?R"
      "unat (readOffset s') = unat (readOffset s) + ?k"
      "ctx s' = ctx s"
      "if length ?R \<le> ?rem
       then blockNode s' = None \<and> qm s' = QmCleanupBlock b (qm s) \<and> blockOffset s' = 0
       else blockNode s' = blockNode s \<and> qm s' = qm s \<and>
           held_ok lay (ctx s) b (blockOffset s') \<and>
           unat (blockOffset s') < unat (BlockLength b) \<and>
           rest_of_block lay (ctx s) (Some b) (blockOffset s') = drop ?rem ?R"
    by blast
  have P: "pending lay s = ?R @ stream lay (ctx s) (Queue (qm s))"
    using bn by (simp add: pending_def)
  have tk: "take ?k (pending lay s) = take ?rem ?R" using P by (simp add: min_def)
  have rol: "unat (readOffset s) \<le> unat rl" using ro by (simp add: word_less_nat_alt)
  have ro': "readOffset s' \<le> rl" using s'(3) rol by (simp add: word_le_nat_alt)
  show ?thesis
  proof (cases "length ?R \<le> ?rem")
    case True
    then have e: "blockNode s' = None" "qm s' = QmCleanupBlock b (qm s)" using s'(5) by simp_all
    have k: "?k = length ?R" using True by simp
    have "pending lay s' = drop ?k (pending lay s)"
      using e s'(4) P k by (simp add: pending_def rest_of_block_def QmCleanupBlock_def)
    then have "advanced lay s s' ?k"
      using s' e bn tk P
      by (simp add: advanced_def same_config_refl holding_def QmCleanupBlock_def)
    moreover have "loop_ok lay rl s'"
      using e s'(4) cfg qok ro' by (simp add: loop_ok_def QmCleanupBlock_def)
    ultimately show ?thesis using s'(1) e by auto
  next
    case False
    then have e: "blockNode s' = Some b" "qm s' = qm s"
      "held_ok lay (ctx s) b (blockOffset s')" "unat (blockOffset s') < unat (BlockLength b)"
      "rest_of_block lay (ctx s) (Some b) (blockOffset s') = drop ?rem ?R"
      using s'(5) bn by simp_all
    have k: "?k = ?rem" using False by simp
    have "pending lay s' = drop ?k (pending lay s)"
      using e s'(4) P k False by (simp add: pending_def)
    then have "advanced lay s s' ?k"
      using s' e bn tk P
      by (simp add: advanced_def same_config_refl holding_def)
    moreover have "loop_ok lay rl s'"
      using e s'(4) cfg qok ro' by (simp add: loop_ok_def)
    ultimately show ?thesis using s'(1) k by auto
  qed
qed

lemma ReadBody_stream:
  assumes lay: "layout_ok lay" and inv: "loop_ok lay rl s"
    and nr: "RestartRequested (ctx s) \<noteq> 1" and ro: "readOffset s < rl"
  shows "(\<exists>s'. ReadBody lay rl s = Inr (Break s') \<and> advanced lay s s' 0 \<and> loop_ok lay rl s' \<and>
               pending lay s = []) \<or>
         (\<exists>s' k. ReadBody lay rl s = Inr (Continue s') \<and> advanced lay s s' k \<and>
               loop_ok lay rl s' \<and> k \<le> unat rl - unat (readOffset s))"
proof (cases "blockNode s")
  case (Some b)
  have cfg: "config_ok lay (ctx s)" and qok: "queue_ok lay (ctx s) (Queue (qm s))"
    and held: "held_ok lay (ctx s) b (blockOffset s)"
    using inv Some by (simp_all add: loop_ok_def)
  from CopyBlock_advanced[OF lay cfg qok Some held ro] obtain s' k where
    "CopyBlock lay rl b s = Inr s'" "advanced lay s s' k" "loop_ok lay rl s'"
    "k \<le> unat rl - unat (readOffset s)" by blast
  moreover from this have "ReadBody lay rl s = Inr (Continue s')"
    using Some by (simp add: ReadBody_def)
  ultimately show ?thesis by blast
next
  case None
  have cfg: "config_ok lay (ctx s)" and qok: "queue_ok lay (ctx s) (Queue (qm s))"
    and rol: "readOffset s \<le> rl"
    using inv by (simp_all add: loop_ok_def)
  show ?thesis
  proof (cases "Queue (qm s)")
    case Nil
    let ?s' = "s\<lparr>blockNode := None, blockOffset := 0, qm := qm s\<rparr>"
    have "AcquireBlock lay s = Inr (AcqBreak ?s')"
      using nr Nil by (simp add: AcquireBlock_def QmDequeueBlock_def)
    then have "ReadBody lay rl s = Inr (Break ?s')" using None by (simp add: ReadBody_def)
    moreover have p: "pending lay s = []"
      using None Nil by (simp add: pending_def rest_of_block_def stream_def)
    moreover have "advanced lay s ?s' 0"
      using None Nil p
      by (simp add: advanced_def same_config_refl holding_def pending_def rest_of_block_def)
    moreover have "loop_ok lay rl ?s'" using inv by (simp add: loop_ok_def)
    ultimately show ?thesis by blast
  next
    case (Cons b bs)
    have bok: "block_ok lay (ctx s) b" and qbs: "queue_ok lay (ctx s) bs"
      using qok Cons by (simp_all add: queue_ok_def)
    note acq = AcquireBlock_dequeue[OF lay cfg nr Cons bok]
    show ?thesis
    proof (cases "suppressed (ctx s) b")
      case True
      then obtain s' where s': "AcquireBlock lay s = Inr (AcqContinue s')"
         "readBuffer s' = readBuffer s" "readOffset s' = readOffset s"
         "blockNode s' = None" "blockOffset s' = 0"
         "qm s' = QmCleanupBlock b ((qm s)\<lparr>Queue := bs\<rparr>)"
         "same_config (ctx s) (ctx s')" "config_ok lay (ctx s')"
        using acq by auto
      note sc = same_config_stream[OF s'(7)]
      have rb: "ReadBody lay rl s = Inr (Continue s')"
        using None s'(1) by (simp add: ReadBody_def)
      have P: "pending lay s = stream lay (ctx s) bs"
        using None Cons True by (simp add: pending_def rest_of_block_def stream_Cons)
      have P': "pending lay s' = stream lay (ctx s) bs"
        using s' sc by (simp add: pending_def rest_of_block_def QmCleanupBlock_def)
      have "advanced lay s s' 0"
        using s' P P' None Cons by (simp add: advanced_def holding_def QmCleanupBlock_def)
      moreover have "loop_ok lay rl s'"
        using s' sc qbs rol by (simp add: loop_ok_def QmCleanupBlock_def)
      ultimately show ?thesis using rb by blast
    next
      case False
      then obtain s1 where s1: "AcquireBlock lay s = Inr (AcqBlock s1 b)"
          "readBuffer s1 = readBuffer s" "readOffset s1 = readOffset s"
          "blockNode s1 = Some b" "blockOffset s1 = 0"
          "qm s1 = (qm s)\<lparr>Queue := bs\<rparr>"
          "same_config (ctx s) (ctx s1)" "config_ok lay (ctx s1)"
          "held_ok lay (ctx s1) b 0"
          "rest_of_block lay (ctx s1) (Some b) 0 = delivered lay (ctx s) b"
        using acq by auto
      note sc = same_config_stream[OF s1(7)]
      have P: "pending lay s = delivered lay (ctx s) b @ stream lay (ctx s) bs"
        using None Cons False by (simp add: pending_def rest_of_block_def stream_Cons)
      have P1: "pending lay s1 = pending lay s"
        using s1 sc P by (simp add: pending_def)
      have a1: "advanced lay s s1 0"
        using s1 P1 None Cons by (simp add: advanced_def holding_def)
      have q1: "queue_ok lay (ctx s1) (Queue (qm s1))" using s1(6) sc qbs by simp
      have h1: "held_ok lay (ctx s1) b (blockOffset s1)" using s1(5,9) by simp
      have ro1: "readOffset s1 < rl" using s1(3) ro by simp
      from CopyBlock_advanced[OF lay s1(8) q1 s1(4) h1 ro1] obtain s' k where
        s': "CopyBlock lay rl b s1 = Inr s'" "advanced lay s1 s' k" "loop_ok lay rl s'"
        "k \<le> unat rl - unat (readOffset s1)" by blast
      have "ReadBody lay rl s = Inr (Continue s')"
        using None s1(1) s'(1) by (simp add: ReadBody_def)
      moreover have "advanced lay s s' k" using advanced_trans[OF a1 s'(2)] by simp
      ultimately show ?thesis using s'(3,4) s1(3) by auto
    qed
  qed
qed

lemma ReadLoop_stream:
  "layout_ok lay \<Longrightarrow> loop_ok lay rl s \<Longrightarrow> RestartRequested (ctx s) \<noteq> 1 \<Longrightarrow>
   \<exists>s'. ReadLoop lay rl s = Inr s' \<and> loop_ok lay rl s' \<and>
        advanced lay s s' (min (unat rl - unat (readOffset s)) (length (pending lay s)))"
proof (induction lay rl s rule: ReadLoop.induct)
  case (1 lay rl s)
  let ?rem = "unat rl - unat (readOffset s)"
  show ?case
  proof (cases "readOffset s < rl")
    case False
    then have "ReadLoop lay rl s = Inr s" by simp
    moreover have "?rem = 0" using False by (simp add: word_less_nat_alt)
    ultimately show ?thesis using "1.prems" advanced_refl by simp
  next
    case True
    from ReadBody_stream[OF "1.prems"(1,2,3) True]
    show ?thesis
    proof (elim disjE exE conjE)
      fix s'
      assume b: "ReadBody lay rl s = Inr (Break s')" "advanced lay s s' 0" "loop_ok lay rl s'"
        "pending lay s = []"
      have "ReadLoop lay rl s = Inr s'" using True b(1) by simp
      then show ?thesis using b by simp
    next
      fix s' k
      assume c: "ReadBody lay rl s = Inr (Continue s')" "advanced lay s s' k" "loop_ok lay rl s'"
        "k \<le> ?rem"
      have nr': "RestartRequested (ctx s') \<noteq> 1"
        using c(2) "1.prems"(3) same_config_fields(4)[of "ctx s" "ctx s'"]
        by (simp add: advanced_def)
      from "1.IH"[OF True c(1) refl "1.prems"(1) c(3) nr'] obtain s'' where
        s'': "ReadLoop lay rl s' = Inr s''" "loop_ok lay rl s''"
          "advanced lay s' s'' (min (unat rl - unat (readOffset s')) (length (pending lay s')))"
        by blast
      have e: "ReadLoop lay rl s = Inr s''" using True c(1) s''(1) by simp
      have ro': "unat (readOffset s') = unat (readOffset s) + k"
        and kl: "k \<le> length (pending lay s)"
        and p': "pending lay s' = drop k (pending lay s)"
        using c(2) by (simp_all add: advanced_def)
      have lp: "length (pending lay s') = length (pending lay s) - k" using p' by simp
      have "k + min (unat rl - unat (readOffset s')) (length (pending lay s')) =
            min ?rem (length (pending lay s))"
        unfolding lp ro' using kl c(4) by arith
      then show ?thesis using e s''(2) advanced_trans[OF c(2) s''(3)] by simp
    qed
  qed
qed

subsection \<open>What the loop leaves alone\<close>

lemma TrimBlock_same_config: "TrimBlock lay c b = Inr c' \<Longrightarrow> same_config c c'"
  by (auto simp: TrimBlock_def same_config_def Let_def split: option.splits if_splits)

lemma AcquireBlock_frame:
  assumes "AcquireBlock lay s = Inr a" "blockNode s = None"
  shows "case a of
           AcqBreak s' \<Rightarrow> framed s s' \<and> readOffset s' = readOffset s \<and> blockNode s' = None \<and>
                          (ctx s' = ctx s \<or> restart_taken s s')
         | AcqContinue s' \<Rightarrow> framed s s' \<and> readOffset s' = readOffset s \<and>
                          blockNode s' = None \<and> same_config (ctx s) (ctx s')
         | AcqBlock s' b \<Rightarrow> framed s s' \<and> readOffset s' = readOffset s \<and>
                          blockNode s' = Some b \<and> same_config (ctx s) (ctx s')"
proof (cases "RestartRequested (ctx s) = 1")
  case True
  then show ?thesis using assms
    by (auto simp: AcquireBlock_def framed_def restart_taken_def holding_def)
next
  case False
  show ?thesis
  proof (cases "Queue (qm s)")
    case Nil
    then show ?thesis using assms False
      by (auto simp: AcquireBlock_def QmDequeueBlock_def framed_def holding_def)
  next
    case (Cons b bs)
    let ?c0 = "(ctx s)\<lparr>ModifiedHeader := wr32 (ModifiedHeader (ctx s)) (HdrBlockType lay) 0\<rparr>"
    have sc0: "same_config (ctx s) ?c0" by (simp add: same_config_def)
    have t: "\<And>c1. TrimBlock lay ?c0 b = Inr c1 \<Longrightarrow> same_config (ctx s) c1"
      using same_config_trans[OF sc0 TrimBlock_same_config] by blast
    show ?thesis using assms False Cons sc0 t
      by (auto simp: AcquireBlock_def QmDequeueBlock_def QmCleanupBlock_def framed_def
            holding_def Let_def split: if_splits sum.splits)
  qed
qed

lemma CopyBlock_frame:
  assumes "CopyBlock lay rl b s = Inr s'" "blockNode s = Some b"
  shows "framed s s'" "ctx s' = ctx s"
proof -
  have r: "framed t (ReleaseIfDone b t) \<and> ctx (ReleaseIfDone b t) = ctx t"
    if "blockNode t = Some b" for t
    using that by (simp add: ReleaseIfDone_def framed_def holding_def QmCleanupBlock_def)
  have c: "\<And>src off n t t'. CopyToReader src off n t = Inr t' \<Longrightarrow>
      qm t' = qm t \<and> ctx t' = ctx t \<and> blockNode t' = blockNode t"
    by (auto simp: CopyToReader_def split: option.splits)
  have h: "\<And>t t'. CopyHeader lay rl t = Inr t' \<Longrightarrow>
      qm t' = qm t \<and> ctx t' = ctx t \<and> blockNode t' = blockNode t"
    using c by (auto simp: CopyHeader_def split: if_splits)
  have d: "\<And>t t'. CopyData lay rl b t = Inr t' \<Longrightarrow>
      qm t' = qm t \<and> ctx t' = ctx t \<and> blockNode t' = blockNode t"
    using c by (auto simp: CopyData_def split: if_splits)
  have p: "\<And>t. qm (CopyPadding rl t) = qm t \<and> ctx (CopyPadding rl t) = ctx t \<and>
      blockNode (CopyPadding rl t) = blockNode t"
    by (simp add: CopyPadding_def Let_def)
  have f: "\<And>t t'. CopyFooter rl (BlockLength b) t = Inr t' \<Longrightarrow>
      qm t' = qm t \<and> ctx t' = ctx t \<and> blockNode t' = blockNode t"
    using c by (auto simp: CopyFooter_def split: if_splits)
  obtain t where t: "s' = ReleaseIfDone b t" "qm t = qm s" "ctx t = ctx s" "blockNode t = blockNode s"
  proof (cases "rd32 (ModifiedHeader (ctx s)) (HdrBlockType lay) = Some 0")
    case True
    then obtain s1 where "CopyToReader (blockData b) (unat (blockOffset s))
        (min (rl - readOffset s) (BlockLength b - blockOffset s)) s = Inr s1" "s' = ReleaseIfDone b s1"
      using assms(1) by (auto simp: CopyBlock_def split: sum.splits)
    then show ?thesis using c that by blast
  next
    case False
    then obtain s1 s2 s4 where
      "CopyHeader lay rl s = Inr s1" "CopyData lay rl b s1 = Inr s2"
      "CopyFooter rl (BlockLength b) (CopyPadding rl s2) = Inr s4" "s' = ReleaseIfDone b s4"
      using assms(1) by (auto simp: CopyBlock_def split: sum.splits option.splits if_splits)
    then show ?thesis using h[of s s1] d[of s1 s2] p[of s2] f[of "CopyPadding rl s2" s4] that
      by simp
  qed
  have "framed t s'" "ctx s' = ctx t" using r[of t] t assms(2) by simp_all
  then show "framed s s'" "ctx s' = ctx s" using t assms(2) by (simp_all add: framed_def holding_def)
qed


lemma framed_trans: "framed s s' \<Longrightarrow> framed s' s'' \<Longrightarrow> framed s s''"
  by (simp add: framed_def)

lemma framed_refl: "framed s s"
  by (simp add: framed_def)

lemma restart_outcome_same:
  assumes "same_config c c1" "restart_outcome c1 s'"
  shows "restart_outcome c s'"
proof -
  let ?u = "\<lambda>x. x\<lparr>RestartRequested := 0,
                      RestartState := (if readOffset s' \<noteq> 0 then RestartStateSendEof
                                       else RestartStateInit)\<rparr>"
  obtain mh mf de mo oo where e: "c1 = c\<lparr>ModifiedHeader := mh, ModifiedFooter := mf,
             DataEndOffset := de, ModifiedFooterOffset := mo, OriginalFooterOffset := oo\<rparr>"
    using assms(1) unfolding same_config_def by blast
  have "same_config (?u c) (?u c1)" unfolding e by (simp add: same_config_def)
  moreover have "same_config (?u c1) (ctx s')" using assms(2) by (simp add: restart_outcome_def)
  ultimately have "same_config (?u c) (ctx s')" by (rule same_config_trans)
  then show ?thesis
    using assms(2) same_config_fields(4)[OF assms(1)] by (simp add: restart_outcome_def)
qed

lemma ReadBody_frame:
  assumes "ReadBody lay rl s = Inr r"
  shows "case r of
           Continue s' \<Rightarrow> framed s s' \<and> same_config (ctx s) (ctx s')
         | Break s' \<Rightarrow> framed s s' \<and> readOffset s' = readOffset s \<and>
              (same_config (ctx s) (ctx s') \<or> restart_outcome (ctx s) s')"
proof (cases "blockNode s")
  case (Some b)
  then obtain s' where s': "CopyBlock lay rl b s = Inr s'" "r = Continue s'"
    using assms by (auto simp: ReadBody_def split: sum.splits)
  from CopyBlock_frame[OF s'(1) Some] s'(2) show ?thesis by (simp add: same_config_refl)
next
  case None
  then obtain a where a: "AcquireBlock lay s = Inr a"
    using assms by (auto simp: ReadBody_def split: sum.splits)
  note fr = AcquireBlock_frame[OF a None]
  show ?thesis
  proof (cases a)
    case (AcqBreak s')
    then have r: "r = Break s'" using assms None a by (simp add: ReadBody_def)
    have "same_config (ctx s) (ctx s') \<or> restart_outcome (ctx s) s'"
      using fr AcqBreak
      by (auto simp: restart_taken_def restart_outcome_def same_config_refl)
    then show ?thesis using fr AcqBreak r by simp
  next
    case (AcqContinue s')
    then have r: "r = Continue s'" using assms None a by (simp add: ReadBody_def)
    then show ?thesis using fr AcqContinue by simp
  next
    case (AcqBlock s1 b)
    then obtain s' where s': "CopyBlock lay rl b s1 = Inr s'" "r = Continue s'"
      using assms None a by (auto simp: ReadBody_def split: sum.splits)
    have bn: "blockNode s1 = Some b" using fr AcqBlock by simp
    from CopyBlock_frame[OF s'(1) bn] fr AcqBlock s'(2)
    show ?thesis by (auto intro: framed_trans)
  qed
qed

lemma ReadLoop_frame:
  "ReadLoop lay rl s = Inr s' \<Longrightarrow>
     framed s s' \<and> (same_config (ctx s) (ctx s') \<or> restart_outcome (ctx s) s')"
proof (induction lay rl s rule: ReadLoop.induct)
  case (1 lay rl s)
  show ?case
  proof (cases "readOffset s < rl")
    case False
    then have "s' = s" using "1.prems" by simp
    then show ?thesis by (simp add: framed_refl same_config_refl)
  next
    case True
    then obtain r where r: "ReadBody lay rl s = Inr r"
      using "1.prems" by (auto split: sum.splits)
    note fr = ReadBody_frame[OF r]
    show ?thesis
    proof (cases r)
      case (Break t)
      then have "s' = t" using "1.prems" True r by simp
      then show ?thesis using fr Break by simp
    next
      case (Continue t)
      then have e: "ReadLoop lay rl t = Inr s'" using "1.prems" True r by simp
      from "1.IH"[OF True r Continue e] fr Continue
      show ?thesis
        by (auto intro: framed_trans same_config_trans restart_outcome_same)
    qed
  qed
qed

lemma ReadLoop_restart:
  assumes lay: "layout_ok lay" and inv: "loop_ok lay rl s"
    and fl: "RestartRequested (ctx s) = 1"
  shows "\<exists>s'. ReadLoop lay rl s = Inr s' \<and>
           readBuffer s' = readBuffer s @
             take (unat rl - unat (readOffset s))
                  (rest_of_block lay (ctx s) (blockNode s) (blockOffset s)) \<and>
           unat (readOffset s') = unat (readOffset s) +
             min (unat rl - unat (readOffset s))
                 (length (rest_of_block lay (ctx s) (blockNode s) (blockOffset s)))"
proof (cases "readOffset s < rl")
  case False
  then have "ReadLoop lay rl s = Inr s" by simp
  moreover have "unat rl - unat (readOffset s) = 0" using False by (simp add: word_less_nat_alt)
  ultimately show ?thesis by simp
next
  case True
  have brk: "ReadLoop lay rl t =
      Inr (t\<lparr>ctx := (ctx t)\<lparr>RestartRequested := 0,
                                   RestartState := (if readOffset t \<noteq> 0 then RestartStateSendEof
                                                    else RestartStateInit)\<rparr>\<rparr>)"
    if "blockNode t = None" "RestartRequested (ctx t) = 1" "readOffset t < rl" for t
  proof -
    have "ReadBody lay rl t = Inr (Break (t\<lparr>ctx := (ctx t)\<lparr>RestartRequested := 0,
                                   RestartState := (if readOffset t \<noteq> 0 then RestartStateSendEof
                                                    else RestartStateInit)\<rparr>\<rparr>))"
      using that by (simp add: ReadBody_def AcquireBlock_def)
    then show ?thesis using that(3) by (subst ReadLoop.simps) simp
  qed
  show ?thesis
  proof (cases "blockNode s")
    case None
    from brk[OF None fl True] None show ?thesis by (simp add: rest_of_block_def)
  next
    case (Some b)
    let ?R = "rest_of_block lay (ctx s) (Some b) (blockOffset s)"
    let ?rem = "unat rl - unat (readOffset s)"
    have cfg: "config_ok lay (ctx s)" and qok: "queue_ok lay (ctx s) (Queue (qm s))"
      and held: "held_ok lay (ctx s) b (blockOffset s)"
      using inv Some by (simp_all add: loop_ok_def)
    have mh: "length (ModifiedHeader (ctx s)) = unat (HeaderSize lay)"
      using cfg by (simp add: config_ok_def)
    from CopyBlock_correct[OF lay mh held True] obtain s1 where
      s1: "CopyBlock lay rl b s = Inr s1"
        "readBuffer s1 = readBuffer s @ take ?rem ?R"
        "unat (readOffset s1) = unat (readOffset s) + min ?rem (length ?R)"
        "ctx s1 = ctx s"
        "if length ?R \<le> ?rem
         then blockNode s1 = None \<and> qm s1 = QmCleanupBlock b (qm s) \<and> blockOffset s1 = 0
         else blockNode s1 = blockNode s \<and> qm s1 = qm s \<and>
           held_ok lay (ctx s) b (blockOffset s1) \<and>
           unat (blockOffset s1) < unat (BlockLength b) \<and>
           rest_of_block lay (ctx s) (Some b) (blockOffset s1) = drop ?rem ?R"
      by blast
    have rb: "ReadBody lay rl s = Inr (Continue s1)" using Some s1(1) by (simp add: ReadBody_def)
    have l1: "ReadLoop lay rl s = ReadLoop lay rl s1"
      using True rb by (subst ReadLoop.simps) simp
    have rol: "unat (readOffset s) < unat rl" using True by (simp add: word_less_nat_alt)
    show ?thesis
    proof (cases "readOffset s1 < rl")
      case False
      then have "ReadLoop lay rl s1 = Inr s1" by simp
      then show ?thesis using l1 s1 Some by simp
    next
      case T1: True
      then have "unat (readOffset s1) < unat rl" by (simp add: word_less_nat_alt)
      then have "length ?R < ?rem" using s1(3) by (simp add: min_def split: if_splits)
      then have "blockNode s1 = None" using s1(5) by simp
      from brk[OF this _ T1] fl s1(4)
      have "ReadLoop lay rl s1 = Inr (s1\<lparr>ctx := (ctx s1)\<lparr>RestartRequested := 0,
                                   RestartState := (if readOffset s1 \<noteq> 0 then RestartStateSendEof
                                                    else RestartStateInit)\<rparr>\<rparr>)"
        by simp
      then show ?thesis using l1 s1 Some by simp
    qed
  qed
qed

subsection \<open>One read call\<close>

lemma saved_cursor_simps:
  "trimming lay (c\<lparr>CurrentBlock := x, CurrentBlockOffset := y\<rparr>) = trimming lay c"
  "view lay (c\<lparr>CurrentBlock := x, CurrentBlockOffset := y\<rparr>) = view lay c"
  "view_pos lay (c\<lparr>CurrentBlock := x, CurrentBlockOffset := y\<rparr>) = view_pos lay c"
  "rest_of_block lay (c\<lparr>CurrentBlock := x, CurrentBlockOffset := y\<rparr>) = rest_of_block lay c"
  "held_ok lay (c\<lparr>CurrentBlock := x, CurrentBlockOffset := y\<rparr>) = held_ok lay c"
  "config_ok lay (c\<lparr>CurrentBlock := x, CurrentBlockOffset := y\<rparr>) = config_ok lay c"
  "stream lay (c\<lparr>CurrentBlock := x, CurrentBlockOffset := y\<rparr>) = stream lay c"
  "queue_ok lay (c\<lparr>CurrentBlock := x, CurrentBlockOffset := y\<rparr>) = queue_ok lay c"
proof -
  let ?c = "c\<lparr>CurrentBlock := x, CurrentBlockOffset := y\<rparr>"
  show t: "trimming lay ?c = trimming lay c" by (simp add: trimming_def)
  show v: "view lay ?c = view lay c" by (rule ext) (simp add: view_def t)
  show p: "view_pos lay ?c = view_pos lay c" by (rule ext) (simp add: view_pos_def t)
  show "rest_of_block lay ?c = rest_of_block lay c"
    by (rule ext, rule ext) (simp add: rest_of_block_def v p cong: option.case_cong)
  show "held_ok lay ?c = held_ok lay c" by (rule ext, rule ext) (simp add: held_ok_def t)
  show "config_ok lay ?c = config_ok lay c" by (simp add: config_ok_def)
  have s: "suppressed ?c = suppressed c" by (rule ext) (simp add: suppressed_def)
  have tr: "truncated lay ?c = truncated lay c"
    by (rule ext) (simp add: truncated_def cong: option.case_cong)
  have tl: "truncated_length lay ?c = truncated_length lay c" by (simp add: truncated_length_def)
  have d: "delivered lay ?c = delivered lay c" by (rule ext) (simp add: delivered_def tr tl)
  show "stream lay ?c = stream lay c" by (rule ext) (simp add: stream_def s d)
  have b: "block_ok lay ?c = block_ok lay c" by (rule ext) (simp add: block_ok_def tr tl)
  show "queue_ok lay ?c = queue_ok lay c" by (rule ext) (simp add: queue_ok_def b)
qed

lemma restart_state_simps:
  "trimming lay (c\<lparr>RestartState := x\<rparr>) = trimming lay c"
  "view lay (c\<lparr>RestartState := x\<rparr>) = view lay c"
  "view_pos lay (c\<lparr>RestartState := x\<rparr>) = view_pos lay c"
  "rest_of_block lay (c\<lparr>RestartState := x\<rparr>) = rest_of_block lay c"
  "held_ok lay (c\<lparr>RestartState := x\<rparr>) = held_ok lay c"
  "config_ok lay (c\<lparr>RestartState := x\<rparr>) = config_ok lay c"
  "stream lay (c\<lparr>RestartState := x\<rparr>) = stream lay c"
  "queue_ok lay (c\<lparr>RestartState := x\<rparr>) = queue_ok lay c"
  "context_ok lay (c\<lparr>RestartState := x\<rparr>) = context_ok lay c"
proof -
  let ?c = "c\<lparr>RestartState := x\<rparr>"
  show t: "trimming lay ?c = trimming lay c" by (simp add: trimming_def)
  show v: "view lay ?c = view lay c" by (rule ext) (simp add: view_def t)
  show p: "view_pos lay ?c = view_pos lay c" by (rule ext) (simp add: view_pos_def t)
  show "rest_of_block lay ?c = rest_of_block lay c"
    by (rule ext, rule ext) (simp add: rest_of_block_def v p cong: option.case_cong)
  show h: "held_ok lay ?c = held_ok lay c" by (rule ext, rule ext) (simp add: held_ok_def t)
  show cf: "config_ok lay ?c = config_ok lay c" by (simp add: config_ok_def)
  have s: "suppressed ?c = suppressed c" by (rule ext) (simp add: suppressed_def)
  have tr: "truncated lay ?c = truncated lay c"
    by (rule ext) (simp add: truncated_def cong: option.case_cong)
  have tl: "truncated_length lay ?c = truncated_length lay c" by (simp add: truncated_length_def)
  have d: "delivered lay ?c = delivered lay c" by (rule ext) (simp add: delivered_def tr tl)
  show "stream lay ?c = stream lay c" by (rule ext) (simp add: stream_def s d)
  have b: "block_ok lay ?c = block_ok lay c" by (rule ext) (simp add: block_ok_def tr tl)
  show "queue_ok lay ?c = queue_ok lay c" by (rule ext) (simp add: queue_ok_def b)
  show "context_ok lay ?c = context_ok lay c"
    by (simp add: context_ok_def cf h cong: option.case_cong)
qed

lemma same_config_view:
  assumes "same_config c c'"
  shows "SnapLength c' = SnapLength c \<and> SnapLengthPad c' = SnapLengthPad c \<and>
         FilteredProcessIds c' = FilteredProcessIds c \<and>
         FilteredConnectionIds c' = FilteredConnectionIds c \<and>
         RestartState c' = RestartState c \<and> RestartRequested c' = RestartRequested c"
  using same_config_fields[OF assms] by simp

lemma EnterLoop_ok:
  assumes "context_ok lay c" "queue_ok lay c (Queue q)"
  shows "loop_ok lay rl (EnterLoop c q)" "pending lay (EnterLoop c q) = available lay c q"
    "readBuffer (EnterLoop c q) = []" "readOffset (EnterLoop c q) = 0" "ctx (EnterLoop c q) = c"
  using assms
  by (auto simp: loop_ok_def EnterLoop_def context_ok_def pending_def available_def
        split: option.splits)

lemma LeaveLoop_ok:
  assumes "loop_ok lay rl s"
  shows "\<exists>c'. LeaveLoop s = CompleteRead STATUS_SUCCESS (readOffset s) (readBuffer s) (Some c') (qm s) \<and>
           c' = (ctx s)\<lparr>CurrentBlock := blockNode s, CurrentBlockOffset := blockOffset s\<rparr> \<and>
           context_ok lay c' \<and> queue_ok lay c' (Queue (qm s)) \<and>
           available lay c' (qm s) = pending lay s"
  using assms
  by (auto simp: loop_ok_def LeaveLoop_def context_ok_def pending_def available_def
        saved_cursor_simps split: option.splits)

lemma DispatchRead_stream:
  assumes lay: "layout_ok (Layout env)"
    and ok: "context_ok (Layout env) c"
    and qok: "queue_ok (Layout env) c (Queue (entry_qm env c q))"
    and nr: "RestartRequested c \<noteq> 1" and ns: "RestartState c \<noteq> RestartStateSendEof"
  shows "\<exists>d c'. DispatchRead env q
                  \<lparr>ReadFsContext2 = Some c, ReadSystemBufferNull = False, ReadLength = l\<rparr> = Inr d \<and>
           ReadStatus d = STATUS_SUCCESS \<and> ReadContextAfter d = Some c' \<and>
           ReadBytes d = take (unat l) (available (Layout env) c (entry_qm env c q)) \<and>
           unat (ReadInformation d) = length (ReadBytes d) \<and>
           available (Layout env) c' (ReadQmAfter d) =
             drop (unat l) (available (Layout env) c (entry_qm env c q)) \<and>
           context_ok (Layout env) c' \<and> queue_ok (Layout env) c' (Queue (ReadQmAfter d)) \<and>
           RestartState c' = RestartStateNormal \<and> RestartRequested c' = RestartRequested c \<and>
           SnapLength c' = SnapLength c \<and> SnapLengthPad c' = SnapLengthPad c \<and>
           FilteredProcessIds c' = FilteredProcessIds c \<and>
           FilteredConnectionIds c' = FilteredConnectionIds c"
proof -
  let ?lay = "Layout env"
  let ?c1 = "c\<lparr>RestartState := RestartStateNormal\<rparr>"
  let ?q1 = "entry_qm env c q"
  let ?A = "available ?lay c ?q1"
  have rc: "RestartCheck env c q = GoOn ?c1 ?q1"
    using ns by (cases "RestartState c") (simp_all add: RestartCheck_def entry_qm_def)
  have ok1: "context_ok ?lay ?c1" "queue_ok ?lay ?c1 (Queue ?q1)"
    using ok qok by (simp_all add: restart_state_simps)
  note e = EnterLoop_ok[OF ok1]
  have A1: "available ?lay ?c1 ?q1 = ?A" by (simp add: available_def restart_state_simps)
  have nr1: "RestartRequested (ctx (EnterLoop ?c1 ?q1)) \<noteq> 1" using nr e(5) by simp
  from ReadLoop_stream[OF lay e(1) nr1] obtain s' where
    s': "ReadLoop ?lay l (EnterLoop ?c1 ?q1) = Inr s'" "loop_ok ?lay l s'"
      "advanced ?lay (EnterLoop ?c1 ?q1) s' (min (unat l) (length ?A))"
    using e A1 by auto
  from LeaveLoop_ok[OF s'(2)] obtain c' where
    c': "LeaveLoop s' = CompleteRead STATUS_SUCCESS (readOffset s') (readBuffer s') (Some c') (qm s')"
      "c' = (ctx s')\<lparr>CurrentBlock := blockNode s', CurrentBlockOffset := blockOffset s'\<rparr>"
      "context_ok ?lay c'" "queue_ok ?lay c' (Queue (qm s'))"
      "available ?lay c' (qm s') = pending ?lay s'"
    by blast
  have dr: "DispatchRead env q
       \<lparr>ReadFsContext2 = Some c, ReadSystemBufferNull = False, ReadLength = l\<rparr> = Inr (LeaveLoop s')"
    using rc s'(1) by (simp add: DispatchRead_def)
  have adv: "same_config ?c1 (ctx s')"
    "readBuffer s' = take (min (unat l) (length ?A)) ?A"
    "unat (readOffset s') = min (unat l) (length ?A)"
    "pending ?lay s' = drop (min (unat l) (length ?A)) ?A"
    using s'(3) e A1 by (simp_all add: advanced_def)
  have b: "readBuffer s' = take (unat l) ?A" using adv(2) by (simp add: min_def)
  have p: "pending ?lay s' = drop (unat l) ?A" using adv(4) by (simp add: min_def)
  note f = same_config_view[OF adv(1)]
  show ?thesis
    using dr c' b p adv(3) f by (simp add: CompleteRead_def min_def)
qed

subsection \<open>Sequences of reads\<close>

lemma concat_chunks: "concat (chunks ns bs) = take (sum_list ns) bs"
proof (induction ns arbitrary: bs)
  case Nil
  then show ?case by simp
next
  case (Cons n ns)
  have "take (n + sum_list ns) bs = take n bs @ take (sum_list ns) (drop n bs)"
    by (simp add: take_add)
  then show ?case using Cons.IH[of "drop n bs"] by simp
qed

lemma entry_qm_Normal: "RestartState c = RestartStateNormal \<Longrightarrow> entry_qm env c q = q"
  by (simp add: entry_qm_def)

text \<open>With no restart pending, the bytes a sequence of reads returns are the reader's
  logical stream cut into pieces: every call returns the next bytes of the stream, as
  many as its buffer holds, and fewer only where the stream ends.\<close>

lemma ReadAll_chunks:
  assumes lay: "layout_ok (Layout env)"
    and ok: "context_ok (Layout env) c"
    and qok: "queue_ok (Layout env) c (Queue (entry_qm env c q))"
    and nr: "RestartRequested c \<noteq> 1" and ns: "RestartState c \<noteq> RestartStateSendEof"
  shows "\<exists>c' q'. ReadAll env c q ls =
             Inr (chunks (map unat ls) (available (Layout env) c (entry_qm env c q)), c', q') \<and>
           concat (chunks (map unat ls) (available (Layout env) c (entry_qm env c q))) =
             take (sum_list (map unat ls)) (available (Layout env) c (entry_qm env c q)) \<and>
           available (Layout env) c' (entry_qm env c' q') =
             drop (sum_list (map unat ls)) (available (Layout env) c (entry_qm env c q))"
  using ok qok nr ns
proof (induction ls arbitrary: c q)
  case Nil
  then show ?case by simp
next
  case (Cons l ls)
  let ?lay = "Layout env"
  let ?A = "available ?lay c (entry_qm env c q)"
  from DispatchRead_stream[OF lay Cons.prems, of l] obtain d c1 where
    d: "DispatchRead env q
          \<lparr>ReadFsContext2 = Some c, ReadSystemBufferNull = False, ReadLength = l\<rparr> = Inr d"
       "ReadContextAfter d = Some c1"
       "ReadBytes d = take (unat l) ?A"
       "available ?lay c1 (ReadQmAfter d) = drop (unat l) ?A"
       "context_ok ?lay c1" "queue_ok ?lay c1 (Queue (ReadQmAfter d))"
       "RestartState c1 = RestartStateNormal" "RestartRequested c1 = RestartRequested c"
    by blast
  have e1: "entry_qm env c1 (ReadQmAfter d) = ReadQmAfter d" using d(7) by (rule entry_qm_Normal)
  have q1: "queue_ok ?lay c1 (Queue (entry_qm env c1 (ReadQmAfter d)))" using d(6) e1 by simp
  have nr1: "RestartRequested c1 \<noteq> 1" using d(8) Cons.prems(3) by simp
  have ns1: "RestartState c1 \<noteq> RestartStateSendEof" using d(7) by simp
  from Cons.IH[OF d(5) q1 nr1 ns1] obtain c' q' where
    r: "ReadAll env c1 (ReadQmAfter d) ls =
          Inr (chunks (map unat ls) (available ?lay c1 (ReadQmAfter d)), c', q')"
       "available ?lay c' (entry_qm env c' q') =
          drop (sum_list (map unat ls)) (available ?lay c1 (ReadQmAfter d))"
    using e1 by auto
  have "ReadAll env c q (l # ls) = Inr (chunks (map unat (l # ls)) ?A, c', q')"
    using d(1,2,3,4) r(1) by simp
  moreover have "available ?lay c' (entry_qm env c' q') =
      drop (sum_list (map unat (l # ls))) ?A"
    using r(2) d(4) by (simp add: add.commute)
  ultimately show ?case using concat_chunks[of "map unat (l # ls)" ?A] by blast
qed

lemma example_reader_ok:
  "layout_ok (Layout example_env)"
  "context_ok (Layout example_env) example_context"
  "queue_ok (Layout example_env) example_context
     (Queue (entry_qm example_env example_context example_qm))"
  "RestartRequested example_context \<noteq> 1"
  "RestartState example_context \<noteq> RestartStateSendEof"
  by code_simp+

lemma example_chunks:
  "chunks (map unat [1, 30, 100 :: u32])
     (available (Layout example_env) example_context
        (entry_qm example_env example_context example_qm)) =
   [[1],
    [2, 3, 4, 6, 0, 0, 0, 40, 0, 0, 0, 0, 0, 0, 0, 0, 0, 0, 0, 0, 0, 0, 0, 5, 0, 0, 0, 10, 0, 0],
    [0, 101, 102, 103, 104, 105, 0, 0, 0, 40, 0, 0, 0]]"
  by code_simp

subsection \<open>Status and completion of a read\<close>

lemma RestartState_same: "RestartState c = x \<Longrightarrow> c\<lparr>RestartState := x\<rparr> = c"
  by (cases c) simp

lemma DispatchRead_cases:
  assumes "\<not> ReadSystemBufferNull irp" "ReadFsContext2 irp = Some c"
  shows "RestartState c = RestartStateSendEof \<Longrightarrow>
           DispatchRead env q irp =
             Inr (CompleteRead STATUS_SUCCESS 0 [] (Some (c\<lparr>RestartState := RestartStateInit\<rparr>)) q)"
        "RestartState c \<noteq> RestartStateSendEof \<Longrightarrow>
           DispatchRead env q irp =
             (case ReadLoop (Layout env) (ReadLength irp)
                     (EnterLoop (c\<lparr>RestartState := RestartStateNormal\<rparr>) (entry_qm env c q)) of
                Inl f \<Rightarrow> Inl f
              | Inr s \<Rightarrow> Inr (LeaveLoop s))"
proof -
  show "RestartState c = RestartStateSendEof \<Longrightarrow>
           DispatchRead env q irp =
             Inr (CompleteRead STATUS_SUCCESS 0 [] (Some (c\<lparr>RestartState := RestartStateInit\<rparr>)) q)"
    using assms by (simp add: DispatchRead_def RestartCheck_def)
  show "RestartState c \<noteq> RestartStateSendEof \<Longrightarrow>
           DispatchRead env q irp =
             (case ReadLoop (Layout env) (ReadLength irp)
                     (EnterLoop (c\<lparr>RestartState := RestartStateNormal\<rparr>) (entry_qm env c q)) of
                Inl f \<Rightarrow> Inl f
              | Inr s \<Rightarrow> Inr (LeaveLoop s))"
    using assms
    by (cases "RestartState c")
       (simp_all add: DispatchRead_def RestartCheck_def entry_qm_def RestartState_same)
qed

text \<open>
  C7. A read with no buffer or no context is completed with
  \<^verbatim>\<open>STATUS_INVALID_PARAMETER\<close>. Every other read on a well-formed reader, whatever the
  restart state and the request flag, whether the queue is empty or every block of it
  is suppressed, returns: it is completed with \<^verbatim>\<open>STATUS_SUCCESS\<close> and a byte count that is
  the number of bytes stored and not more than the length asked for. (\<open>DispatchRead\<close> is
  a total function whose loop has been shown to end: it waits for nothing.)
\<close>

theorem C7_read_completes:
  "(ReadSystemBufferNull irp \<or> ReadFsContext2 irp = None \<longrightarrow>
      DispatchRead env q irp =
        Inr (CompleteRead STATUS_INVALID_PARAMETER 0 [] (ReadFsContext2 irp) q)) \<and>
   (\<not> ReadSystemBufferNull irp \<and> ReadFsContext2 irp = Some c \<and>
    layout_ok (Layout env) \<and> context_ok (Layout env) c \<and>
    queue_ok (Layout env) c (Queue (entry_qm env c q)) \<longrightarrow>
      (\<exists>d. DispatchRead env q irp = Inr d \<and> ReadStatus d = STATUS_SUCCESS \<and>
            unat (ReadInformation d) = length (ReadBytes d) \<and>
            length (ReadBytes d) \<le> unat (ReadLength irp)))"
proof (intro conjI impI)
  assume "ReadSystemBufferNull irp \<or> ReadFsContext2 irp = None"
  then show "DispatchRead env q irp =
        Inr (CompleteRead STATUS_INVALID_PARAMETER 0 [] (ReadFsContext2 irp) q)"
    by (auto simp: DispatchRead_def)
next
  assume a: "\<not> ReadSystemBufferNull irp \<and> ReadFsContext2 irp = Some c \<and>
    layout_ok (Layout env) \<and> context_ok (Layout env) c \<and>
    queue_ok (Layout env) c (Queue (entry_qm env c q))"
  let ?lay = "Layout env" and ?l = "ReadLength irp"
  let ?c1 = "c\<lparr>RestartState := RestartStateNormal\<rparr>"
  let ?s0 = "EnterLoop ?c1 (entry_qm env c q)"
  note dc = DispatchRead_cases[of irp c env q]
  show "\<exists>d. DispatchRead env q irp = Inr d \<and> ReadStatus d = STATUS_SUCCESS \<and>
            unat (ReadInformation d) = length (ReadBytes d) \<and>
            length (ReadBytes d) \<le> unat (ReadLength irp)"
  proof (cases "RestartState c = RestartStateSendEof")
    case True
    then show ?thesis using dc(1) a by (simp add: CompleteRead_def)
  next
    case False
    have ok1: "context_ok ?lay ?c1" "queue_ok ?lay ?c1 (Queue (entry_qm env c q))"
      using a by (simp_all add: restart_state_simps)
    note e = EnterLoop_ok[OF ok1]
    have lay: "layout_ok ?lay" using a by simp
    have inv: "loop_ok ?lay ?l ?s0" by (rule e(1))
    have "\<exists>s'. ReadLoop ?lay ?l ?s0 = Inr s' \<and> unat (readOffset s') = length (readBuffer s') \<and>
             length (readBuffer s') \<le> unat ?l"
    proof (cases "RestartRequested c = 1")
      case True
      then have fl: "RestartRequested (ctx ?s0) = 1" using e(5) by simp
      from ReadLoop_restart[OF lay inv fl] obtain s' where
        "ReadLoop ?lay ?l ?s0 = Inr s'"
        "readBuffer s' = readBuffer ?s0 @ take (unat ?l - unat (readOffset ?s0))
                  (rest_of_block ?lay (ctx ?s0) (blockNode ?s0) (blockOffset ?s0))"
        "unat (readOffset s') = unat (readOffset ?s0) +
             min (unat ?l - unat (readOffset ?s0))
                 (length (rest_of_block ?lay (ctx ?s0) (blockNode ?s0) (blockOffset ?s0)))"
        by blast
      then show ?thesis unfolding e(3) e(4) by (intro exI[of _ s']) simp
    next
      case F: False
      then have nf: "RestartRequested (ctx ?s0) \<noteq> 1" using e(5) by simp
      from ReadLoop_stream[OF lay inv nf] obtain s' where
        s': "ReadLoop ?lay ?l ?s0 = Inr s'"
        "advanced ?lay ?s0 s' (min (unat ?l - unat (readOffset ?s0)) (length (pending ?lay ?s0)))"
        by blast
      have "readBuffer s' = take (min (unat ?l) (length (pending ?lay ?s0))) (pending ?lay ?s0)"
        "unat (readOffset s') = min (unat ?l) (length (pending ?lay ?s0))"
        using s'(2) unfolding advanced_def e(3) e(4) by simp_all
      then show ?thesis using s'(1) by (intro exI[of _ s']) simp
    qed
    then obtain s' where "ReadLoop ?lay ?l ?s0 = Inr s'"
      "unat (readOffset s') = length (readBuffer s')" "length (readBuffer s') \<le> unat ?l"
      by blast
    then show ?thesis using dc(2)[OF _ _ False] a by (simp add: LeaveLoop_def CompleteRead_def)
  qed
qed

theorem C7_read_completes_witness:
  "DispatchRead example_env example_qm
     \<lparr>ReadFsContext2 = None, ReadSystemBufferNull = False, ReadLength = 4\<rparr> =
     Inr (CompleteRead STATUS_INVALID_PARAMETER 0 [] None example_qm) \<and>
   (\<exists>d. DispatchRead example_env example_qm
           \<lparr>ReadFsContext2 = Some example_context, ReadSystemBufferNull = False,
            ReadLength = 4\<rparr> = Inr d \<and>
         ReadStatus d = STATUS_SUCCESS \<and> unat (ReadInformation d) = length (ReadBytes d) \<and>
         length (ReadBytes d) \<le> 4)"
  using
    C7_read_completes [of "\<lparr>ReadFsContext2 = None, ReadSystemBufferNull = False,
         ReadLength = 4\<rparr>" example_env example_qm example_context]
    C7_read_completes [of "\<lparr>ReadFsContext2 = Some example_context,
         ReadSystemBufferNull = False, ReadLength = 4\<rparr>" example_env example_qm example_context]
    example_reader_ok
  by simp

subsection \<open>What a read leaves as it was\<close>

lemma DispatchRead_loop:
  assumes d: "DispatchRead env q irp = Inr d" and c: "ReadFsContext2 irp = Some c"
    and nn: "\<not> ReadSystemBufferNull irp" and ns: "RestartState c \<noteq> RestartStateSendEof"
  shows "\<exists>s'. ReadLoop (Layout env) (ReadLength irp)
                 (EnterLoop (c\<lparr>RestartState := RestartStateNormal\<rparr>) (entry_qm env c q)) = Inr s' \<and>
              d = LeaveLoop s'"
  using d DispatchRead_cases(2)[OF nn c ns, of env q] by (auto split: sum.splits)

lemma DispatchRead_frame:
  assumes d: "DispatchRead env q irp = Inr d" and c: "ReadFsContext2 irp = Some c"
    and nn: "\<not> ReadSystemBufferNull irp" and ns: "RestartState c \<noteq> RestartStateSendEof"
  shows "\<exists>c'. ReadContextAfter d = Some c' \<and>
           Calls (ReadQmAfter d) = Calls (entry_qm env c q) \<and>
           Released (ReadQmAfter d) @ held_blocks c' @ Queue (ReadQmAfter d) =
             Released (entry_qm env c q) @ held_blocks c @ Queue (entry_qm env c q) \<and>
           SnapLength c' = SnapLength c \<and> SnapLengthPad c' = SnapLengthPad c \<and>
           FilteredProcessIds c' = FilteredProcessIds c \<and>
           FilteredConnectionIds c' = FilteredConnectionIds c \<and>
           ((RestartState c' = RestartStateNormal \<and> RestartRequested c' = RestartRequested c) \<or>
            (RestartRequested c = 1 \<and> RestartRequested c' = 0 \<and> CurrentBlock c' = None \<and>
             RestartState c' = (if ReadInformation d \<noteq> 0 then RestartStateSendEof
                                else RestartStateInit)))"
proof -
  let ?c1 = "c\<lparr>RestartState := RestartStateNormal\<rparr>"
  let ?s0 = "EnterLoop ?c1 (entry_qm env c q)"
  from DispatchRead_loop[OF assms] obtain s' where
    s': "ReadLoop (Layout env) (ReadLength irp) ?s0 = Inr s'" "d = LeaveLoop s'" by blast
  from ReadLoop_frame[OF s'(1)] have
    fr: "framed ?s0 s'" and alt: "same_config (ctx ?s0) (ctx s') \<or> restart_outcome (ctx ?s0) s'"
    by simp_all
  let ?c' = "(ctx s')\<lparr>CurrentBlock := blockNode s', CurrentBlockOffset := blockOffset s'\<rparr>"
  have d': "ReadContextAfter d = Some ?c'" "ReadQmAfter d = qm s'" "ReadInformation d = readOffset s'"
    using s'(2) by (simp_all add: LeaveLoop_def CompleteRead_def)
  have h0: "holding ?s0 = held_blocks c" "qm ?s0 = entry_qm env c q" "ctx ?s0 = ?c1"
    by (simp_all add: holding_def held_blocks_def EnterLoop_def)
  have h': "held_blocks ?c' = holding s'" by (simp add: holding_def held_blocks_def)
  have A: "Calls (qm s') = Calls (entry_qm env c q)"
    "Released (qm s') @ held_blocks ?c' @ Queue (qm s') =
       Released (entry_qm env c q) @ held_blocks c @ Queue (entry_qm env c q)"
    using fr h0 h' by (simp_all add: framed_def)
  from alt have B: "SnapLength ?c' = SnapLength c \<and> SnapLengthPad ?c' = SnapLengthPad c \<and>
           FilteredProcessIds ?c' = FilteredProcessIds c \<and>
           FilteredConnectionIds ?c' = FilteredConnectionIds c \<and>
           ((RestartState ?c' = RestartStateNormal \<and> RestartRequested ?c' = RestartRequested c) \<or>
            (RestartRequested c = 1 \<and> RestartRequested ?c' = 0 \<and> CurrentBlock ?c' = None \<and>
             RestartState ?c' = (if readOffset s' \<noteq> 0 then RestartStateSendEof
                                else RestartStateInit)))"
  proof
    assume "same_config (ctx ?s0) (ctx s')"
    from same_config_fields[OF this] show ?thesis unfolding h0 by simp
  next
    assume ro: "restart_outcome (ctx ?s0) s'"
    then have sc: "same_config (?c1\<lparr>RestartRequested := 0,
                      RestartState := (if readOffset s' \<noteq> 0 then RestartStateSendEof
                                       else RestartStateInit)\<rparr>) (ctx s')"
      and r1: "RestartRequested c = 1" and bn: "blockNode s' = None"
      unfolding h0 by (simp_all add: restart_outcome_def)
    from same_config_fields[OF sc] r1 bn show ?thesis by simp
  qed
  show ?thesis using d' A B by simp
qed

lemma DispatchRead_SnapLength:
  assumes "DispatchRead env q irp = Inr d" and "ReadFsContext2 irp = Some c"
  shows "\<exists>c'. ReadContextAfter d = Some c' \<and> SnapLength c' = SnapLength c"
proof (cases "ReadSystemBufferNull irp")
  case True
  then have "d = CompleteRead STATUS_INVALID_PARAMETER 0 [] (Some c) q"
    using assms(1,2) by (simp add: DispatchRead_def)
  then show ?thesis by (simp add: CompleteRead_def)
next
  case nn: False
  show ?thesis
  proof (cases "RestartState c = RestartStateSendEof")
    case True
    from DispatchRead_cases(1)[OF nn assms(2) True, of env q] assms(1)
    have "d = CompleteRead STATUS_SUCCESS 0 [] (Some (c\<lparr>RestartState := RestartStateInit\<rparr>)) q"
      by simp
    then show ?thesis by (simp add: CompleteRead_def)
  next
    case False
    from DispatchRead_frame[OF assms(1,2) nn False]
    show ?thesis by auto
  qed
qed

lemma example_blocks:
  "Released (entry_qm example_env example_context example_qm) @ held_blocks example_context @
     Queue (entry_qm example_env example_context example_qm) =
   [example_other, example_filtered, example_packet]"
  by code_simp

subsection \<open>The restart state\<close>

lemma SetIdList_frame:
  assumes "SetIdList env c t buffer len = Inr (c', old)"
  shows "RestartState c' = RestartState c" "SnapLength c' = SnapLength c"
    "RestartRequested c' = RestartRequested c"
  using assms
  by (auto simp: SetIdList_def Let_def split: if_splits option.splits sum.splits ID_LIST_TYPE.splits)

lemma IoctlSwitch_frame:
  assumes "IoctlSwitch env q c buffer inLen outReq code = Inr d"
  shows "\<exists>c'. ContextAfter d = Some c' \<and> RestartState c' = RestartState c \<and>
           (code \<noteq> IOCTL_KPH_SET_SNAP_LENGTH (Codes env) \<longrightarrow> SnapLength c' = SnapLength c)"
proof -
  let ?k = "Codes env"
  consider (fc) "code = IOCTL_KPH_FILTER_CONNECTIONS ?k"
    | (fp) "code \<noteq> IOCTL_KPH_FILTER_CONNECTIONS ?k" "code = IOCTL_KPH_FILTER_PROCESSES ?k"
    | (other) "code \<noteq> IOCTL_KPH_FILTER_CONNECTIONS ?k" "code \<noteq> IOCTL_KPH_FILTER_PROCESSES ?k"
    by blast
  then show ?thesis
  proof cases
    case fc
    then obtain c' old where "SetIdList env c ConnectionIdList buffer inLen = Inr (c', old)"
      "ContextAfter d = Some c'"
      using assms by (auto simp: IoctlSwitch_def CompleteIoctl_def split: sum.splits)
    then show ?thesis using SetIdList_frame[of env c ConnectionIdList buffer inLen c' old] by simp
  next
    case fp
    then obtain c' old where "SetIdList env c ProcessIdList buffer inLen = Inr (c', old)"
      "ContextAfter d = Some c'"
      using assms by (auto simp: IoctlSwitch_def CompleteIoctl_def split: sum.splits)
    then show ?thesis using SetIdList_frame[of env c ProcessIdList buffer inLen c' old] by simp
  next
    case other
    then show ?thesis using assms
      by (auto simp: IoctlSwitch_def CompleteIoctl_def Let_def
            split: if_splits option.splits)
  qed
qed

lemma DispatchDeviceControl_frame:
  assumes "DispatchDeviceControl env q irp = Inr d" "FsContext2 irp = Some c"
  shows "\<exists>c'. ContextAfter d = Some c' \<and> RestartState c' = RestartState c \<and>
           (IoControlCode irp \<noteq> IOCTL_KPH_SET_SNAP_LENGTH (Codes env) \<longrightarrow>
              SnapLength c' = SnapLength c)"
proof -
  consider (completed) st where "d = CompleteIoctl st 0 (SystemBuffer irp) (Some c) q"
    | (sw) outReq where "IoctlSwitch env q c (SystemBuffer irp) (InputBufferLength irp) outReq
         (IoControlCode irp) = Inr d"
    using assms
    by (auto simp: DispatchDeviceControl_def Let_def split: if_splits sum.splits)
  then show ?thesis
  proof cases
    case completed
    then show ?thesis by (simp add: CompleteIoctl_def)
  next
    case sw
    from IoctlSwitch_frame[OF sw] show ?thesis .
  qed
qed

lemma example_held_read:
  "DispatchRead example_env example_qm
     \<lparr>ReadFsContext2 = Some example_held_context, ReadSystemBufferNull = False,
      ReadLength = 4\<rparr> =
   Inr (CompleteRead STATUS_SUCCESS 2 [3, 4]
          (Some (example_context\<lparr>RestartState := RestartStateSendEof\<rparr>))
          (example_qm\<lparr>Released := [example_other]\<rparr>))"
  by code_simp

subsection \<open>The snap length\<close>

lemma snap_codes:
  assumes "codes_ok k"
  shows "ioctl_function (IOCTL_KPH_SET_SNAP_LENGTH k) = 3"
    "ioctl_function (IOCTL_KPH_GET_SNAP_LENGTH k) = 4"
    "IOCTL_KPH_SET_SNAP_LENGTH k \<noteq> IOCTL_KPH_FILTER_CONNECTIONS k"
    "IOCTL_KPH_SET_SNAP_LENGTH k \<noteq> IOCTL_KPH_FILTER_PROCESSES k"
    "IOCTL_KPH_SET_SNAP_LENGTH k \<noteq> IOCTL_KPH_MARK_RESTART k"
    "IOCTL_KPH_GET_SNAP_LENGTH k \<noteq> IOCTL_KPH_FILTER_CONNECTIONS k"
    "IOCTL_KPH_GET_SNAP_LENGTH k \<noteq> IOCTL_KPH_FILTER_PROCESSES k"
    "IOCTL_KPH_GET_SNAP_LENGTH k \<noteq> IOCTL_KPH_MARK_RESTART k"
    "IOCTL_KPH_GET_SNAP_LENGTH k \<noteq> IOCTL_KPH_SET_SNAP_LENGTH k"
  using assms by (auto simp: codes_ok_def)

lemma SetSnapLength_ok:
  assumes codes: "codes_ok (Codes env)"
    and s: "FsContext2 s = Some c" "IoControlCode s = IOCTL_KPH_SET_SNAP_LENGTH (Codes env)"
      "SystemBuffer s = Some inb" "rd32 inb 0 = Some v" "4 \<le> InputBufferLength s"
  shows "\<exists>d1 c1. DispatchDeviceControl env q s = Inr d1 \<and> Status d1 = STATUS_SUCCESS \<and>
           Information d1 = 0 \<and> ContextAfter d1 = Some c1 \<and> SnapLength c1 = v"
proof -
  note k = snap_codes[OF codes]
  have t: "gIoctlParams env ! 3 = ioctl_params 4 0 4 0"
    by (simp add: gIoctlParams_def)
  have n: "\<not> InputBufferLength s < 4" using s(5) by (simp add: not_less)
  have "DispatchDeviceControl env q s =
      IoctlSwitch env q c (Some inb) (InputBufferLength s) 0 (IOCTL_KPH_SET_SNAP_LENGTH (Codes env))"
    using s n k(1)
    by (simp add: DispatchDeviceControl_def Let_def table_lookup t ioctl_params_def)
  then show ?thesis
    using s(4) k(3,4,5)
    by (simp add: IoctlSwitch_def Let_def CompleteIoctl_def)
qed

lemma GetSnapLength_ok:
  assumes codes: "codes_ok (Codes env)"
    and g: "FsContext2 g = Some c" "IoControlCode g = IOCTL_KPH_GET_SNAP_LENGTH (Codes env)"
      "SystemBuffer g = Some outb" "4 \<le> length outb" "4 \<le> OutputBufferLength g"
  shows "DispatchDeviceControl env q g =
      Inr (CompleteIoctl STATUS_SUCCESS 4 (Some (wr_bytes outb (le32 (SnapLength c)))) (Some c) q)"
proof -
  note k = snap_codes[OF codes]
  have t: "gIoctlParams env ! 4 = ioctl_params 0 4 0 4"
    by (simp add: gIoctlParams_def)
  have n: "\<not> OutputBufferLength g < 4" using g(5) by (simp add: not_less)
  have "DispatchDeviceControl env q g =
      IoctlSwitch env q c (Some outb) (InputBufferLength g) 4 (IOCTL_KPH_GET_SNAP_LENGTH (Codes env))"
    using g n k(2)
    by (simp add: DispatchDeviceControl_def Let_def table_lookup t ioctl_params_def)
  then show ?thesis
    using g(4) k(6,7,8,9)
    by (simp add: IoctlSwitch_def Let_def)
qed

lemma rd32_le32_append: "rd32 (le32 v @ rest) 0 = Some v"
  using de32_le32[of v "[]"]
  by (simp add: rd32_def read_bytes_def)

lemma example_snap:
  "codes_ok (Codes example_env)"
  "IOCTL_KPH_SET_SNAP_LENGTH (Codes example_env) = 0x0022000C"
  "IOCTL_KPH_GET_SNAP_LENGTH (Codes example_env) = 0x00220010"
  "rd32 [0, 0, 0, 0] 0 = Some 0"
  by code_simp+

text \<open>
  C8. With control codes built as the table requires, \<^verbatim>\<open>IOCTL_KPH_SET_SNAP_LENGTH\<close> with
  the value \<open>v\<close> in the first four bytes of the request buffer succeeds and leaves
  \<open>SnapLength = v\<close>; \<^verbatim>\<open>IOCTL_KPH_GET_SNAP_LENGTH\<close> on a context where \<open>SnapLength = v\<close>, with
  a buffer of four bytes or more, succeeds, reports 4 bytes and leaves the bytes of \<open>v\<close>
  in the first four bytes of the buffer, the rest untouched. Between the two, no control
  request other than \<^verbatim>\<open>IOCTL_KPH_SET_SNAP_LENGTH\<close> and no read changes \<open>SnapLength\<close>.
\<close>

theorem C8_get_after_set:
  assumes codes: "codes_ok (Codes env)"
    and s: "FsContext2 s = Some c" "IoControlCode s = IOCTL_KPH_SET_SNAP_LENGTH (Codes env)"
      "SystemBuffer s = Some inb" "rd32 inb 0 = Some v" "4 \<le> InputBufferLength s"
    and g: "IoControlCode g = IOCTL_KPH_GET_SNAP_LENGTH (Codes env)"
      "SystemBuffer g = Some outb" "4 \<le> length outb" "4 \<le> OutputBufferLength g"
  shows "(\<exists>d1 c1. DispatchDeviceControl env q s = Inr d1 \<and> Status d1 = STATUS_SUCCESS \<and>
            ContextAfter d1 = Some c1 \<and> SnapLength c1 = v) \<and>
         (\<forall>c2 q2. SnapLength c2 = v \<longrightarrow>
            (\<exists>d2 ob. DispatchDeviceControl env q2 (g\<lparr>FsContext2 := Some c2\<rparr>) = Inr d2 \<and>
               Status d2 = STATUS_SUCCESS \<and> Information d2 = 4 \<and>
               OutBuffer d2 = Some ob \<and> rd32 ob 0 = Some v \<and>
               length ob = length outb \<and> drop 4 ob = drop 4 outb \<and>
               ContextAfter d2 = Some c2)) \<and>
         (\<forall>c2 q2 irp d. FsContext2 irp = Some c2 \<and>
            IoControlCode irp \<noteq> IOCTL_KPH_SET_SNAP_LENGTH (Codes env) \<and>
            DispatchDeviceControl env q2 irp = Inr d \<longrightarrow>
            (\<exists>c3. ContextAfter d = Some c3 \<and> SnapLength c3 = SnapLength c2)) \<and>
         (\<forall>c2 q2 irp d. ReadFsContext2 irp = Some c2 \<and> DispatchRead env q2 irp = Inr d \<longrightarrow>
            (\<exists>c3. ReadContextAfter d = Some c3 \<and> SnapLength c3 = SnapLength c2))"
proof (intro conjI allI impI)
  from SetSnapLength_ok[OF codes s, of q]
  show "\<exists>d1 c1. DispatchDeviceControl env q s = Inr d1 \<and> Status d1 = STATUS_SUCCESS \<and>
            ContextAfter d1 = Some c1 \<and> SnapLength c1 = v" by blast
next
  fix c2 :: READER_CONTEXT and q2 :: QM assume v: "SnapLength c2 = v"
  have "DispatchDeviceControl env q2 (g\<lparr>FsContext2 := Some c2\<rparr>) =
      Inr (CompleteIoctl STATUS_SUCCESS 4 (Some (wr_bytes outb (le32 (SnapLength c2)))) (Some c2) q2)"
    using g by (intro GetSnapLength_ok[OF codes]) simp_all
  then show "\<exists>d2 ob. DispatchDeviceControl env q2 (g\<lparr>FsContext2 := Some c2\<rparr>) = Inr d2 \<and>
               Status d2 = STATUS_SUCCESS \<and> Information d2 = 4 \<and>
               OutBuffer d2 = Some ob \<and> rd32 ob 0 = Some v \<and>
               length ob = length outb \<and> drop 4 ob = drop 4 outb \<and>
               ContextAfter d2 = Some c2"
    using v g(3) by (simp add: CompleteIoctl_def rd32_le32_append wr_bytes_def)
next
  fix c2 q2 irp d
  assume "FsContext2 irp = Some c2 \<and>
            IoControlCode irp \<noteq> IOCTL_KPH_SET_SNAP_LENGTH (Codes env) \<and>
            DispatchDeviceControl env q2 irp = Inr d"
  then show "\<exists>c3. ContextAfter d = Some c3 \<and> SnapLength c3 = SnapLength c2"
    using DispatchDeviceControl_frame[of env q2 irp d c2] by auto
next
  fix c2 q2 irp d
  assume "ReadFsContext2 irp = Some c2 \<and> DispatchRead env q2 irp = Inr d"
  then show "\<exists>c3. ReadContextAfter d = Some c3 \<and> SnapLength c3 = SnapLength c2"
    using DispatchRead_SnapLength[of env q2 irp d c2] by auto
qed

theorem C8_get_after_set_witness:
  "\<exists>d1 c1 d2 ob.
     DispatchDeviceControl example_env EmptyQm
       \<lparr>FsContext2 = Some example_context, SystemBuffer = Some [0, 0, 0, 0],
        InputBufferLength = 4, OutputBufferLength = 0, IoControlCode = 0x0022000C\<rparr> = Inr d1 \<and>
     Status d1 = STATUS_SUCCESS \<and> ContextAfter d1 = Some c1 \<and>
     DispatchDeviceControl example_env EmptyQm
       \<lparr>FsContext2 = Some c1, SystemBuffer = Some [9, 9, 9, 9, 9],
        InputBufferLength = 0, OutputBufferLength = 4, IoControlCode = 0x00220010\<rparr> = Inr d2 \<and>
     Status d2 = STATUS_SUCCESS \<and> Information d2 = 4 \<and> OutBuffer d2 = Some ob \<and>
     rd32 ob 0 = Some 0 \<and> drop 4 ob = [9]"
proof -
  let ?s = "\<lparr>FsContext2 = Some example_context, SystemBuffer = Some [0, 0, 0, 0],
        InputBufferLength = 4, OutputBufferLength = 0, IoControlCode = 0x0022000C\<rparr>"
  let ?g = "\<lparr>FsContext2 = None, SystemBuffer = Some [9, 9, 9, 9, 9],
        InputBufferLength = 0, OutputBufferLength = 4, IoControlCode = 0x00220010\<rparr>"
  have p: "FsContext2 ?s = Some example_context"
    "IoControlCode ?s = IOCTL_KPH_SET_SNAP_LENGTH (Codes example_env)"
    "SystemBuffer ?s = Some [0, 0, 0, 0]" "rd32 [0, 0, 0, 0] 0 = Some 0"
    "4 \<le> InputBufferLength ?s"
    "IoControlCode ?g = IOCTL_KPH_GET_SNAP_LENGTH (Codes example_env)"
    "SystemBuffer ?g = Some [9, 9, 9, 9, 9]" "4 \<le> length [9, 9, 9, 9, 9 :: u8]"
    "4 \<le> OutputBufferLength ?g"
    by (simp_all add: example_snap)
  note t = C8_get_after_set[OF example_snap(1) p, of EmptyQm]
  from t obtain d1 c1 where
    a: "DispatchDeviceControl example_env EmptyQm ?s = Inr d1" "Status d1 = STATUS_SUCCESS"
      "ContextAfter d1 = Some c1" "SnapLength c1 = 0" by blast
  from t a(4) obtain d2 ob where
    b: "DispatchDeviceControl example_env EmptyQm (?g\<lparr>FsContext2 := Some c1\<rparr>) = Inr d2"
      "Status d2 = STATUS_SUCCESS" "Information d2 = 4" "OutBuffer d2 = Some ob"
      "rd32 ob 0 = Some 0" "drop 4 ob = drop 4 [9, 9, 9, 9, 9]" by blast
  show ?thesis
    using a(1,2,3) b by (intro exI[of _ d1] exI[of _ c1] exI[of _ d2] exI[of _ ob]) simp
qed

subsection \<open>The filter\<close>

lemma block_filtered_fields:
  "block_filtered (c\<lparr>ModifiedHeader := h\<rparr>) b = block_filtered c b"
  by (simp add: block_filtered_def cong: sum.case_cong if_cong)

lemma AcquireBlock_unfold:
  assumes nr: "RestartRequested (ctx s) \<noteq> 1" and q: "Queue (qm s) = b # bs"
  shows "AcquireBlock lay s =
     (let c0 = (ctx s)\<lparr>ModifiedHeader := wr32 (ModifiedHeader (ctx s)) (HdrBlockType lay) 0\<rparr>;
          s0 = s\<lparr>blockNode := Some b, blockOffset := 0, qm := (qm s)\<lparr>Queue := bs\<rparr>, ctx := c0\<rparr>
      in if BlockType b = PacketBlock then
           (case block_filtered (ctx s) b of
              Inl f \<Rightarrow> Inl f
            | Inr filtered \<Rightarrow>
                if filtered then
                  Inr (AcqContinue (s0\<lparr>qm := QmCleanupBlock b ((qm s)\<lparr>Queue := bs\<rparr>),
                                       blockNode := None\<rparr>))
                else
                  (case TrimBlock lay c0 b of
                     Inl f \<Rightarrow> Inl f
                   | Inr c1 \<Rightarrow> Inr (AcqBlock (s0\<lparr>ctx := c1\<rparr>) b)))
         else Inr (AcqBlock s0 b))"
  using assms
  by (simp add: AcquireBlock_def QmDequeueBlock_def Let_def block_filtered_fields)

lemma example_boundary_ok:
  "filter_ok (FilteredProcessIds (ctx example_boundary))"
  "filter_ok (FilteredConnectionIds (ctx example_boundary))"
  "RestartRequested (ctx example_boundary) \<noteq> 1"
  "Queue (qm example_boundary) = example_filtered # [example_packet]"
  "suppressed (ctx example_boundary) example_filtered"
  "listed (FilteredProcessIds (ctx example_boundary)) (ProcessId example_filtered)"
  "readBuffer example_boundary = []" "Released (qm example_boundary) = [example_other]"
  "ctx example_boundary = example_context"
  by code_simp+

text \<open>
  C5. At a block boundary with no restart requested, a block \<open>b\<close> next in the queue and
  well-formed filter arrays. For a packet block the scan of lines 328 to 353 gives
  the answer "the process id is in the process list or the connection id is in the
  connection list". When the process id is in the process list the answer is given
  whatever the connection list is, even one that could not be scanned: it is not
  consulted. With both arrays NULL the answer is no. A suppressed block is given to
  \<^verbatim>\<open>QmCleanupBlock\<close> and the loop goes round with no block held and the read buffer as it
  was. A block that is not suppressed is the one the copy is entered with, and nothing
  has been stored yet. A block that is not a packet block is never scanned for.
\<close>

theorem C5_filter_before_delivery:
  assumes fo: "filter_ok (FilteredProcessIds (ctx s))" "filter_ok (FilteredConnectionIds (ctx s))"
    and nr: "RestartRequested (ctx s) \<noteq> 1" and q: "Queue (qm s) = b # bs"
  shows
   "(BlockType b = PacketBlock \<longrightarrow>
       block_filtered (ctx s) b =
         Inr (listed (FilteredProcessIds (ctx s)) (ProcessId b) \<or>
              listed (FilteredConnectionIds (ctx s)) (ConnectionId b))) \<and>
    (listed (FilteredProcessIds (ctx s)) (ProcessId b) \<longrightarrow>
       (\<forall>x. block_filtered ((ctx s)\<lparr>FilteredConnectionIds := x\<rparr>) b = Inr True)) \<and>
    (FilteredProcessIds (ctx s) = None \<and> FilteredConnectionIds (ctx s) = None \<longrightarrow>
       block_filtered (ctx s) b = Inr False) \<and>
    (suppressed (ctx s) b \<longrightarrow>
       (\<exists>s'. AcquireBlock lay s = Inr (AcqContinue s') \<and>
          readBuffer s' = readBuffer s \<and> readOffset s' = readOffset s \<and>
          blockNode s' = None \<and> Queue (qm s') = bs \<and>
          Released (qm s') = Released (qm s) @ [b])) \<and>
    (\<not> suppressed (ctx s) b \<longrightarrow>
       (\<forall>a. AcquireBlock lay s = Inr a \<longrightarrow>
          (\<exists>s'. a = AcqBlock s' b \<and>
             readBuffer s' = readBuffer s \<and> readOffset s' = readOffset s \<and>
             blockNode s' = Some b \<and> blockOffset s' = 0 \<and> Queue (qm s') = bs \<and>
             Released (qm s') = Released (qm s)))) \<and>
    (BlockType b \<noteq> PacketBlock \<longrightarrow>
       (\<exists>s'. AcquireBlock lay s = Inr (AcqBlock s' b) \<and> readBuffer s' = readBuffer s \<and>
          blockNode s' = Some b \<and> Released (qm s') = Released (qm s)))"
proof -
  let ?c = "ctx s"
  note bf = block_filtered_eq[OF fo, of b]
  note un = AcquireBlock_unfold[OF nr q, of lay]
  have A: "listed (FilteredProcessIds ?c) (ProcessId b) \<Longrightarrow>
      block_filtered (?c\<lparr>FilteredConnectionIds := x\<rparr>) b = Inr True" for x
  proof -
    assume l: "listed (FilteredProcessIds ?c) (ProcessId b)"
    then obtain ids where ids: "FilteredProcessIds ?c = Some ids"
      by (cases "FilteredProcessIds ?c") (simp_all add: listed_def)
    have "id_listed ids (ProcessId b) = Inr True"
      using id_listed_eq[of ids "ProcessId b"] fo(1) l ids by simp
    then show ?thesis using ids by (simp add: block_filtered_def)
  qed
  have B: "FilteredProcessIds ?c = None \<and> FilteredConnectionIds ?c = None \<Longrightarrow>
      block_filtered ?c b = Inr False"
    by (simp add: block_filtered_def)
  have C: "suppressed ?c b \<Longrightarrow>
       (\<exists>s'. AcquireBlock lay s = Inr (AcqContinue s') \<and>
          readBuffer s' = readBuffer s \<and> readOffset s' = readOffset s \<and>
          blockNode s' = None \<and> Queue (qm s') = bs \<and>
          Released (qm s') = Released (qm s) @ [b])"
    unfolding un using bf by (simp add: suppressed_def Let_def QmCleanupBlock_def)
  have D: "\<not> suppressed ?c b \<Longrightarrow> AcquireBlock lay s = Inr a \<Longrightarrow>
          (\<exists>s'. a = AcqBlock s' b \<and>
             readBuffer s' = readBuffer s \<and> readOffset s' = readOffset s \<and>
             blockNode s' = Some b \<and> blockOffset s' = 0 \<and> Queue (qm s') = bs \<and>
             Released (qm s') = Released (qm s))" for a
    unfolding un using bf
    by (cases "BlockType b = PacketBlock")
       (auto simp: suppressed_def Let_def split: sum.splits)
  have E: "BlockType b \<noteq> PacketBlock \<Longrightarrow>
       (\<exists>s'. AcquireBlock lay s = Inr (AcqBlock s' b) \<and> readBuffer s' = readBuffer s \<and>
          blockNode s' = Some b \<and> Released (qm s') = Released (qm s))"
    unfolding un by (simp add: Let_def)
  show ?thesis using bf A B C D E by blast
qed

theorem C5_filter_before_delivery_witness:
  "(\<exists>s'. AcquireBlock example_layout example_boundary = Inr (AcqContinue s') \<and>
      readBuffer s' = [] \<and> blockNode s' = None \<and> Queue (qm s') = [example_packet] \<and>
      Released (qm s') = [example_other, example_filtered]) \<and>
   block_filtered (example_context\<lparr>FilteredConnectionIds := Some []\<rparr>) example_filtered =
     Inr True"
  using C5_filter_before_delivery[OF example_boundary_ok(1-4), of example_layout]
    example_boundary_ok(5-9)
  by auto

subsection \<open>Sequences of reads, restarts included\<close>

lemma config_fields_stream:
  assumes f: "SnapLength c' = SnapLength c" "SnapLengthPad c' = SnapLengthPad c"
    "FilteredProcessIds c' = FilteredProcessIds c"
    "FilteredConnectionIds c' = FilteredConnectionIds c"
  shows "stream lay c' = stream lay c" "queue_ok lay c' = queue_ok lay c"
proof -
  have s: "suppressed c' = suppressed c" by (rule ext) (simp add: suppressed_def f)
  have t: "truncated lay c' = truncated lay c"
    by (rule ext) (simp add: truncated_def f cong: option.case_cong)
  have l: "truncated_length lay c' = truncated_length lay c" by (simp add: truncated_length_def f)
  have d: "delivered lay c' = delivered lay c" by (rule ext) (simp add: delivered_def f t l)
  show "stream lay c' = stream lay c" by (rule ext) (simp add: stream_def s d)
  have b: "block_ok lay c' = block_ok lay c" by (rule ext) (simp add: block_ok_def t l)
  show "queue_ok lay c' = queue_ok lay c" by (rule ext) (simp add: queue_ok_def b)
qed

lemma stream_append: "stream lay c (xs @ ys) = stream lay c xs @ stream lay c ys"
  by (simp add: stream_def)

lemma AcquireBlock_queue:
  assumes "AcquireBlock lay s = Inr a"
  shows "case a of
           AcqBreak s' \<Rightarrow> Queue (qm s') = Queue (qm s)
         | AcqContinue s' \<Rightarrow> (\<exists>b. Queue (qm s) = b # Queue (qm s'))
         | AcqBlock s' b \<Rightarrow> Queue (qm s) = b # Queue (qm s')"
  using assms
  by (auto simp: AcquireBlock_def QmDequeueBlock_def QmCleanupBlock_def Let_def
           split: if_splits list.splits sum.splits)

lemma ReadBody_queue:
  assumes "ReadBody lay rl s = Inr r" "readOffset s < rl"
  shows "\<exists>dq. Queue (qm s) = dq @ Queue (qm (case r of Break t \<Rightarrow> t | Continue t \<Rightarrow> t))"
proof (cases "blockNode s")
  case (Some b)
  then obtain s' where s': "CopyBlock lay rl b s = Inr s'" "r = Continue s'"
    using assms(1) by (auto simp: ReadBody_def split: sum.splits)
  from CopyBlock_progress(2)[OF s'(1) assms(2)] s'(2) show ?thesis by simp
next
  case None
  then obtain a where a: "AcquireBlock lay s = Inr a"
    using assms(1) by (auto simp: ReadBody_def split: sum.splits)
  note aq = AcquireBlock_queue[OF a]
  show ?thesis
  proof (cases a)
    case (AcqBreak s')
    then have "r = Break s'" using assms(1) None a by (simp add: ReadBody_def)
    then show ?thesis using aq AcqBreak by simp
  next
    case (AcqContinue s')
    then have "r = Continue s'" using assms(1) None a by (simp add: ReadBody_def)
    then show ?thesis using aq AcqContinue by auto
  next
    case (AcqBlock s1 b)
    then obtain s' where s': "CopyBlock lay rl b s1 = Inr s'" "r = Continue s'"
      using assms(1) None a by (auto simp: ReadBody_def split: sum.splits)
    have "readOffset s1 = readOffset s" using AcquireBlock_Block(1) a AcqBlock by simp
    then have "readOffset s1 < rl" using assms(2) by simp
    from CopyBlock_progress(2)[OF s'(1) this] aq AcqBlock s'(2)
    show ?thesis by (intro exI[of _ "[b]"]) simp
  qed
qed

lemma ReadLoop_queue:
  "ReadLoop lay rl s = Inr s' \<Longrightarrow> \<exists>dq. Queue (qm s) = dq @ Queue (qm s')"
proof (induction lay rl s rule: ReadLoop.induct)
  case (1 lay rl s)
  show ?case
  proof (cases "readOffset s < rl")
    case False
    then have "s' = s" using "1.prems" by simp
    then show ?thesis by simp
  next
    case True
    then obtain r where r: "ReadBody lay rl s = Inr r"
      using "1.prems" by (auto split: sum.splits)
    from ReadBody_queue[OF r True] obtain dq1 where
      dq1: "Queue (qm s) = dq1 @ Queue (qm (case r of Break t \<Rightarrow> t | Continue t \<Rightarrow> t))"
      by blast
    show ?thesis
    proof (cases r)
      case (Break t)
      then have "s' = t" using "1.prems" True r by simp
      then show ?thesis using dq1 Break by auto
    next
      case (Continue t)
      then have e: "ReadLoop lay rl t = Inr s'" using "1.prems" True r by simp
      from "1.IH"[OF True r Continue e] obtain dq2 where "Queue (qm t) = dq2 @ Queue (qm s')"
        by blast
      then have "Queue (qm s) = (dq1 @ dq2) @ Queue (qm s')" using dq1 Continue by simp
      then show ?thesis by blast
    qed
  qed
qed

lemma ReadLoop_restart_state:
  assumes lay: "layout_ok lay" and inv: "loop_ok lay rl s"
    and fl: "RestartRequested (ctx s) = 1"
  shows "\<exists>s'. ReadLoop lay rl s = Inr s' \<and>
           readBuffer s' = readBuffer s @
             take (unat rl - unat (readOffset s))
                  (rest_of_block lay (ctx s) (blockNode s) (blockOffset s)) \<and>
           unat (readOffset s') = unat (readOffset s) +
             min (unat rl - unat (readOffset s))
                 (length (rest_of_block lay (ctx s) (blockNode s) (blockOffset s))) \<and>
           Queue (qm s') = Queue (qm s) \<and>
           rest_of_block lay (ctx s') (blockNode s') (blockOffset s') =
             drop (unat rl - unat (readOffset s))
                  (rest_of_block lay (ctx s) (blockNode s) (blockOffset s)) \<and>
           (case blockNode s' of
              None \<Rightarrow> True
            | Some b \<Rightarrow> ctx s' = ctx s \<and> held_ok lay (ctx s) b (blockOffset s') \<and>
                        unat (blockOffset s') < unat (BlockLength b)) \<and>
           (ctx s' = ctx s \<or> restart_taken s s')"
proof (cases "readOffset s < rl")
  case False
  then have "ReadLoop lay rl s = Inr s" by simp
  moreover have "unat rl - unat (readOffset s) = 0" using False by (simp add: word_less_nat_alt)
  ultimately show ?thesis using inv by (auto simp: loop_ok_def split: option.splits)
next
  case True
  have brk: "ReadLoop lay rl t =
      Inr (t\<lparr>ctx := (ctx t)\<lparr>RestartRequested := 0,
                                   RestartState := (if readOffset t \<noteq> 0 then RestartStateSendEof
                                                    else RestartStateInit)\<rparr>\<rparr>)"
    if "blockNode t = None" "RestartRequested (ctx t) = 1" "readOffset t < rl" for t
  proof -
    have "ReadBody lay rl t = Inr (Break (t\<lparr>ctx := (ctx t)\<lparr>RestartRequested := 0,
                                   RestartState := (if readOffset t \<noteq> 0 then RestartStateSendEof
                                                    else RestartStateInit)\<rparr>\<rparr>))"
      using that by (simp add: ReadBody_def AcquireBlock_def)
    then show ?thesis using that(3) by (subst ReadLoop.simps) simp
  qed
  show ?thesis
  proof (cases "blockNode s")
    case None
    from brk[OF None fl True] None fl show ?thesis
      by (simp add: rest_of_block_def restart_taken_def)
  next
    case (Some b)
    let ?R = "rest_of_block lay (ctx s) (Some b) (blockOffset s)"
    let ?rem = "unat rl - unat (readOffset s)"
    have cfg: "config_ok lay (ctx s)" and qok: "queue_ok lay (ctx s) (Queue (qm s))"
      and held: "held_ok lay (ctx s) b (blockOffset s)"
      using inv Some by (simp_all add: loop_ok_def)
    have mh: "length (ModifiedHeader (ctx s)) = unat (HeaderSize lay)"
      using cfg by (simp add: config_ok_def)
    from CopyBlock_correct[OF lay mh held True] obtain s1 where
      s1: "CopyBlock lay rl b s = Inr s1"
        "readBuffer s1 = readBuffer s @ take ?rem ?R"
        "unat (readOffset s1) = unat (readOffset s) + min ?rem (length ?R)"
        "ctx s1 = ctx s"
        "if length ?R \<le> ?rem
         then blockNode s1 = None \<and> qm s1 = QmCleanupBlock b (qm s) \<and> blockOffset s1 = 0
         else blockNode s1 = blockNode s \<and> qm s1 = qm s \<and>
           held_ok lay (ctx s) b (blockOffset s1) \<and>
           unat (blockOffset s1) < unat (BlockLength b) \<and>
           rest_of_block lay (ctx s) (Some b) (blockOffset s1) = drop ?rem ?R"
      by blast
    have rb: "ReadBody lay rl s = Inr (Continue s1)" using Some s1(1) by (simp add: ReadBody_def)
    have l1: "ReadLoop lay rl s = ReadLoop lay rl s1"
      using True rb by (subst ReadLoop.simps) simp
    have q1: "Queue (qm s1) = Queue (qm s)"
      using s1(5) by (auto simp: QmCleanupBlock_def split: if_splits)
    show ?thesis
    proof (cases "readOffset s1 < rl")
      case False
      then have e: "ReadLoop lay rl s = Inr s1" using l1 by simp
      show ?thesis
      proof (cases "length ?R \<le> ?rem")
        case True
        then have "blockNode s1 = None" using s1(5) by simp
        then show ?thesis using e s1(2,3,4) q1 Some True
          by (simp add: rest_of_block_def)
      next
        case F: False
        then have "blockNode s1 = Some b" "held_ok lay (ctx s) b (blockOffset s1)"
          "unat (blockOffset s1) < unat (BlockLength b)"
          "rest_of_block lay (ctx s) (Some b) (blockOffset s1) = drop ?rem ?R"
          using s1(5) Some by simp_all
        then show ?thesis using e s1(2,3,4) q1 Some by simp
      qed
    next
      case T1: True
      then have "unat (readOffset s1) < unat rl" by (simp add: word_less_nat_alt)
      then have lt: "length ?R < ?rem" using s1(3) by (simp add: min_def split: if_splits)
      then have bn: "blockNode s1 = None" using s1(5) by simp
      from brk[OF this _ T1] fl s1(4)
      have "ReadLoop lay rl s1 = Inr (s1\<lparr>ctx := (ctx s1)\<lparr>RestartRequested := 0,
                                   RestartState := (if readOffset s1 \<noteq> 0 then RestartStateSendEof
                                                    else RestartStateInit)\<rparr>\<rparr>)"
        by simp
      then show ?thesis using l1 s1(2,3,4) q1 Some bn lt fl
        by (simp add: rest_of_block_def restart_taken_def)
    qed
  qed
qed

lemma DispatchRead_dequeued:
  assumes d: "DispatchRead env q irp = Inr d" and c: "ReadFsContext2 irp = Some c"
    and nn: "\<not> ReadSystemBufferNull irp" and ns: "RestartState c \<noteq> RestartStateSendEof"
  shows "\<exists>c' dq. ReadContextAfter d = Some c' \<and>
           Queue (entry_qm env c q) = dq @ Queue (ReadQmAfter d) \<and>
           Released (ReadQmAfter d) @ held_blocks c' = Released q @ held_blocks c @ dq"
proof -
  let ?q1 = "entry_qm env c q"
  from DispatchRead_loop[OF assms] obtain s' where
    s': "ReadLoop (Layout env) (ReadLength irp)
           (EnterLoop (c\<lparr>RestartState := RestartStateNormal\<rparr>) ?q1) = Inr s'" "d = LeaveLoop s'"
    by blast
  from ReadLoop_queue[OF s'(1)] obtain dq where
    dq: "Queue ?q1 = dq @ Queue (qm s')" by (auto simp: EnterLoop_def)
  have q': "ReadQmAfter d = qm s'" using s'(2) by (simp add: LeaveLoop_def CompleteRead_def)
  from DispatchRead_frame[OF assms] obtain c' where
    c': "ReadContextAfter d = Some c'"
      "Released (ReadQmAfter d) @ held_blocks c' @ Queue (ReadQmAfter d) =
         Released ?q1 @ held_blocks c @ Queue ?q1"
    by blast
  have r: "Released ?q1 = Released q" by (simp add: entry_qm_def QmGetInitialBlocks_def)
  have "(Released (ReadQmAfter d) @ held_blocks c') @ Queue (qm s') =
        (Released q @ held_blocks c @ dq) @ Queue (qm s')"
    using c'(2) dq q' r by simp
  then have "Released (ReadQmAfter d) @ held_blocks c' = Released q @ held_blocks c @ dq"
    by (simp only: append_same_eq)
  then show ?thesis using c'(1) dq q' by auto
qed

lemma DispatchRead_serving:
  assumes lay: "layout_ok (Layout env)" and ok: "context_ok (Layout env) c"
    and qok: "queue_ok (Layout env) c (Queue (entry_qm env c q))"
  shows "\<exists>d c' dq. DispatchRead env q
             \<lparr>ReadFsContext2 = Some c, ReadSystemBufferNull = False, ReadLength = l\<rparr> = Inr d \<and>
           ReadStatus d = STATUS_SUCCESS \<and> ReadContextAfter d = Some c' \<and>
           ReadBytes d = take (unat l) (serving env c q) \<and>
           unat (ReadInformation d) = length (ReadBytes d) \<and>
           Queue (entry_qm env c q) = dq @ Queue (ReadQmAfter d) \<and>
           Released (ReadQmAfter d) @ held_blocks c' = Released q @ held_blocks c @ dq \<and>
           ReadBytes d @ rest_of_block (Layout env) c' (CurrentBlock c') (CurrentBlockOffset c') =
             rest_of_block (Layout env) c (CurrentBlock c) (CurrentBlockOffset c) @
             stream (Layout env) c dq \<and>
           context_ok (Layout env) c' \<and> queue_ok (Layout env) c' (Queue (ReadQmAfter d)) \<and>
           SnapLength c' = SnapLength c \<and> SnapLengthPad c' = SnapLengthPad c \<and>
           FilteredProcessIds c' = FilteredProcessIds c \<and>
           FilteredConnectionIds c' = FilteredConnectionIds c"
proof -
  let ?lay = "Layout env"
  let ?irp = "\<lparr>ReadFsContext2 = Some c, ReadSystemBufferNull = False, ReadLength = l\<rparr>"
  let ?q1 = "entry_qm env c q"
  let ?R = "rest_of_block ?lay c (CurrentBlock c) (CurrentBlockOffset c)"
  have irp: "ReadFsContext2 ?irp = Some c" "\<not> ReadSystemBufferNull ?irp" "ReadLength ?irp = l"
    by simp_all
  consider (eof) "RestartState c = RestartStateSendEof"
    | (plain) "RestartState c \<noteq> RestartStateSendEof" "RestartRequested c \<noteq> 1"
    | (restart) "RestartState c \<noteq> RestartStateSendEof" "RestartRequested c = 1"
    by blast
  then show ?thesis
  proof cases
    case eof
    let ?c' = "c\<lparr>RestartState := RestartStateInit\<rparr>"
    let ?d = "CompleteRead STATUS_SUCCESS 0 [] (Some ?c') q"
    have d: "DispatchRead env q ?irp = Inr ?d"
      using DispatchRead_cases(1)[OF irp(2,1) eof, of env q] .
    have e: "?q1 = q" using eof by (simp add: entry_qm_def)
    have sv: "serving env c q = []" using eof by (simp add: serving_def)
    have h: "held_blocks ?c' = held_blocks c" by (simp add: held_blocks_def)
    have r: "rest_of_block ?lay ?c' (CurrentBlock ?c') (CurrentBlockOffset ?c') = ?R"
      by (simp add: restart_state_simps)
    have o: "context_ok ?lay ?c'" "queue_ok ?lay ?c' (Queue q)"
      using ok qok e by (simp_all add: restart_state_simps)
    show ?thesis
      using d e sv h r o
      by (intro exI[of _ ?d] exI[of _ ?c'] exI[of _ "[]"])
         (simp add: CompleteRead_def stream_def)
  next
    case plain
    let ?A = "available ?lay c ?q1"
    from DispatchRead_stream[OF lay ok qok plain(2,1), of l] obtain d c' where
      d: "DispatchRead env q ?irp = Inr d" "ReadStatus d = STATUS_SUCCESS"
        "ReadContextAfter d = Some c'" "ReadBytes d = take (unat l) ?A"
        "unat (ReadInformation d) = length (ReadBytes d)"
        "available ?lay c' (ReadQmAfter d) = drop (unat l) ?A"
        "context_ok ?lay c'" "queue_ok ?lay c' (Queue (ReadQmAfter d))"
        "SnapLength c' = SnapLength c" "SnapLengthPad c' = SnapLengthPad c"
        "FilteredProcessIds c' = FilteredProcessIds c"
        "FilteredConnectionIds c' = FilteredConnectionIds c"
      by blast
    from DispatchRead_dequeued[OF d(1) irp(1,2) plain(1)] d(3) obtain dq where
      dq: "Queue ?q1 = dq @ Queue (ReadQmAfter d)"
        "Released (ReadQmAfter d) @ held_blocks c' = Released q @ held_blocks c @ dq"
      by auto
    let ?R' = "rest_of_block ?lay c' (CurrentBlock c') (CurrentBlockOffset c')"
    let ?Q' = "stream ?lay c (Queue (ReadQmAfter d))"
    have st: "stream ?lay c' = stream ?lay c" using config_fields_stream(1)[OF d(9-12)] .
    have A: "?A = (?R @ stream ?lay c dq) @ ?Q'"
      using dq(1) by (simp add: available_def stream_append)
    have A': "available ?lay c' (ReadQmAfter d) = ?R' @ ?Q'"
      by (simp add: available_def st)
    have "(ReadBytes d @ ?R') @ ?Q' = take (unat l) ?A @ drop (unat l) ?A"
      using d(4,6) A' by simp
    also have "\<dots> = ?A" by (rule append_take_drop_id)
    also have "\<dots> = (?R @ stream ?lay c dq) @ ?Q'" by (rule A)
    finally have eq: "ReadBytes d @ ?R' = ?R @ stream ?lay c dq" by (simp only: append_same_eq)
    have sv: "serving env c q = ?A" using plain by (simp add: serving_def)
    show ?thesis
      using d(1,2,3,5,7-12) d(4)[folded sv] dq eq
      by (intro exI[of _ d] exI[of _ c'] exI[of _ dq]) simp
  next
    case restart
    let ?c1 = "c\<lparr>RestartState := RestartStateNormal\<rparr>"
    let ?s0 = "EnterLoop ?c1 ?q1"
    have ok1: "context_ok ?lay ?c1" "queue_ok ?lay ?c1 (Queue ?q1)"
      using ok qok by (simp_all add: restart_state_simps)
    note e = EnterLoop_ok[OF ok1]
    have s0: "blockNode ?s0 = CurrentBlock c" "blockOffset ?s0 = CurrentBlockOffset c"
      "qm ?s0 = ?q1" "readOffset ?s0 = 0" "readBuffer ?s0 = []" "ctx ?s0 = ?c1"
      by (simp_all add: EnterLoop_def)
    have fl: "RestartRequested (ctx ?s0) = 1" using restart(2) s0(6) by simp
    have R0: "rest_of_block ?lay (ctx ?s0) (blockNode ?s0) (blockOffset ?s0) = ?R"
      unfolding s0 by (simp add: restart_state_simps)
    from ReadLoop_restart_state[OF lay e(1) fl, of l] obtain s' where
      s': "ReadLoop ?lay l ?s0 = Inr s'"
        "readBuffer s' = take (unat l) ?R"
        "unat (readOffset s') = min (unat l) (length ?R)"
        "Queue (qm s') = Queue ?q1"
        "rest_of_block ?lay (ctx s') (blockNode s') (blockOffset s') = drop (unat l) ?R"
        "case blockNode s' of
              None \<Rightarrow> True
            | Some b \<Rightarrow> ctx s' = ?c1 \<and> held_ok ?lay ?c1 b (blockOffset s') \<and>
                        unat (blockOffset s') < unat (BlockLength b)"
        "ctx s' = ?c1 \<or> restart_taken ?s0 s'"
      unfolding R0 unfolding s0 by auto
    let ?c' = "(ctx s')\<lparr>CurrentBlock := blockNode s', CurrentBlockOffset := blockOffset s'\<rparr>"
    have d: "DispatchRead env q ?irp = Inr (LeaveLoop s')"
      using DispatchRead_cases(2)[OF irp(2,1) restart(1), of env q] s'(1) by simp
    have L: "ReadStatus (LeaveLoop s') = STATUS_SUCCESS" "ReadContextAfter (LeaveLoop s') = Some ?c'"
      "ReadBytes (LeaveLoop s') = readBuffer s'" "ReadInformation (LeaveLoop s') = readOffset s'"
      "ReadQmAfter (LeaveLoop s') = qm s'"
      by (simp_all add: LeaveLoop_def CompleteRead_def)
    from DispatchRead_frame[OF d irp(1,2) restart(1)] have
      fr: "Released (qm s') @ held_blocks ?c' @ Queue (qm s') =
             Released ?q1 @ held_blocks c @ Queue ?q1"
        "SnapLength ?c' = SnapLength c" "SnapLengthPad ?c' = SnapLengthPad c"
        "FilteredProcessIds ?c' = FilteredProcessIds c"
        "FilteredConnectionIds ?c' = FilteredConnectionIds c"
      unfolding L by simp_all
    have r: "Released ?q1 = Released q" by (simp add: entry_qm_def QmGetInitialBlocks_def)
    have "(Released (qm s') @ held_blocks ?c') @ Queue ?q1 =
          (Released q @ held_blocks c) @ Queue ?q1"
      using fr(1) s'(4) r by simp
    then have rel: "Released (qm s') @ held_blocks ?c' = Released q @ held_blocks c @ []"
      by (simp only: append_same_eq append_Nil2)
    have rest': "rest_of_block ?lay ?c' (CurrentBlock ?c') (CurrentBlockOffset ?c') =
        drop (unat l) ?R"
      using s'(5) by (simp add: saved_cursor_simps)
    have cfg: "config_ok ?lay (ctx s')"
      using s'(7) ok by (auto simp: restart_taken_def context_ok_def config_ok_def s0)
    have cok: "context_ok ?lay ?c'"
      using cfg s'(6)
      by (auto simp: context_ok_def saved_cursor_simps restart_state_simps
            split: option.splits)
    have qk: "queue_ok ?lay ?c' (Queue (qm s'))"
      using qok s'(4) config_fields_stream(2)[OF fr(2-5), of ?lay] by simp
    have sv: "serving env c q = ?R" using restart by (simp add: serving_def)
    show ?thesis
      unfolding sv
      using d L s'(2,3,4) rel rest' cok qk fr(2-5)
      by (intro exI[of _ "LeaveLoop s'"] exI[of _ ?c'] exI[of _ "[]"])
         (simp add: stream_def)
  qed
qed

lemma entry_queue_ok:
  assumes "queue_ok (Layout env) c (Queue q)"
    and "\<forall>blocks. queue_ok (Layout env) c blocks \<longrightarrow>
           queue_ok (Layout env) c (InitialBlocks env blocks)"
  shows "queue_ok (Layout env) c (Queue (entry_qm env c q))"
  using assms by (simp add: entry_qm_def QmGetInitialBlocks_def)

lemma ReadAll_served:
  assumes lay: "layout_ok (Layout env)"
  shows "context_ok (Layout env) c \<Longrightarrow> queue_ok (Layout env) c (Queue q) \<Longrightarrow>
     \<forall>blocks. queue_ok (Layout env) c blocks \<longrightarrow>
        queue_ok (Layout env) c (InitialBlocks env blocks) \<Longrightarrow>
     \<exists>outs c' q' dq. ReadAll env c q ls = Inr (outs, c', q') \<and>
        Released q' @ held_blocks c' = Released q @ held_blocks c @ dq \<and>
        concat outs @ rest_of_block (Layout env) c' (CurrentBlock c') (CurrentBlockOffset c') =
          rest_of_block (Layout env) c (CurrentBlock c) (CurrentBlockOffset c) @
          stream (Layout env) c dq \<and>
        context_ok (Layout env) c' \<and> queue_ok (Layout env) c' (Queue q') \<and>
        stream (Layout env) c' = stream (Layout env) c \<and>
        queue_ok (Layout env) c' = queue_ok (Layout env) c"
proof (induction ls arbitrary: c q)
  case Nil
  then show ?case by (simp add: stream_def)
next
  case (Cons l ls)
  let ?lay = "Layout env"
  let ?R = "rest_of_block ?lay c (CurrentBlock c) (CurrentBlockOffset c)"
  note eq = entry_queue_ok[OF Cons.prems(2,3)]
  from DispatchRead_serving[OF lay Cons.prems(1) eq, of l] obtain d c1 dq1 where
    d: "DispatchRead env q
          \<lparr>ReadFsContext2 = Some c, ReadSystemBufferNull = False, ReadLength = l\<rparr> = Inr d"
       "ReadContextAfter d = Some c1"
       "Released (ReadQmAfter d) @ held_blocks c1 = Released q @ held_blocks c @ dq1"
       "ReadBytes d @ rest_of_block ?lay c1 (CurrentBlock c1) (CurrentBlockOffset c1) =
          ?R @ stream ?lay c dq1"
       "context_ok ?lay c1" "queue_ok ?lay c1 (Queue (ReadQmAfter d))"
    and f: "SnapLength c1 = SnapLength c" "SnapLengthPad c1 = SnapLengthPad c"
       "FilteredProcessIds c1 = FilteredProcessIds c"
       "FilteredConnectionIds c1 = FilteredConnectionIds c"
    by blast
  note cs = config_fields_stream[OF f, of ?lay]
  have init1: "\<forall>blocks. queue_ok ?lay c1 blocks \<longrightarrow> queue_ok ?lay c1 (InitialBlocks env blocks)"
    using Cons.prems(3) cs(2) by simp
  from Cons.IH[OF d(5,6) init1] obtain outs c' q' dq2 where
    r: "ReadAll env c1 (ReadQmAfter d) ls = Inr (outs, c', q')"
       "Released q' @ held_blocks c' = Released (ReadQmAfter d) @ held_blocks c1 @ dq2"
       "concat outs @ rest_of_block ?lay c' (CurrentBlock c') (CurrentBlockOffset c') =
          rest_of_block ?lay c1 (CurrentBlock c1) (CurrentBlockOffset c1) @ stream ?lay c1 dq2"
       "context_ok ?lay c'" "queue_ok ?lay c' (Queue q')"
       "stream ?lay c' = stream ?lay c1" "queue_ok ?lay c' = queue_ok ?lay c1"
    by blast
  have a: "ReadAll env c q (l # ls) = Inr (ReadBytes d # outs, c', q')"
    using d(1,2) r(1) by simp
  have b: "Released q' @ held_blocks c' = Released q @ held_blocks c @ (dq1 @ dq2)"
    using r(2) d(3) by simp
  have "concat (ReadBytes d # outs) @
          rest_of_block ?lay c' (CurrentBlock c') (CurrentBlockOffset c') =
        ReadBytes d @ rest_of_block ?lay c1 (CurrentBlock c1) (CurrentBlockOffset c1) @
          stream ?lay c dq2"
    using r(3) cs(1) by simp
  also have "\<dots> = (?R @ stream ?lay c dq1) @ stream ?lay c dq2"
    using d(4) by simp
  finally have e: "concat (ReadBytes d # outs) @
          rest_of_block ?lay c' (CurrentBlock c') (CurrentBlockOffset c') =
        ?R @ stream ?lay c (dq1 @ dq2)"
    by (simp add: stream_append)
  have g: "stream ?lay c' = stream ?lay c" "queue_ok ?lay c' = queue_ok ?lay c"
    using r(6,7) cs by simp_all
  show ?case using a b e r(4,5) g by blast
qed

lemma example_restart_ok:
  "context_ok (Layout example_env) (example_context\<lparr>RestartRequested := 1\<rparr>)"
  "queue_ok (Layout example_env) (example_context\<lparr>RestartRequested := 1\<rparr>) (Queue example_qm)"
  "queue_ok (Layout example_env) example_context (Queue example_qm)"
  "serving example_env (example_context\<lparr>RestartRequested := 1\<rparr>) example_qm = []"
  "RestartRequested example_context \<noteq> 1 \<and>
   RestartState example_context \<noteq> RestartStateSendEof"
  by code_simp+

lemma example_initial_ok:
  "\<forall>blocks. queue_ok (Layout example_env) c blocks \<longrightarrow>
     queue_ok (Layout example_env) c (InitialBlocks example_env blocks)"
  by (simp add: example_env_sel)

text \<open>
  C1, as the code has it. Take a reader whose context and queue are well formed, in any
  restart state and with the request flag set or clear, and a queue manager whose initial
  blocks are well formed. For every sequence of read calls, with buffers of any lengths
  (1 byte included), no call faults, and the bytes the calls return, concatenated, are
  the rest of the block held followed by the blocks dequeued meanwhile that are not
  suppressed, each as it is or truncated, in dequeue order, up to the cursor saved in
  the block the reader holds at the end: the next call resumes at that byte. A single
  call returns the first bytes of what it can be given (\<open>serving\<close>), as many as its buffer
  holds: fewer than asked only where that ends, which is where no more data is
  available, or, with a restart requested, at the next block boundary. With no restart
  pending the calls return the logical stream cut into pieces, each piece shorter than
  asked only where the stream ends.
\<close>

theorem C1_reads_deliver_the_stream:
  assumes lay: "layout_ok (Layout env)"
    and ok: "context_ok (Layout env) c"
    and qok: "queue_ok (Layout env) c (Queue q)"
    and init: "\<forall>blocks. queue_ok (Layout env) c blocks \<longrightarrow>
                 queue_ok (Layout env) c (InitialBlocks env blocks)"
  shows "(\<exists>outs c' q' dq. ReadAll env c q ls = Inr (outs, c', q') \<and>
            Released q' @ held_blocks c' = Released q @ held_blocks c @ dq \<and>
            concat outs @
              rest_of_block (Layout env) c' (CurrentBlock c') (CurrentBlockOffset c') =
              rest_of_block (Layout env) c (CurrentBlock c) (CurrentBlockOffset c) @
              stream (Layout env) c dq \<and>
            context_ok (Layout env) c' \<and> queue_ok (Layout env) c' (Queue q') \<and>
            stream (Layout env) c' = stream (Layout env) c \<and>
            queue_ok (Layout env) c' = queue_ok (Layout env) c) \<and>
         (\<forall>l. \<exists>c' q' dq.
            ReadAll env c q [l] = Inr ([take (unat l) (serving env c q)], c', q') \<and>
            Queue (entry_qm env c q) = dq @ Queue q' \<and>
            Released q' @ held_blocks c' = Released q @ held_blocks c @ dq) \<and>
         (RestartRequested c \<noteq> 1 \<and> RestartState c \<noteq> RestartStateSendEof \<longrightarrow>
            (\<exists>c' q'. ReadAll env c q ls =
               Inr (chunks (map unat ls) (available (Layout env) c (entry_qm env c q)), c', q') \<and>
             concat (chunks (map unat ls) (available (Layout env) c (entry_qm env c q))) =
               take (sum_list (map unat ls)) (available (Layout env) c (entry_qm env c q)) \<and>
             available (Layout env) c' (entry_qm env c' q') =
               drop (sum_list (map unat ls)) (available (Layout env) c (entry_qm env c q))))"
proof (intro conjI allI impI)
  from ReadAll_served[OF lay ok qok init, of ls]
  show "\<exists>outs c' q' dq. ReadAll env c q ls = Inr (outs, c', q') \<and>
            Released q' @ held_blocks c' = Released q @ held_blocks c @ dq \<and>
            concat outs @
              rest_of_block (Layout env) c' (CurrentBlock c') (CurrentBlockOffset c') =
              rest_of_block (Layout env) c (CurrentBlock c) (CurrentBlockOffset c) @
              stream (Layout env) c dq \<and>
            context_ok (Layout env) c' \<and> queue_ok (Layout env) c' (Queue q') \<and>
            stream (Layout env) c' = stream (Layout env) c \<and>
            queue_ok (Layout env) c' = queue_ok (Layout env) c" .
next
  fix l
  note eq = entry_queue_ok[OF qok init]
  from DispatchRead_serving[OF lay ok eq, of l] obtain d c1 dq where
    d: "DispatchRead env q
          \<lparr>ReadFsContext2 = Some c, ReadSystemBufferNull = False, ReadLength = l\<rparr> = Inr d"
       "ReadContextAfter d = Some c1"
       "ReadBytes d = take (unat l) (serving env c q)"
       "Queue (entry_qm env c q) = dq @ Queue (ReadQmAfter d)"
       "Released (ReadQmAfter d) @ held_blocks c1 = Released q @ held_blocks c @ dq"
    by blast
  have "ReadAll env c q [l] = Inr ([take (unat l) (serving env c q)], c1, ReadQmAfter d)"
    using d(1,2,3) by simp
  then show "\<exists>c' q' dq.
            ReadAll env c q [l] = Inr ([take (unat l) (serving env c q)], c', q') \<and>
            Queue (entry_qm env c q) = dq @ Queue q' \<and>
            Released q' @ held_blocks c' = Released q @ held_blocks c @ dq"
    using d(4,5) by blast
next
  assume a: "RestartRequested c \<noteq> 1 \<and> RestartState c \<noteq> RestartStateSendEof"
  note eq = entry_queue_ok[OF qok init]
  from ReadAll_chunks[OF lay ok eq, of ls] a
  show "\<exists>c' q'. ReadAll env c q ls =
               Inr (chunks (map unat ls) (available (Layout env) c (entry_qm env c q)), c', q') \<and>
             concat (chunks (map unat ls) (available (Layout env) c (entry_qm env c q))) =
               take (sum_list (map unat ls)) (available (Layout env) c (entry_qm env c q)) \<and>
             available (Layout env) c' (entry_qm env c' q') =
               drop (sum_list (map unat ls)) (available (Layout env) c (entry_qm env c q))"
    by simp
qed

theorem C1_reads_witness:
  "(\<exists>c' q'. ReadAll example_env example_context example_qm [1, 30, 100] =
     Inr ([[1],
           [2, 3, 4, 6, 0, 0, 0, 40, 0, 0, 0, 0, 0, 0, 0, 0, 0, 0, 0, 0, 0, 0, 0, 5, 0, 0, 0,
            10, 0, 0],
           [0, 101, 102, 103, 104, 105, 0, 0, 0, 40, 0, 0, 0]], c', q')) \<and>
   (\<exists>c' q'. ReadAll example_env (example_context\<lparr>RestartRequested := 1\<rparr>) example_qm [4] =
     Inr ([[]], c', q'))"
proof -
  note a = C1_reads_deliver_the_stream[OF example_reader_ok(1,2) example_restart_ok(3)
      example_initial_ok, of "[1, 30, 100]"]
  note b = C1_reads_deliver_the_stream[OF example_reader_ok(1) example_restart_ok(1,2)
      example_initial_ok, of "[4]"]
  from a example_restart_ok(5) have
    "\<exists>c' q'. ReadAll example_env example_context example_qm [1, 30, 100] =
       Inr (chunks (map unat [1, 30, 100 :: u32])
              (available (Layout example_env) example_context
                 (entry_qm example_env example_context example_qm)), c', q')"
    by blast
  moreover from b have
    "\<exists>c' q'. ReadAll example_env (example_context\<lparr>RestartRequested := 1\<rparr>) example_qm [4] =
       Inr ([take (unat (4::u32))
               (serving example_env (example_context\<lparr>RestartRequested := 1\<rparr>) example_qm)],
            c', q')"
    by blast
  ultimately show ?thesis unfolding example_chunks example_restart_ok(4) by simp
qed

text \<open>
  C1 as the claim words it fails where a restart is pending: with a four-byte block
  waiting in the queue, a read of four bytes made with the request flag set returns no
  byte, although four bytes are there to be had. The loop stops at the block boundary to
  serve the restart.
\<close>

theorem C1_restart_counterexample:
  "DispatchRead example_env example_qm
     \<lparr>ReadFsContext2 = Some (example_context\<lparr>RestartRequested := 1\<rparr>),
      ReadSystemBufferNull = False, ReadLength = 4\<rparr>
     = Inr (CompleteRead STATUS_SUCCESS 0 []
              (Some (example_context\<lparr>RestartRequested := 0, RestartState := RestartStateInit\<rparr>))
              example_qm) \<and>
   take 4 (available example_layout (example_context\<lparr>RestartRequested := 1\<rparr>) example_qm)
     = [1, 2, 3, 4]"
  by code_simp

subsection \<open>What the truncation writes\<close>

lemma CopyBlock_writes:
  assumes "CopyBlock lay rl b s = Inr s'"
  shows "ctx s' = ctx s \<and> (\<exists>bytes. readBuffer s' = readBuffer s @ bytes) \<and>
         (qm s' = qm s \<or> qm s' = QmCleanupBlock b (qm s))"
proof -
  have r: "ctx (ReleaseIfDone b t) = ctx t \<and> readBuffer (ReleaseIfDone b t) = readBuffer t \<and>
      (qm (ReleaseIfDone b t) = qm t \<or> qm (ReleaseIfDone b t) = QmCleanupBlock b (qm t))" for t
    by (simp add: ReleaseIfDone_def)
  have c: "\<And>src off n t t'. CopyToReader src off n t = Inr t' \<Longrightarrow>
      qm t' = qm t \<and> ctx t' = ctx t \<and> (\<exists>bytes. readBuffer t' = readBuffer t @ bytes)"
    by (auto simp: CopyToReader_def split: option.splits)
  have h: "\<And>t t'. CopyHeader lay rl t = Inr t' \<Longrightarrow>
      qm t' = qm t \<and> ctx t' = ctx t \<and> (\<exists>bytes. readBuffer t' = readBuffer t @ bytes)"
    using c by (auto simp: CopyHeader_def split: if_splits)
  have d: "\<And>t t'. CopyData lay rl b t = Inr t' \<Longrightarrow>
      qm t' = qm t \<and> ctx t' = ctx t \<and> (\<exists>bytes. readBuffer t' = readBuffer t @ bytes)"
    using c by (auto simp: CopyData_def split: if_splits)
  have p: "\<And>t. qm (CopyPadding rl t) = qm t \<and> ctx (CopyPadding rl t) = ctx t \<and>
      (\<exists>bytes. readBuffer (CopyPadding rl t) = readBuffer t @ bytes)"
    by (simp add: CopyPadding_def Let_def)
  have f: "\<And>t t'. CopyFooter rl (BlockLength b) t = Inr t' \<Longrightarrow>
      qm t' = qm t \<and> ctx t' = ctx t \<and> (\<exists>bytes. readBuffer t' = readBuffer t @ bytes)"
    using c by (auto simp: CopyFooter_def split: if_splits)
  obtain t where t: "s' = ReleaseIfDone b t" "qm t = qm s" "ctx t = ctx s"
    "\<exists>bytes. readBuffer t = readBuffer s @ bytes"
  proof (cases "rd32 (ModifiedHeader (ctx s)) (HdrBlockType lay) = Some 0")
    case True
    then obtain s1 where "CopyToReader (blockData b) (unat (blockOffset s))
        (min (rl - readOffset s) (BlockLength b - blockOffset s)) s = Inr s1" "s' = ReleaseIfDone b s1"
      using assms(1) by (auto simp: CopyBlock_def split: sum.splits)
    then show ?thesis using c that by blast
  next
    case False
    then obtain s1 s2 s4 where
      s: "CopyHeader lay rl s = Inr s1" "CopyData lay rl b s1 = Inr s2"
      "CopyFooter rl (BlockLength b) (CopyPadding rl s2) = Inr s4" "s' = ReleaseIfDone b s4"
      using assms(1) by (auto simp: CopyBlock_def split: sum.splits option.splits if_splits)
    obtain b1 where b1: "qm s1 = qm s" "ctx s1 = ctx s" "readBuffer s1 = readBuffer s @ b1"
      using h[OF s(1)] by blast
    obtain b2 where b2: "qm s2 = qm s1" "ctx s2 = ctx s1" "readBuffer s2 = readBuffer s1 @ b2"
      using d[OF s(2)] by blast
    obtain b3 where b3: "qm (CopyPadding rl s2) = qm s2" "ctx (CopyPadding rl s2) = ctx s2"
      "readBuffer (CopyPadding rl s2) = readBuffer s2 @ b3"
      using p[of s2] by blast
    obtain b4 where b4: "qm s4 = qm (CopyPadding rl s2)" "ctx s4 = ctx (CopyPadding rl s2)"
      "readBuffer s4 = readBuffer (CopyPadding rl s2) @ b4"
      using f[OF s(3)] by blast
    have "readBuffer s4 = readBuffer s @ (b1 @ b2 @ b3 @ b4)" using b1 b2 b3 b4 by simp
    then show ?thesis using that[OF s(4)] b1 b2 b3 b4 by auto
  qed
  show ?thesis using r[of t] t by auto
qed

lemma DispatchRead_moved:
  assumes d: "DispatchRead env q irp = Inr d" and c: "ReadFsContext2 irp = Some c"
  shows "\<exists>c' dq. ReadContextAfter d = Some c' \<and>
           Released (ReadQmAfter d) @ held_blocks c' = Released q @ held_blocks c @ dq"
proof (cases "ReadSystemBufferNull irp")
  case True
  then have "d = CompleteRead STATUS_INVALID_PARAMETER 0 [] (Some c) q"
    using assms by (simp add: DispatchRead_def)
  then show ?thesis by (simp add: CompleteRead_def)
next
  case nn: False
  show ?thesis
  proof (cases "RestartState c = RestartStateSendEof")
    case True
    from DispatchRead_cases(1)[OF nn c True, of env q] d
    have "d = CompleteRead STATUS_SUCCESS 0 [] (Some (c\<lparr>RestartState := RestartStateInit\<rparr>)) q"
      by simp
    then show ?thesis by (simp add: CompleteRead_def held_blocks_def)
  next
    case False
    from DispatchRead_dequeued[OF d c nn False] show ?thesis by blast
  qed
qed

lemma ReadAll_moved:
  "ReadAll env c q ls = Inr (outs, c', q') \<Longrightarrow>
     \<exists>dq. Released q' @ held_blocks c' = Released q @ held_blocks c @ dq"
proof (induction ls arbitrary: c q outs)
  case Nil
  then show ?case by simp
next
  case (Cons l ls)
  let ?irp = "\<lparr>ReadFsContext2 = Some c, ReadSystemBufferNull = False, ReadLength = l\<rparr>"
  from Cons.prems obtain d c1 outs1 where
    d: "DispatchRead env q ?irp = Inr d" "ReadContextAfter d = Some c1"
      "ReadAll env c1 (ReadQmAfter d) ls = Inr (outs1, c', q')"
    by (auto split: sum.splits option.splits)
  from DispatchRead_moved[OF d(1), of c] d(2) obtain dq1 where
    "Released (ReadQmAfter d) @ held_blocks c1 = Released q @ held_blocks c @ dq1" by auto
  moreover from Cons.IH[OF d(3)] obtain dq2 where
    "Released q' @ held_blocks c' = Released (ReadQmAfter d) @ held_blocks c1 @ dq2" by blast
  ultimately have "Released q' @ held_blocks c' = Released q @ held_blocks c @ (dq1 @ dq2)"
    by simp
  then show ?case by blast
qed

lemma DispatchRead_blocks:
  assumes "DispatchRead env q irp = Inr d" and "ReadFsContext2 irp = Some c"
    and "q1 = (if ReadSystemBufferNull irp then q else entry_qm env c q)"
  shows "\<exists>c'. ReadContextAfter d = Some c' \<and>
            Released (ReadQmAfter d) @ held_blocks c' @ Queue (ReadQmAfter d) =
              Released q1 @ held_blocks c @ Queue q1 \<and>
            SnapLength c' = SnapLength c \<and> SnapLengthPad c' = SnapLengthPad c \<and>
            FilteredProcessIds c' = FilteredProcessIds c \<and>
            FilteredConnectionIds c' = FilteredConnectionIds c"
proof (cases "ReadSystemBufferNull irp")
  case True
  then have "d = CompleteRead STATUS_INVALID_PARAMETER 0 [] (Some c) q"
    using assms(1,2) by (simp add: DispatchRead_def)
  then show ?thesis using True assms(3) by (simp add: CompleteRead_def)
next
  case nn: False
  show ?thesis
  proof (cases "RestartState c = RestartStateSendEof")
    case True
    from DispatchRead_cases(1)[OF nn assms(2) True, of env q] assms(1)
    have "d = CompleteRead STATUS_SUCCESS 0 [] (Some (c\<lparr>RestartState := RestartStateInit\<rparr>)) q"
      by simp
    then show ?thesis using nn True assms(3)
      by (simp add: CompleteRead_def held_blocks_def entry_qm_def)
  next
    case False
    from DispatchRead_frame[OF assms(1,2) nn False] nn assms(3)
    show ?thesis by auto
  qed
qed

text \<open>
  C9, as the code has it. No read writes to a block. The blocks of the model are what the
  queue manager owns: the ones it has taken back (\<open>Released\<close>), the one the reader holds
  (\<open>held_blocks\<close>) and the ones still queued. After any completed read on an open handle
  they are, in this order, the blocks there were when the loop was entered, each with the
  same header fields, the same \<open>Buffer\<close> and the same \<open>Data\<close>, and the snap length and the
  filters of the context are as they were. After any sequence of reads the blocks taken
  back and the block held are those there were, followed by blocks dequeued meanwhile.
  The truncation logic of lines 362 to 375 (\<open>TrimBlock\<close>) stores to five fields of the
  context and nowhere else: the scratch copies \<open>ModifiedHeader\<close> and \<open>ModifiedFooter\<close>, and
  the offsets \<open>DataEndOffset\<close>, \<open>ModifiedFooterOffset\<close> and \<open>OriginalFooterOffset\<close>. The copy
  of lines 379 to 455 (\<open>CopyBlock\<close>) leaves the context as it was, appends to the read
  buffer, and gives the block to \<^verbatim>\<open>QmCleanupBlock\<close> or not.
\<close>

theorem C9_blocks_pass_unchanged:
  "(\<forall>irp d c q1. DispatchRead env q irp = Inr d \<and> ReadFsContext2 irp = Some c \<and>
        q1 = (if ReadSystemBufferNull irp then q else entry_qm env c q) \<longrightarrow>
      (\<exists>c'. ReadContextAfter d = Some c' \<and>
         Released (ReadQmAfter d) @ held_blocks c' @ Queue (ReadQmAfter d) =
           Released q1 @ held_blocks c @ Queue q1 \<and>
         SnapLength c' = SnapLength c \<and> SnapLengthPad c' = SnapLengthPad c \<and>
         FilteredProcessIds c' = FilteredProcessIds c \<and>
         FilteredConnectionIds c' = FilteredConnectionIds c)) \<and>
   (\<forall>c ls outs c' q'. ReadAll env c q ls = Inr (outs, c', q') \<longrightarrow>
      (\<exists>dq. Released q' @ held_blocks c' = Released q @ held_blocks c @ dq)) \<and>
   (\<forall>lay c0 b c1. TrimBlock lay c0 b = Inr c1 \<longrightarrow>
      c1 = c0\<lparr>ModifiedHeader := ModifiedHeader c1, ModifiedFooter := ModifiedFooter c1,
              DataEndOffset := DataEndOffset c1,
              ModifiedFooterOffset := ModifiedFooterOffset c1,
              OriginalFooterOffset := OriginalFooterOffset c1\<rparr>) \<and>
   (\<forall>lay rl b s s'. CopyBlock lay rl b s = Inr s' \<longrightarrow>
      ctx s' = ctx s \<and> (\<exists>bytes. readBuffer s' = readBuffer s @ bytes) \<and>
      (qm s' = qm s \<or> qm s' = QmCleanupBlock b (qm s)))"
proof -
  have B: "c1 = c0\<lparr>ModifiedHeader := ModifiedHeader c1, ModifiedFooter := ModifiedFooter c1,
                    DataEndOffset := DataEndOffset c1,
                    ModifiedFooterOffset := ModifiedFooterOffset c1,
                    OriginalFooterOffset := OriginalFooterOffset c1\<rparr>"
    if "TrimBlock lay c0 b = Inr c1" for lay c0 b c1
    using TrimBlock_same_config[OF that] by (simp add: same_config_def)
  show ?thesis
    using DispatchRead_blocks[of env q] B CopyBlock_writes ReadAll_moved[of env _ q]
    by (intro conjI allI impI) blast+
qed

theorem C9_blocks_pass_unchanged_witness:
  "\<exists>d c'. DispatchRead example_env example_qm
            \<lparr>ReadFsContext2 = Some example_context, ReadSystemBufferNull = False,
             ReadLength = 100\<rparr> = Inr d \<and>
     ReadContextAfter d = Some c' \<and>
     Released (ReadQmAfter d) @ held_blocks c' @ Queue (ReadQmAfter d) =
       [example_other, example_filtered, example_packet]"
proof -
  let ?irp = "\<lparr>ReadFsContext2 = Some example_context, ReadSystemBufferNull = False,
             ReadLength = 100\<rparr>"
  from DispatchRead_stream[OF example_reader_ok, of 100]
  obtain d where d: "DispatchRead example_env example_qm ?irp = Inr d" by blast
  have "\<exists>c'. ReadContextAfter d = Some c' \<and>
         Released (ReadQmAfter d) @ held_blocks c' @ Queue (ReadQmAfter d) =
           Released (entry_qm example_env example_context example_qm) @
           held_blocks example_context @
           Queue (entry_qm example_env example_context example_qm)"
    using C9_blocks_pass_unchanged[of example_env example_qm] d by fastforce
  then show ?thesis using d unfolding example_blocks by blast
qed

text \<open>
  C9 as the claim words it says that every write of the truncation logic goes to the
  read buffer or to \<open>ModifiedHeader\<close> or \<open>ModifiedFooter\<close>. Lines 367 to 369 store three
  offsets in the context as well: for the packet block of the example, 33, 36 and 40
  where there were zeros.
\<close>

theorem C9_offsets_counterexample:
  "TrimBlock example_layout example_context example_packet =
     Inr (example_context
            \<lparr>DataEndOffset := 33, ModifiedFooterOffset := 36, OriginalFooterOffset := 40,
             ModifiedHeader := [6, 0, 0, 0, 40, 0, 0, 0, 0, 0, 0, 0, 0, 0, 0, 0, 0, 0, 0, 0,
                                5, 0, 0, 0, 10, 0, 0, 0],
             ModifiedFooter := [40, 0, 0, 0]\<rparr>) \<and>
   DataEndOffset example_context = 0 \<and> ModifiedFooterOffset example_context = 0 \<and>
   OriginalFooterOffset example_context = 0"
  by code_simp

subsection \<open>The transitions of the restart state\<close>

text \<open>
  C3. The transitions of \<open>RestartState\<close> on an open handle. A read without a buffer
  changes nothing. With a buffer: a read entered in \<^verbatim>\<open>RestartStateSendEof\<close> returns no
  byte with \<^verbatim>\<open>STATUS_SUCCESS\<close> and leaves \<^verbatim>\<open>RestartStateInit\<close>, all else as it was. A read
  entered in \<^verbatim>\<open>RestartStateInit\<close> asks the queue manager for the initial blocks, one entered in \<^verbatim>\<open>RestartStateNormal\<close>
  does not, and both leave either \<^verbatim>\<open>RestartStateNormal\<close> with the request flag as it
  was, or, if the request flag was set, the flag cleared, no block held, and
  \<^verbatim>\<open>RestartStateSendEof\<close> when the call has written a byte, \<^verbatim>\<open>RestartStateInit\<close> when it
  has written none. No control request changes \<open>RestartState\<close>. And a read with a buffer
  on a well-formed reader does return.
\<close>

theorem C3_restart_transitions:
  assumes "ReadFsContext2 irp = Some c"
  shows "(ReadSystemBufferNull irp \<longrightarrow>
            DispatchRead env q irp =
              Inr (CompleteRead STATUS_INVALID_PARAMETER 0 [] (Some c) q)) \<and>
         (\<not> ReadSystemBufferNull irp \<and> RestartState c = RestartStateSendEof \<longrightarrow>
            DispatchRead env q irp =
              Inr (CompleteRead STATUS_SUCCESS 0 []
                     (Some (c\<lparr>RestartState := RestartStateInit\<rparr>)) q)) \<and>
         (\<not> ReadSystemBufferNull irp \<and> RestartState c \<noteq> RestartStateSendEof \<longrightarrow>
            (\<forall>d. DispatchRead env q irp = Inr d \<longrightarrow>
               (\<exists>c'. ReadContextAfter d = Some c' \<and>
                  Calls (ReadQmAfter d) =
                    (if RestartState c = RestartStateInit
                     then Calls q @ [CallGetInitialBlocks False] else Calls q) \<and>
                  ((RestartState c' = RestartStateNormal \<and>
                    RestartRequested c' = RestartRequested c) \<or>
                   (RestartRequested c = 1 \<and> RestartRequested c' = 0 \<and>
                    CurrentBlock c' = None \<and>
                    RestartState c' = (if ReadInformation d \<noteq> 0 then RestartStateSendEof
                                       else RestartStateInit)))))) \<and>
         (\<forall>cirp cd. FsContext2 cirp = Some c \<and> DispatchDeviceControl env q cirp = Inr cd \<longrightarrow>
            (\<exists>c'. ContextAfter cd = Some c' \<and> RestartState c' = RestartState c)) \<and>
         (\<not> ReadSystemBufferNull irp \<and> layout_ok (Layout env) \<and> context_ok (Layout env) c \<and>
          queue_ok (Layout env) c (Queue (entry_qm env c q)) \<longrightarrow>
            (\<exists>d. DispatchRead env q irp = Inr d))"
proof (intro conjI impI allI)
  assume "ReadSystemBufferNull irp"
  then show "DispatchRead env q irp =
      Inr (CompleteRead STATUS_INVALID_PARAMETER 0 [] (Some c) q)"
    using assms by (simp add: DispatchRead_def)
next
  assume a: "\<not> ReadSystemBufferNull irp \<and> RestartState c = RestartStateSendEof"
  then have nn: "\<not> ReadSystemBufferNull irp" and e: "RestartState c = RestartStateSendEof"
    by simp_all
  from DispatchRead_cases(1)[OF nn assms e]
  show "DispatchRead env q irp =
              Inr (CompleteRead STATUS_SUCCESS 0 []
                     (Some (c\<lparr>RestartState := RestartStateInit\<rparr>)) q)" .
next
  fix d
  assume a: "\<not> ReadSystemBufferNull irp \<and> RestartState c \<noteq> RestartStateSendEof"
    and d: "DispatchRead env q irp = Inr d"
  from a have nn: "\<not> ReadSystemBufferNull irp" and ns: "RestartState c \<noteq> RestartStateSendEof"
    by simp_all
  have "Calls (entry_qm env c q) =
      (if RestartState c = RestartStateInit then Calls q @ [CallGetInitialBlocks False] else Calls q)"
    by (simp add: entry_qm_def QmGetInitialBlocks_def)
  with DispatchRead_frame[OF d assms nn ns]
  show "\<exists>c'. ReadContextAfter d = Some c' \<and>
                  Calls (ReadQmAfter d) =
                    (if RestartState c = RestartStateInit
                     then Calls q @ [CallGetInitialBlocks False] else Calls q) \<and>
                  ((RestartState c' = RestartStateNormal \<and>
                    RestartRequested c' = RestartRequested c) \<or>
                   (RestartRequested c = 1 \<and> RestartRequested c' = 0 \<and>
                    CurrentBlock c' = None \<and>
                    RestartState c' = (if ReadInformation d \<noteq> 0 then RestartStateSendEof
                                       else RestartStateInit)))"
    by auto
next
  fix cirp cd
  assume "FsContext2 cirp = Some c \<and> DispatchDeviceControl env q cirp = Inr cd"
  then show "\<exists>c'. ContextAfter cd = Some c' \<and> RestartState c' = RestartState c"
    using DispatchDeviceControl_frame[of env q cirp cd c] by auto
next
  assume a: "\<not> ReadSystemBufferNull irp \<and> layout_ok (Layout env) \<and> context_ok (Layout env) c \<and>
          queue_ok (Layout env) c (Queue (entry_qm env c q))"
  have "irp = \<lparr>ReadFsContext2 = Some c, ReadSystemBufferNull = False,
               ReadLength = ReadLength irp\<rparr>"
    using assms a by (cases irp) simp
  then show "\<exists>d. DispatchRead env q irp = Inr d"
    using DispatchRead_serving[of env c q "ReadLength irp"] a by metis
qed

theorem C3_restart_transitions_witness:
  "DispatchRead example_env example_qm
     \<lparr>ReadFsContext2 = Some (example_context\<lparr>RestartState := RestartStateSendEof\<rparr>),
      ReadSystemBufferNull = False, ReadLength = 4\<rparr> =
     Inr (CompleteRead STATUS_SUCCESS 0 []
            (Some (example_context\<lparr>RestartState := RestartStateInit\<rparr>)) example_qm) \<and>
   (\<exists>d c'. DispatchRead example_env example_qm
             \<lparr>ReadFsContext2 = Some example_held_context, ReadSystemBufferNull = False,
              ReadLength = 4\<rparr> = Inr d \<and>
      ReadContextAfter d = Some c' \<and> ReadInformation d = 2 \<and>
      Calls (ReadQmAfter d) = [] \<and> RestartRequested c' = 0 \<and> CurrentBlock c' = None \<and>
      RestartState c' = RestartStateSendEof)"
  using
    C3_restart_transitions [of "\<lparr>ReadFsContext2 =
          Some (example_context\<lparr>RestartState := RestartStateSendEof\<rparr>),
        ReadSystemBufferNull = False, ReadLength = 4\<rparr>"
      "example_context\<lparr>RestartState := RestartStateSendEof\<rparr>" example_env example_qm]
    C3_restart_transitions [of "\<lparr>ReadFsContext2 = Some example_held_context,
        ReadSystemBufferNull = False, ReadLength = 4\<rparr>"
      example_held_context example_env example_qm]
    example_held_read
  by (simp add: CompleteRead_def example_held_context_def example_context_def example_qm_def)

subsection \<open>A truncated packet block\<close>

lemma rd32_append_left: "off + 4 \<le> length A \<Longrightarrow> rd32 (A @ B) off = rd32 A off"
  by (simp add: rd32_def read_bytes_def)

lemma rd32_append_right: "rd32 (A @ B) (length A + off) = rd32 B off"
  by (simp add: rd32_def read_bytes_def)

lemma nth_wr32_other:
  "off + 4 \<le> length bs \<Longrightarrow> i < off \<or> off + 4 \<le> i \<Longrightarrow> wr32 bs off v ! i = bs ! i"
  by (auto simp: wr32_def nth_append)

lemma delivered_parts:
  assumes lay: "layout_ok lay" and bok: "block_ok lay c b" and tr: "truncated lay c b"
  defines "T \<equiv> truncated_length lay c"
  defines "Hd \<equiv> wr32 (wr32 (take (unat (HeaderSize lay)) (blockData b))
                (HdrBlockLength lay) (of_nat T)) (HdrCapturedLength lay) (SnapLength c)"
  defines "Ft \<equiv> wr32 (take (unat (FooterSize lay))
                (drop (unat (BlockLength b) - unat (FooterSize lay)) (blockData b)))
             (FtrBlockLength lay) (of_nat T)"
  shows "delivered lay c b =
           Hd @ take (unat (SnapLength c)) (drop (unat (HeaderSize lay)) (blockData b)) @
           replicate (unat (SnapLengthPad c)) 0 @ Ft"
    "length Hd = unat (HeaderSize lay)" "length Ft = unat (FooterSize lay)"
    "length (take (unat (SnapLength c)) (drop (unat (HeaderSize lay)) (blockData b))) =
       unat (SnapLength c)"
    "unat (of_nat T :: u32) = T"
    "rd32 Hd (HdrCapturedLength lay) = Some (SnapLength c)"
    "rd32 Hd (HdrBlockLength lay) = Some (of_nat T)"
    "rd32 Ft (FtrBlockLength lay) = Some (of_nat T)"
    "\<And>i. i < unat (HeaderSize lay) \<Longrightarrow>
       i < HdrBlockLength lay \<or> HdrBlockLength lay + 4 \<le> i \<Longrightarrow>
       i < HdrCapturedLength lay \<or> HdrCapturedLength lay + 4 \<le> i \<Longrightarrow>
       Hd ! i = blockData b ! i"
    "\<And>i. i < unat (FooterSize lay) \<Longrightarrow>
       i < FtrBlockLength lay \<or> FtrBlockLength lay + 4 \<le> i \<Longrightarrow>
       Ft ! i = blockData b ! (unat (BlockLength b) - unat (FooterSize lay) + i)"
proof -
  let ?h = "unat (HeaderSize lay)" and ?f = "unat (FooterSize lay)"
  let ?bl = "unat (BlockLength b)" and ?s = "unat (SnapLength c)"
  let ?data = "blockData b"
  have pk: "BlockType b = PacketBlock" using tr by (simp add: truncated_def)
  have len: "length ?data = ?bl" and hf: "?h + ?f \<le> ?bl"
    and fit: "T \<le> ?bl"
    using bok pk tr by (simp_all add: block_ok_def T_def)
  have T: "T = ?h + ?s + unat (SnapLengthPad c) + ?f" by (simp add: T_def truncated_length_def)
  have lo: "HdrBlockLength lay + 4 \<le> ?h"
    "HdrCapturedLength lay + 4 \<le> ?h" "FtrBlockLength lay + 4 \<le> ?f"
    "HdrBlockLength lay + 4 \<le> HdrCapturedLength lay \<or>
       HdrCapturedLength lay + 4 \<le> HdrBlockLength lay"
    using lay by (simp_all add: layout_ok_def)
  show "delivered lay c b =
           Hd @ take ?s (drop ?h ?data) @ replicate (unat (SnapLengthPad c)) 0 @ Ft"
    using tr by (simp add: delivered_def Hd_def Ft_def T_def)
  have lh0: "length (take ?h ?data) = ?h" using len hf by simp
  have lh1: "length (wr32 (take ?h ?data) (HdrBlockLength lay) (of_nat T)) = ?h"
    using lh0 lo by (simp add: length_wr32)
  show lh: "length Hd = ?h" using lh1 lo by (simp add: Hd_def length_wr32)
  have lf0: "length (take ?f (drop (?bl - ?f) ?data)) = ?f" using len hf by simp
  show lf: "length Ft = ?f" using lf0 lo by (simp add: Ft_def length_wr32)
  show "length (take ?s (drop ?h ?data)) = ?s" using len fit T by simp
  have "?bl < 2 ^ 32" using unsigned_less[of "BlockLength b", where ?'a = nat] by simp
  then have "T < 2 ^ 32" using fit by simp
  then show "unat (of_nat T :: u32) = T" by (simp add: unsigned_of_nat take_bit_nat_eq_self)
  show "rd32 Hd (HdrCapturedLength lay) = Some (SnapLength c)"
    unfolding Hd_def using lh1 lo by (intro rd32_wr32_same) simp
  have "rd32 Hd (HdrBlockLength lay) =
      rd32 (wr32 (take ?h ?data) (HdrBlockLength lay) (of_nat T)) (HdrBlockLength lay)"
    unfolding Hd_def using lh1 lo by (intro rd32_wr32_other) auto
  also have "\<dots> = Some (of_nat T)" using lh0 lo by (intro rd32_wr32_same) simp
  finally show "rd32 Hd (HdrBlockLength lay) = Some (of_nat T)" .
  show "rd32 Ft (FtrBlockLength lay) = Some (of_nat T)"
    unfolding Ft_def using lf0 lo by (intro rd32_wr32_same) simp
  show "Hd ! i = ?data ! i"
    if "i < ?h" "i < HdrBlockLength lay \<or> HdrBlockLength lay + 4 \<le> i"
      "i < HdrCapturedLength lay \<or> HdrCapturedLength lay + 4 \<le> i" for i
  proof -
    have "Hd ! i = wr32 (take ?h ?data) (HdrBlockLength lay) (of_nat T) ! i"
      unfolding Hd_def using lh1 lo that(3) by (intro nth_wr32_other) simp_all
    also have "\<dots> = take ?h ?data ! i"
      using lh0 lo that(2) by (intro nth_wr32_other) simp_all
    finally show ?thesis using that(1) by simp
  qed
  show "Ft ! i = ?data ! (?bl - ?f + i)"
    if "i < ?f" "i < FtrBlockLength lay \<or> FtrBlockLength lay + 4 \<le> i" for i
  proof -
    have "Ft ! i = take ?f (drop (?bl - ?f) ?data) ! i"
      unfolding Ft_def using lf0 lo that(2) by (intro nth_wr32_other) simp_all
    then show ?thesis using that(1) len hf by simp
  qed
qed

lemma TrimBlock_offsets:
  assumes lay: "layout_ok lay" and bok: "block_ok lay c b" and tr: "truncated lay c b"
    and sc: "same_config c c0"
  shows "\<exists>c1. TrimBlock lay c0 b = Inr c1 \<and>
           unat (DataEndOffset c1) = unat (HeaderSize lay) + unat (SnapLength c) \<and>
           unat (ModifiedFooterOffset c1) =
             unat (HeaderSize lay) + unat (SnapLength c) + unat (SnapLengthPad c) \<and>
           unat (OriginalFooterOffset c1) = unat (BlockLength b) - unat (FooterSize lay)"
proof -
  let ?h = "unat (HeaderSize lay)" and ?f = "unat (FooterSize lay)"
  let ?bl = "unat (BlockLength b)" and ?s = "unat (SnapLength c)" and ?pad = "unat (SnapLengthPad c)"
  let ?data = "blockData b"
  note cf = same_config_fields[OF sc]
  have pk: "BlockType b = PacketBlock" using tr by (simp add: truncated_def)
  have len: "length ?data = ?bl" and hf: "?h + ?f \<le> ?bl"
    and bl: "rd32 ?data (HdrBlockLength lay) = Some (BlockLength b)"
    and fit: "?h + ?s + ?pad + ?f \<le> ?bl"
    using bok pk tr by (simp_all add: block_ok_def truncated_length_def)
  obtain cap where cap: "rd32 ?data (HdrCapturedLength lay) = Some cap"
     "SnapLength c \<noteq> 0" "cap > SnapLength c"
    using tr by (auto simp: truncated_def split: option.splits)
  let ?dataEnd = "HeaderSize lay + SnapLength c"
  let ?modFooter = "?dataEnd + SnapLengthPad c"
  let ?origFooter = "BlockLength b - FooterSize lay"
  have u1: "unat ?dataEnd = ?h + ?s"
    using fit by (intro unat_add_bound[of _ _ "BlockLength b"]) simp
  have u2: "unat ?modFooter = ?h + ?s + ?pad"
    using fit u1 by (simp add: unat_add_bound[of _ _ "BlockLength b"])
  have fle: "FooterSize lay \<le> BlockLength b" using hf by (simp add: word_le_nat_alt)
  have u3: "unat ?origFooter = ?bl - ?f" using fle by (simp add: unat_sub)
  have r1: "read_bytes ?data 0 ?h = Some (take ?h ?data)"
    using len hf by (simp add: read_bytes_def)
  have r2: "read_bytes ?data (unat ?origFooter) ?f = Some (take ?f (drop (?bl - ?f) ?data))"
    using len hf u3 by (simp add: read_bytes_def)
  show ?thesis
    using cap bl r1 r2 cf(1,2) u1 u2 u3 by (simp add: TrimBlock_def Let_def)
qed

lemma CopyPadding_jump:
  assumes "DataEndOffset (ctx s) \<le> blockOffset s"
    and "blockOffset s \<le> ModifiedFooterOffset (ctx s)"
    and "blockOffset s < OriginalFooterOffset (ctx s)"
    and "readOffset s < rl"
    and "ModifiedFooterOffset (ctx s) - blockOffset s \<le> rl - readOffset s"
  shows "blockOffset (CopyPadding rl s) = OriginalFooterOffset (ctx s) \<and>
         readBuffer (CopyPadding rl s) =
           readBuffer s @ replicate (unat (ModifiedFooterOffset (ctx s) - blockOffset s)) 0"
proof -
  have m: "min (rl - readOffset s) (ModifiedFooterOffset (ctx s) - blockOffset s) =
      ModifiedFooterOffset (ctx s) - blockOffset s"
    using assms(5) by (simp add: min_def)
  show ?thesis using assms(1,3,4) by (simp add: CopyPadding_def Let_def m)
qed

lemma example_truncated_ok:
  "queue_ok (Layout example_env) example_context
     (Queue (entry_qm example_env example_context example_packet_qm))"
  "RestartRequested example_context \<noteq> 1"
  "RestartState example_context \<noteq> RestartStateSendEof"
  "CurrentBlock example_context = None"
  "Queue (entry_qm example_env example_context example_packet_qm) = example_packet # []"
  "truncated (Layout example_env) example_context example_packet"
  "\<not> suppressed example_context example_packet"
  "28 = unat (HeaderSize (Layout example_env))" "5 = unat (SnapLength example_context)"
  "3 = unat (SnapLengthPad example_context)" "4 = unat (FooterSize (Layout example_env))"
  by code_simp+

lemma example_truncated_fields:
  "HdrCapturedLength (Layout example_env) = 20" "HdrBlockLength (Layout example_env) = 4"
  "FtrBlockLength (Layout example_env) = 0" "SnapLength example_context = 5"
  "stream (Layout example_env) example_context [] = []"
  by code_simp+

text \<open>
  C2. Take a well-formed reader at a block boundary with no restart pending, and next in
  its queue a packet block \<open>b\<close> that is not suppressed and whose captured length exceeds
  the snap length \<open>S\<close>, not zero. Write \<open>H\<close> and \<open>F\<close> for the sizes of the packet header and
  footer and \<open>P\<close> for the snap length padding. A read of \<open>l\<close> bytes returns the first \<open>l\<close>
  bytes of \<open>D\<close> followed by the stream of the blocks behind, where \<open>D\<close>, what is delivered
  for \<open>b\<close>, has \<open>H + S + P + F\<close> bytes; its header field \<open>CapturedLength\<close> is \<open>S\<close>; its header
  field \<open>BlockLength\<close> and its footer field \<open>BlockLength\<close> are \<open>H + S + P + F\<close> (which fits a
  \<^verbatim>\<open>UINT32\<close>); the bytes at \<open>[H + S, H + S + P)\<close> are zero; the \<open>S\<close> bytes from \<open>H\<close> are those
  of the block; the other bytes of the header are those of the block's header and the
  other bytes of the footer those of the block's footer, which follows the padding at
  once. In the code: \<open>TrimBlock\<close> stores \<open>DataEndOffset = H + S\<close>,
  \<open>ModifiedFooterOffset = H + S + P\<close> and \<open>OriginalFooterOffset = BlockLength - F\<close>, and the
  padding step that brings the cursor to \<open>ModifiedFooterOffset\<close> sets it to
  \<open>OriginalFooterOffset\<close>.
\<close>

theorem C2_truncated_block:
  assumes lay: "layout_ok (Layout env)"
    and ok: "context_ok (Layout env) c"
    and qok: "queue_ok (Layout env) c (Queue (entry_qm env c q))"
    and nr: "RestartRequested c \<noteq> 1" and ns: "RestartState c \<noteq> RestartStateSendEof"
    and nb: "CurrentBlock c = None"
    and q: "Queue (entry_qm env c q) = b # bs"
    and tr: "truncated (Layout env) c b" and nsup: "\<not> suppressed c b"
    and H: "H = unat (HeaderSize (Layout env))" and S: "S = unat (SnapLength c)"
    and P: "P = unat (SnapLengthPad c)" and F: "F = unat (FooterSize (Layout env))"
  shows "\<exists>d D. DispatchRead env q
                 \<lparr>ReadFsContext2 = Some c, ReadSystemBufferNull = False, ReadLength = l\<rparr> = Inr d \<and>
           ReadBytes d = take (unat l) (D @ stream (Layout env) c bs) \<and>
           length D = H + S + P + F \<and>
           rd32 D (HdrCapturedLength (Layout env)) = Some (SnapLength c) \<and>
           rd32 D (HdrBlockLength (Layout env)) = Some (of_nat (H + S + P + F)) \<and>
           rd32 D (H + S + P + FtrBlockLength (Layout env)) = Some (of_nat (H + S + P + F)) \<and>
           unat (of_nat (H + S + P + F) :: u32) = H + S + P + F \<and>
           (\<forall>i. H + S \<le> i \<and> i < H + S + P \<longrightarrow> D ! i = 0) \<and>
           take S (drop H D) = take S (drop H (blockData b)) \<and>
           (\<forall>i. i < H \<and>
                (i < HdrBlockLength (Layout env) \<or> HdrBlockLength (Layout env) + 4 \<le> i) \<and>
                (i < HdrCapturedLength (Layout env) \<or> HdrCapturedLength (Layout env) + 4 \<le> i) \<longrightarrow>
                D ! i = blockData b ! i) \<and>
           (\<forall>i. i < F \<and>
                (i < FtrBlockLength (Layout env) \<or> FtrBlockLength (Layout env) + 4 \<le> i) \<longrightarrow>
                D ! (H + S + P + i) = blockData b ! (unat (BlockLength b) - F + i)) \<and>
           (\<forall>c0. same_config c c0 \<longrightarrow>
              (\<exists>c1. TrimBlock (Layout env) c0 b = Inr c1 \<and>
                 unat (DataEndOffset c1) = H + S \<and>
                 unat (ModifiedFooterOffset c1) = H + S + P \<and>
                 unat (OriginalFooterOffset c1) = unat (BlockLength b) - F \<and>
                 (\<forall>s rl. ctx s = c1 \<and> DataEndOffset c1 \<le> blockOffset s \<and>
                     blockOffset s \<le> ModifiedFooterOffset c1 \<and>
                     blockOffset s < OriginalFooterOffset c1 \<and> readOffset s < rl \<and>
                     ModifiedFooterOffset c1 - blockOffset s \<le> rl - readOffset s \<longrightarrow>
                     blockOffset (CopyPadding rl s) = OriginalFooterOffset c1)))"
proof -
  let ?lay = "Layout env"
  let ?T = "truncated_length ?lay c"
  define Hd where "Hd = wr32 (wr32 (take (unat (HeaderSize ?lay)) (blockData b))
                (HdrBlockLength ?lay) (of_nat ?T)) (HdrCapturedLength ?lay) (SnapLength c)"
  define Ft where "Ft = wr32 (take (unat (FooterSize ?lay))
                (drop (unat (BlockLength b) - unat (FooterSize ?lay)) (blockData b)))
             (FtrBlockLength ?lay) (of_nat ?T)"
  define Py where "Py = take S (drop H (blockData b))"
  define D where "D = delivered ?lay c b"
  have bok: "block_ok ?lay c b" using qok q by (simp add: queue_ok_def)
  note dp = delivered_parts[OF lay bok tr, folded Hd_def Ft_def H S P F, folded Py_def D_def]
  have T: "?T = H + S + P + F" by (simp add: truncated_length_def H S P F)
  have lo: "HdrBlockLength ?lay + 4 \<le> H" "HdrCapturedLength ?lay + 4 \<le> H"
    "FtrBlockLength ?lay + 4 \<le> F"
    using lay by (simp_all add: layout_ok_def H F)
  have Dp: "D = Hd @ Py @ replicate P 0 @ Ft" using dp(1) .
  have lH: "length Hd = H" and lF: "length Ft = F" and lP: "length Py = S"
    using dp(2,3,4) by simp_all
  from DispatchRead_stream[OF lay ok qok nr ns, of l] obtain d where
    d: "DispatchRead env q
          \<lparr>ReadFsContext2 = Some c, ReadSystemBufferNull = False, ReadLength = l\<rparr> = Inr d"
      "ReadBytes d = take (unat l) (available ?lay c (entry_qm env c q))"
    by blast
  have av: "available ?lay c (entry_qm env c q) = D @ stream ?lay c bs"
    using nb q nsup by (simp add: available_def rest_of_block_def stream_Cons D_def)
  have c1: "ReadBytes d = take (unat l) (D @ stream ?lay c bs)" using d(2) av by simp
  have c2: "length D = H + S + P + F" using Dp lH lF lP by simp
  have c3: "rd32 D (HdrCapturedLength ?lay) = Some (SnapLength c)"
    unfolding Dp using dp(6) lH lo by (simp add: rd32_append_left)
  have c4: "rd32 D (HdrBlockLength ?lay) = Some (of_nat (H + S + P + F))"
    unfolding Dp using dp(7) lH lo T by (simp add: rd32_append_left)
  define A where "A = Hd @ Py @ replicate P 0"
  have DA: "D = A @ Ft" and lA: "length A = H + S + P"
    using Dp lH lP by (simp_all add: A_def)
  have split: "rd32 D (H + S + P + k) = rd32 Ft k" "D ! (H + S + P + k) = Ft ! k" for k
    unfolding DA lA[symmetric] by (rule rd32_append_right, rule nth_append_length_plus)
  have c5: "rd32 D (H + S + P + FtrBlockLength ?lay) = Some (of_nat (H + S + P + F))"
    using split(1) dp(8) T by simp
  have c6: "unat (of_nat (H + S + P + F) :: u32) = H + S + P + F" using dp(5) T by simp
  have c7: "D ! i = 0" if hi: "H + S \<le> i \<and> i < H + S + P" for i
  proof -
    define B where "B = Hd @ Py"
    have DB: "D = B @ replicate P 0 @ Ft" and lB: "length B = H + S"
      using Dp lH lP by (simp_all add: B_def)
    obtain j where j: "i = length B + j" "j < P" using hi lB by (auto simp: le_iff_add)
    have "D ! i = (replicate P (0::u8) @ Ft) ! j"
      unfolding DB j(1) by (rule nth_append_length_plus)
    then show ?thesis using j(2) by (simp add: nth_append)
  qed
  have c8: "take S (drop H D) = take S (drop H (blockData b))"
    unfolding Dp using lH lP by (simp add: Py_def)
  have c9: "D ! i = blockData b ! i"
    if "i < H \<and> (i < HdrBlockLength ?lay \<or> HdrBlockLength ?lay + 4 \<le> i) \<and>
        (i < HdrCapturedLength ?lay \<or> HdrCapturedLength ?lay + 4 \<le> i)" for i
  proof -
    have "D ! i = Hd ! i" unfolding Dp using that lH by (simp add: nth_append)
    then show ?thesis using dp(9)[of i] that by simp
  qed
  have c10: "D ! (H + S + P + i) = blockData b ! (unat (BlockLength b) - F + i)"
    if "i < F \<and> (i < FtrBlockLength ?lay \<or> FtrBlockLength ?lay + 4 \<le> i)" for i
    using split(2)[of i] dp(10)[of i] that by simp
  have c11: "\<exists>c1. TrimBlock ?lay c0 b = Inr c1 \<and>
                 unat (DataEndOffset c1) = H + S \<and>
                 unat (ModifiedFooterOffset c1) = H + S + P \<and>
                 unat (OriginalFooterOffset c1) = unat (BlockLength b) - F \<and>
                 (\<forall>s rl. ctx s = c1 \<and> DataEndOffset c1 \<le> blockOffset s \<and>
                     blockOffset s \<le> ModifiedFooterOffset c1 \<and>
                     blockOffset s < OriginalFooterOffset c1 \<and> readOffset s < rl \<and>
                     ModifiedFooterOffset c1 - blockOffset s \<le> rl - readOffset s \<longrightarrow>
                     blockOffset (CopyPadding rl s) = OriginalFooterOffset c1)"
    if "same_config c c0" for c0
  proof -
    from TrimBlock_offsets[OF lay bok tr that] obtain c1 where
      t: "TrimBlock ?lay c0 b = Inr c1" "unat (DataEndOffset c1) = H + S"
        "unat (ModifiedFooterOffset c1) = H + S + P"
        "unat (OriginalFooterOffset c1) = unat (BlockLength b) - F"
      by (auto simp: H S P F)
    have "blockOffset (CopyPadding rl s) = OriginalFooterOffset c1"
      if "ctx s = c1 \<and> DataEndOffset c1 \<le> blockOffset s \<and>
          blockOffset s \<le> ModifiedFooterOffset c1 \<and>
          blockOffset s < OriginalFooterOffset c1 \<and> readOffset s < rl \<and>
          ModifiedFooterOffset c1 - blockOffset s \<le> rl - readOffset s" for s rl
      using CopyPadding_jump[of s rl] that by simp
    then show ?thesis using t by blast
  qed
  show ?thesis
    using d(1) c1 c2 c3 c4 c5 c6 c7 c8 c9 c10 c11
    by (intro exI[of _ d] exI[of _ D] conjI allI impI) blast+
qed

theorem C2_truncated_block_witness:
  "\<exists>d. DispatchRead example_env example_packet_qm
          \<lparr>ReadFsContext2 = Some example_context, ReadSystemBufferNull = False,
           ReadLength = 100\<rparr> = Inr d \<and>
       length (ReadBytes d) = 40 \<and> rd32 (ReadBytes d) 20 = Some 5 \<and>
       rd32 (ReadBytes d) 4 = Some 40 \<and> rd32 (ReadBytes d) 36 = Some 40 \<and>
       take 5 (drop 28 (ReadBytes d)) = take 5 (drop 28 (blockData example_packet))"
proof -
  from C2_truncated_block[OF example_reader_ok(1,2) example_truncated_ok, of 100]
  obtain d D where
    d: "DispatchRead example_env example_packet_qm
          \<lparr>ReadFsContext2 = Some example_context, ReadSystemBufferNull = False,
           ReadLength = 100\<rparr> = Inr d"
      "ReadBytes d = take (unat (100::u32)) (D @ stream (Layout example_env) example_context [])"
      "length D = 28 + 5 + 3 + 4"
      "rd32 D (HdrCapturedLength (Layout example_env)) = Some (SnapLength example_context)"
      "rd32 D (HdrBlockLength (Layout example_env)) = Some (of_nat (28 + 5 + 3 + 4))"
      "rd32 D (28 + 5 + 3 + FtrBlockLength (Layout example_env)) = Some (of_nat (28 + 5 + 3 + 4))"
      "take 5 (drop 28 D) = take 5 (drop 28 (blockData example_packet))"
    by blast
  have e: "ReadBytes d = D" using d(2,3) by (simp add: example_truncated_fields)
  show ?thesis
    using d(1,3-7) e
    by (intro exI[of _ d]) (simp add: example_truncated_fields)
qed

end
